(* ===== verification/Prelude.thy ===== *)
theory Prelude
  imports Main "HOL-Library.Word" "HOL-Library.Monad_Syntax"
begin

text \<open>
  Shared vocabulary of the development: the machine integer types of the C++ sources, the
  little-endian views of byte buffers, and the generic facts on lists, options and words that
  the component theories use.
\<close>

unbundle bit_operations_syntax

section \<open>Machine integers\<close>

type_synonym u8 = "8 word"
type_synonym u16 = "16 word"
type_synonym u32 = "32 word"
type_synonym u64 = "64 word"

text \<open>
  Collections the component proofs draw from: \<open>bitfield\<close> holds bit-level readings of the
  sources' shift-and-mask expressions, \<open>step_unfold\<close> the definitions a one-step proof opens.
\<close>

named_theorems bitfield
named_theorems step_unfold

section \<open>Words\<close>

lemma word_eq_by_bits:
  fixes a b :: "'a::len word"
  assumes "\<And>n. n < LENGTH('a) \<Longrightarrow> bit a n = bit b n"
  shows "a = b"
  by (rule bit_word_eqI) (use assms in blast)

lemma bit_mask_word [bitfield]:
  "bit (2 ^ k - 1 :: 'a::len word) n \<longleftrightarrow> n < k \<and> n < LENGTH('a)"
proof -
  have "(2 ^ k - 1 :: 'a word) = mask k" by (simp add: mask_eq_exp_minus_1)
  then show ?thesis by (simp add: bit_mask_iff) auto
qed

lemma unat_plus_no_wrap:
  fixes a b :: "'a::len word"
  shows "unat a + unat b < 2 ^ LENGTH('a) \<Longrightarrow> unat (a + b) = unat a + unat b"
  by (simp add: unat_word_ariths)

lemma unat_minus_no_wrap:
  fixes a b :: "'a::len word"
  shows "b \<le> a \<Longrightarrow> unat (a - b) = unat a - unat b"
  by (rule unat_sub)

lemma unat_power2: "k < LENGTH('a) \<Longrightarrow> unat (2 ^ k :: 'a::len word) = 2 ^ k"
  using unat_of_nat[where 'a = 'a, of "2 ^ k"] by simp

lemma u32_bound: "unat (x :: u32) < 4294967296"
  using unsigned_less[of x] by simp

lemma u64_bound: "unat (x :: u64) < 18446744073709551616"
  using unsigned_less[of x] by simp

lemma word_push_bit_one: "push_bit k (1 :: 'a::len word) = 2 ^ k"
  by (simp add: push_bit_eq_mult)

section \<open>Bytes\<close>

text \<open>The little-endian bytes of a number and the number made of them.\<close>

definition le_bytes :: "nat \<Rightarrow> 'a::len word \<Rightarrow> u8 list" where
  "le_bytes n w = map (\<lambda>i. ucast (drop_bit (8 * i) w)) [0..<n]"

fun le_word :: "u8 list \<Rightarrow> 'a::len word" where
  "le_word [] = 0"
| "le_word (b # bs) = ucast b OR push_bit 8 (le_word bs)"

lemma length_le_bytes [simp]: "length (le_bytes n w) = n"
  by (simp add: le_bytes_def)

lemma bit_le_word:
  "bit (le_word bs :: 'a::len word) k \<longleftrightarrow> k < LENGTH('a) \<and> k div 8 < length bs \<and> bit (bs ! (k div 8)) (k mod 8)"
proof (induction bs arbitrary: k)
  case (Cons b bs)
  show ?case
  proof (cases "k < 8")
    case True
    then show ?thesis by (auto simp: bit_simps)
  next
    case False
    then have "k div 8 = Suc ((k - 8) div 8)" "k mod 8 = (k - 8) mod 8" by (simp_all add: le_div_geq le_mod_geq)
    moreover have "\<not> bit b k" using False by (auto dest: bit_imp_le_length)
    ultimately show ?thesis using False Cons[of "k - 8"] by (auto simp: bit_simps)
  qed
qed simp

lemma le_word_bytes: "LENGTH('a) \<le> 8 * n \<Longrightarrow> le_word (le_bytes n w) = (w :: 'a::len word)"
  by (rule word_eq_by_bits) (auto simp: bit_le_word le_bytes_def bit_simps)

lemma le_bytes_word:
  assumes "8 * length bs \<le> LENGTH('a)"
  shows "le_bytes (length bs) (le_word bs :: 'a::len word) = bs"
proof (rule nth_equalityI)
  fix i assume "i < length (le_bytes (length bs) (le_word bs :: 'a word))"
  then have i: "i < length bs" by simp
  show "le_bytes (length bs) (le_word bs :: 'a word) ! i = bs ! i"
  proof (rule word_eq_by_bits)
    fix n assume "n < LENGTH(8)"
    then have "(8 * i + n) div 8 = i" "(8 * i + n) mod 8 = n" "8 * i + n < LENGTH('a)" using i assms by auto
    then show "bit (le_bytes (length bs) (le_word bs :: 'a word) ! i) n = bit (bs ! i) n"
      using i \<open>n < LENGTH(8)\<close> by (simp add: le_bytes_def bit_simps bit_le_word)
  qed
qed simp

section \<open>Lists\<close>

lemma nth_update_cases:
  "i < length xs \<Longrightarrow> xs[j := v] ! i = (if i = j then v else xs ! i)"
  by (auto simp: nth_list_update)

lemma list_all_nth: "list_all P xs \<longleftrightarrow> (\<forall>i < length xs. P (xs ! i))"
  by (simp add: list_all_length)

text \<open>Sums over a list in which one entry is replaced.\<close>

lemma sum_list_update_nat:
  "i < length (xs :: nat list) \<Longrightarrow> sum_list (xs[i := v]) + xs ! i = sum_list xs + v"
  by (induction xs arbitrary: i) (auto split: nat.splits)

section \<open>Vectors\<close>

text \<open>
  \<open>v[i]\<close> and \<open>v[i] = x\<close> of a \<open>std::vector\<close>: an access outside the vector, undefined in the code,
  is \<open>None\<close>.
\<close>

definition vec_get :: "'a list \<Rightarrow> nat \<Rightarrow> 'a option" where
  "vec_get xs i = (if i < length xs then Some (xs ! i) else None)"

definition vec_put :: "'a list \<Rightarrow> nat \<Rightarrow> 'a \<Rightarrow> 'a list option" where
  "vec_put xs i v = (if i < length xs then Some (xs[i := v]) else None)"

lemma vec_get_Some [simp]: "vec_get xs i = Some v \<longleftrightarrow> i < length xs \<and> xs ! i = v"
  by (auto simp: vec_get_def)

lemma vec_put_Some [simp]: "vec_put xs i v = Some ys \<longleftrightarrow> i < length xs \<and> ys = xs[i := v]"
  by (auto simp: vec_put_def)

lemma vec_in_range:
  assumes "i < length xs"
  shows "vec_get xs i = Some (xs ! i)" "vec_put xs i v = Some (xs[i := v])"
  using assms by simp_all

section \<open>Packed fields\<close>

text \<open>Reading a field of a word packed from disjoint fields.\<close>

lemma get_field_or: "drop_bit k (a OR b) AND mask w = (drop_bit k a AND mask w) OR (drop_bit k b AND mask w)"
  for a b :: "'a::len word"
  by (rule word_eq_by_bits) (auto simp: bit_simps)

lemma get_field_same:
  fixes x :: "'a::len word"
  assumes "k + w \<le> LENGTH('a)"
  shows "drop_bit k (push_bit k (x AND mask w)) AND mask w = x AND mask w"
  by (rule word_eq_by_bits) (use assms in \<open>auto simp: bit_simps\<close>)

lemma get_field_other:
  fixes x :: "'a::len word"
  assumes "k + w \<le> j \<or> j + v \<le> k"
  shows "drop_bit k (push_bit j (x AND mask v)) AND mask w = 0"
  by (rule word_eq_by_bits) (use assms in \<open>auto simp: bit_simps\<close>)

lemmas get_field = get_field_or get_field_same get_field_other

lemma small_bits:
  fixes x :: "'a::len word"
  assumes "unat x < 2 ^ k" "k \<le> n"
  shows "\<not> bit x n"
proof -
  have "bit (unat x) n \<longleftrightarrow> bit (take_bit k (unat x)) n" using assms(1) by (simp add: take_bit_nat_eq_self)
  then show ?thesis using assms(2) by (simp add: bit_take_bit_iff bit_unsigned_iff)
qed

lemma unat_clear_low: "unat (x AND NOT (mask j) :: 'a::len word) = unat x div 2 ^ j * 2 ^ j"
proof -
  have "x AND NOT (mask j) = push_bit j (drop_bit j x)"
    by (rule word_eq_by_bits) (auto simp: bit_simps)
  moreover have "unat x div 2 ^ j * 2 ^ j < 2 ^ LENGTH('a)"
    by (rule le_less_trans[OF div_times_less_eq_dividend unsigned_less])
  moreover have "unat (push_bit j (drop_bit j x)) = take_bit LENGTH('a) (unat x div 2 ^ j * 2 ^ j)"
    by (simp only: unsigned_push_bit_eq unsigned_drop_bit_eq) (simp only: push_bit_eq_mult drop_bit_eq_div
        take_bit_nat_eq_self[OF unsigned_less])
  ultimately show ?thesis by (simp only: take_bit_nat_eq_self)
qed

end
