(* ===== verification/Bitmanip.thy ===== *)
theory Bitmanip
  imports Prelude
begin

text \<open>
  The bit-manipulation helpers of \<open>src/vortex/sw/common/bitmanip.h\<close> and the \<open>cp_clog2\<close> loop of
  \<open>src/vortex/sim/common/cmd_processor.cpp\<close>.  The template parameter \<open>T\<close> of the C++ functions is
  an unsigned integer type; it is the word type \<open>'a word\<close> here, \<open>sizeof(T) * 8\<close> being
  \<open>LENGTH('a)\<close>.  The assertions of the \<open>bit_*w\<close> helpers are hypotheses of the lemmas.

  The lemmas give every helper its meaning: the logarithms as the least and greatest exponents,
  the field helpers bit by bit, \<open>bit_reverse\<close> as the mirrored word, and \<open>sext\<close> as the
  two's-complement sign extension.
\<close>

section \<open>Definitions\<close>

text \<open>The compiler intrinsics: \<open>__builtin_clz\<close> and \<open>__builtin_ctz\<close> on a non-zero argument.\<close>

definition builtin_clz :: "'a::len word \<Rightarrow> nat" where
  "builtin_clz x = length (takeWhile Not (rev (map (bit x) [0..<LENGTH('a)])))"

definition builtin_ctz :: "'a::len word \<Rightarrow> nat" where
  "builtin_ctz x = length (takeWhile Not (map (bit x) [0..<LENGTH('a)]))"

definition count_leading_zeros :: "'a::len word \<Rightarrow> nat" where
  "count_leading_zeros value =
     (if LENGTH('a) > 32
      then (if value \<noteq> 0 then builtin_clz (ucast value :: u64) - (64 - LENGTH('a)) else LENGTH('a))
      else (if value \<noteq> 0 then builtin_clz (ucast value :: u32) - (32 - LENGTH('a)) else LENGTH('a)))"

definition count_trailing_zeros :: "'a::len word \<Rightarrow> nat" where
  "count_trailing_zeros value =
     (if LENGTH('a) > 32
      then (if value \<noteq> 0 then builtin_ctz (ucast value :: u64) else LENGTH('a))
      else (if value \<noteq> 0 then builtin_ctz (ucast value :: u32) else LENGTH('a)))"

definition ispow2 :: "'a::len word \<Rightarrow> bool" where
  "ispow2 value \<longleftrightarrow> value \<noteq> 0 \<and> value AND (value - 1) = 0"

definition log2ceil :: "'a::len word \<Rightarrow> nat" where
  "log2ceil value = LENGTH('a) - count_leading_zeros (value - 1)"

definition log2up :: "'a::len word \<Rightarrow> nat" where
  "log2up value = max 1 (log2ceil value)"

definition log2floor :: "'a::len word \<Rightarrow> nat" where
  "log2floor value = (LENGTH('a) - 1) - count_leading_zeros value"

definition ceil2 :: "'a::len word \<Rightarrow> nat" where
  "ceil2 value = LENGTH('a) - count_leading_zeros value"

definition bit_clr :: "u64 \<Rightarrow> nat \<Rightarrow> u64" where
  "bit_clr bits index = bits AND NOT (push_bit index 1)"

definition bit_set :: "u64 \<Rightarrow> nat \<Rightarrow> u64" where
  "bit_set bits index = bits OR push_bit index 1"

definition bit_get :: "u64 \<Rightarrow> nat \<Rightarrow> bool" where
  "bit_get bits index \<longleftrightarrow> drop_bit index bits AND 1 \<noteq> 0"

definition bit_clrw :: "u64 \<Rightarrow> nat \<Rightarrow> nat \<Rightarrow> u64" where
  "bit_clrw bits start stop =
     (let shift = 63 - stop;
          m = drop_bit shift (push_bit (shift + start) 0xffffffffffffffff)
      in bits AND NOT m)"

definition bit_setw :: "u64 \<Rightarrow> nat \<Rightarrow> nat \<Rightarrow> u64 \<Rightarrow> u64" where
  "bit_setw bits start stop value =
     (let shift = 63 - stop;
          dirty = drop_bit shift (push_bit (shift + start) value)
      in bit_clrw bits start stop OR dirty)"

definition bit_getw :: "u64 \<Rightarrow> nat \<Rightarrow> nat \<Rightarrow> u64" where
  "bit_getw bits start stop =
     (let shift = 63 - stop
      in drop_bit (shift + start) (push_bit shift bits))"

definition bit_reverse64 :: "u64 \<Rightarrow> u64" where
  "bit_reverse64 bits0 =
     (let bits1 = drop_bit 1 (bits0 AND 0xAAAAAAAAAAAAAAAA) OR push_bit 1 (bits0 AND 0x5555555555555555);
          bits2 = drop_bit 2 (bits1 AND 0xCCCCCCCCCCCCCCCC) OR push_bit 2 (bits1 AND 0x3333333333333333);
          bits3 = drop_bit 4 (bits2 AND 0xF0F0F0F0F0F0F0F0) OR push_bit 4 (bits2 AND 0x0F0F0F0F0F0F0F0F);
          bits4 = drop_bit 8 (bits3 AND 0xFF00FF00FF00FF00) OR push_bit 8 (bits3 AND 0x00FF00FF00FF00FF);
          bits5 = drop_bit 16 (bits4 AND 0xFFFF0000FFFF0000) OR push_bit 16 (bits4 AND 0x0000FFFF0000FFFF)
      in drop_bit 32 bits5 OR push_bit 32 bits5)"

definition bit_reverse :: "u64 \<Rightarrow> nat \<Rightarrow> u64" where
  "bit_reverse bits width =
     (if width = 64 then bit_reverse64 bits
      else fold (\<lambda>i reversed.
             if bits AND push_bit i 1 \<noteq> 0 then reversed OR push_bit (width - 1 - i) 1 else reversed)
           [0..<width] 0)"

definition sext :: "'a::len word \<Rightarrow> nat \<Rightarrow> 'a word" where
  "sext word width =
     (if width = LENGTH('a) then word
      else let m = push_bit width 1 - 1
           in if drop_bit (width - 1) word AND 1 \<noteq> 0 then word OR NOT m else word AND m)"

definition zext :: "'a::len word \<Rightarrow> nat \<Rightarrow> 'a word" where
  "zext word width =
     (if width = LENGTH('a) then word else word AND (push_bit width 1 - 1))"

definition pow2_sqrt :: "u32 \<Rightarrow> u32" where
  "pow2_sqrt x = push_bit (count_trailing_zeros x div 2) 1"

text \<open>
  \<open>cp_clog2\<close>: the loop \<open>while ((1 << r) < n) ++r\<close> on a 64-bit \<open>n\<close>.  A shift by 64 or more is
  undefined in C++; the loop is cut there with \<open>None\<close>.
\<close>

fun cp_clog2_loop :: "nat \<Rightarrow> u64 \<Rightarrow> nat \<Rightarrow> nat option" where
  "cp_clog2_loop 0 n r = None"
| "cp_clog2_loop (Suc k) n r = (if push_bit r 1 < n then cp_clog2_loop k n (Suc r) else Some r)"

definition cp_clog2 :: "u64 \<Rightarrow> nat option" where
  "cp_clog2 n = cp_clog2_loop 64 n 0"

section \<open>Single bits and fields\<close>

lemma push_bit_one_word_bit [bitfield]:
  "bit (push_bit k (1 :: 'a::len word)) n \<longleftrightarrow> n = k \<and> k < LENGTH('a)"
  by (auto simp: bit_simps)

lemma bit_clr_bit [bitfield]:
  "i < 64 \<Longrightarrow> bit (bit_clr b i) n \<longleftrightarrow> bit b n \<and> n \<noteq> i"
  using bit_imp_le_length[of b n] by (auto simp: bit_clr_def bit_simps)

lemma bit_set_bit [bitfield]:
  "i < 64 \<Longrightarrow> bit (bit_set b i) n \<longleftrightarrow> bit b n \<or> n = i"
  by (auto simp: bit_set_def bit_simps)

lemma bit_get_bit [bitfield]: "bit_get b i \<longleftrightarrow> bit b i"
  by (simp add: bit_get_def and_one_eq odd_iff_mod_2_eq_one bit_iff_odd_drop_bit)

lemma all_ones_u64: "(0xffffffffffffffff :: u64) = - 1"
  by simp

lemma bit_clrw_bit [bitfield]:
  assumes "s \<le> e" "e \<le> 63"
  shows "bit (bit_clrw b s e) n \<longleftrightarrow> bit b n \<and> \<not> (s \<le> n \<and> n \<le> e)"
  unfolding bit_clrw_def all_ones_u64
  using assms bit_imp_le_length[of b n] by (auto simp: Let_def bit_simps)

lemma bit_setw_bit [bitfield]:
  assumes "s \<le> e" "e \<le> 63"
  shows "bit (bit_setw b s e v) n \<longleftrightarrow> (if s \<le> n \<and> n \<le> e then bit v (n - s) else bit b n)"
  using assms by (auto simp: bit_setw_def Let_def bit_simps bit_clrw_bit)

lemma bit_getw_bit [bitfield]:
  assumes "s \<le> e" "e \<le> 63"
  shows "bit (bit_getw b s e) n \<longleftrightarrow> n \<le> e - s \<and> bit b (n + s)"
  using assms by (auto simp: bit_getw_def Let_def bit_simps add.commute)

section \<open>Leading zeros and logarithms\<close>

text \<open>The position of the highest set bit determines every counting function.\<close>

definition is_top_bit :: "'a::len word \<Rightarrow> nat \<Rightarrow> bool" where
  "is_top_bit x k \<longleftrightarrow> bit x k \<and> (\<forall>j > k. \<not> bit x j)"

lemma is_top_bit_less: "is_top_bit (x :: 'a::len word) k \<Longrightarrow> k < LENGTH('a)"
  by (auto simp: is_top_bit_def dest: bit_imp_le_length)

lemma ex_top_bit:
  fixes x :: "'a::len word"
  assumes "x \<noteq> 0"
  obtains k where "is_top_bit x k"
proof -
  let ?S = "{n. bit x n}"
  have sub: "?S \<subseteq> {..<LENGTH('a)}" by (auto dest: bit_imp_le_length)
  then have fin: "finite ?S" by (rule finite_subset) simp
  obtain n where "bit x n" using assms by (metis bit_eqI bit_0_eq bot_apply bot_bool_def)
  then have "?S \<noteq> {}" by blast
  with fin have "Max ?S \<in> ?S" and "\<forall>j. j \<in> ?S \<longrightarrow> j \<le> Max ?S" by (rule Max_in, simp add: fin)
  then have "is_top_bit x (Max ?S)" by (auto simp: is_top_bit_def not_le[symmetric])
  then show ?thesis by (rule that)
qed

lemma top_bit_bounds:
  fixes x :: "'a::len word"
  assumes "is_top_bit x k"
  shows "2 ^ k \<le> unat x" "unat x < 2 ^ Suc k"
proof -
  have "bit x (k + n) \<longleftrightarrow> n = 0" for n
    using assms by (cases n) (auto simp: is_top_bit_def)
  then have "drop_bit k x = 1"
    by (intro bit_eqI) (auto simp: bit_simps)
  then have "unat x div 2 ^ k = 1"
    by (metis unat_drop_bit_eq drop_bit_eq_div unat_1)
  then have "unat x = 2 ^ k + unat x mod 2 ^ k"
    by (metis add.commute mod_div_mult_eq mult_1)
  moreover have "unat x mod 2 ^ k < 2 ^ k" by simp
  ultimately have "2 ^ k \<le> unat x \<and> unat x < 2 * 2 ^ k" by linarith
  then show "2 ^ k \<le> unat x" "unat x < 2 ^ Suc k" by simp_all
qed

lemma builtin_clz_top:
  fixes x :: "'a::len word"
  assumes "is_top_bit x k"
  shows "builtin_clz x = LENGTH('a) - 1 - k"
proof -
  let ?L = "LENGTH('a)" and ?n = "LENGTH('a) - 1 - k"
  have k: "k < ?L" using assms by (rule is_top_bit_less)
  have xs: "rev (map (bit x) [0..<?L]) = map (\<lambda>i. bit x (?L - 1 - i)) [0..<?L]"
    by (rule nth_equalityI) (auto simp: rev_nth)
  have "takeWhile Not (map (\<lambda>i. bit x (?L - 1 - i)) [0..<?L])
      = take ?n (map (\<lambda>i. bit x (?L - 1 - i)) [0..<?L])"
    by (rule takeWhile_eq_take_P_nth) (use assms k in \<open>auto simp: is_top_bit_def\<close>)
  then show ?thesis using k by (simp add: builtin_clz_def xs)
qed

lemma top_bit_ucast:
  fixes x :: "'a::len word"
  assumes "is_top_bit x k" "LENGTH('a) \<le> LENGTH('b)"
  shows "is_top_bit (ucast x :: 'b::len word) k"
  using assms is_top_bit_less[OF assms(1)] by (auto simp: is_top_bit_def bit_simps)

lemma count_leading_zeros_top:
  fixes x :: "'a::len word"
  assumes top: "is_top_bit x k" and len: "LENGTH('a) \<le> 64"
  shows "count_leading_zeros x = LENGTH('a) - 1 - k"
proof -
  have nz: "x \<noteq> 0" using top by (auto simp: is_top_bit_def)
  have k: "k < LENGTH('a)" using top by (rule is_top_bit_less)
  show ?thesis
  proof (cases "LENGTH('a) > 32")
    case True
    have "builtin_clz (ucast x :: u64) = 64 - 1 - k"
      using builtin_clz_top[OF top_bit_ucast[OF top, where 'b = 64]] len by simp
    then show ?thesis using True nz k len by (simp add: count_leading_zeros_def)
  next
    case False
    then have "builtin_clz (ucast x :: u32) = 32 - 1 - k"
      using builtin_clz_top[OF top_bit_ucast[OF top, where 'b = 32]] by simp
    then show ?thesis using False nz k by (simp add: count_leading_zeros_def)
  qed
qed

lemma count_leading_zeros_zero: "count_leading_zeros (0 :: 'a::len word) = LENGTH('a)"
  by (simp add: count_leading_zeros_def)

text \<open>\<open>log2floor\<close> is the integer logarithm.\<close>

lemma log2floor_bounds:
  fixes x :: "'a::len word"
  assumes "x \<noteq> 0" "LENGTH('a) \<le> 64"
  shows "2 ^ log2floor x \<le> unat x \<and> unat x < 2 ^ Suc (log2floor x)"
proof -
  from assms(1) obtain k where k: "is_top_bit x k" by (rule ex_top_bit)
  then have "log2floor x = k"
    using is_top_bit_less[OF k] assms(2) by (simp add: log2floor_def count_leading_zeros_top)
  then show ?thesis using top_bit_bounds[OF k] by simp
qed

lemma log2ceil_bounds:
  fixes x :: "'a::len word"
  assumes "x \<noteq> 0" "LENGTH('a) \<le> 64"
  shows "unat x \<le> 2 ^ log2ceil x" "x \<noteq> 1 \<Longrightarrow> 2 ^ (log2ceil x - 1) < unat x" "x = 1 \<Longrightarrow> log2ceil x = 0"
proof -
  have pred: "unat (x - 1) = unat x - 1" using assms(1) by (rule unat_minus_one)
  have pos: "0 < unat x" using assms(1) by (simp add: unat_gt_0)
  have main: "unat x \<le> 2 ^ log2ceil x \<and> 2 ^ (log2ceil x - 1) < unat x" if "x \<noteq> 1"
  proof -
    from that have "x - 1 \<noteq> 0" by simp
    then obtain k where k: "is_top_bit (x - 1) k" by (rule ex_top_bit)
    then have "log2ceil x = Suc k"
      using is_top_bit_less[OF k] assms(2) by (simp add: log2ceil_def count_leading_zeros_top)
    then show ?thesis using top_bit_bounds[OF k] pred pos by auto
  qed
  show one: "x = 1 \<Longrightarrow> log2ceil x = 0" by (simp add: log2ceil_def count_leading_zeros_zero)
  show "unat x \<le> 2 ^ log2ceil x" using main one by (cases "x = 1") auto
  show "x \<noteq> 1 \<Longrightarrow> 2 ^ (log2ceil x - 1) < unat x" using main by blast
qed

lemma log2ceil_least:
  fixes x :: "'a::len word"
  assumes "x \<noteq> 0" "LENGTH('a) \<le> 64"
  shows "unat x \<le> 2 ^ k \<longleftrightarrow> log2ceil x \<le> k"
proof
  assume le: "unat x \<le> 2 ^ k"
  show "log2ceil x \<le> k"
  proof (cases "x = 1")
    case False
    then have "(2::nat) ^ (log2ceil x - 1) < 2 ^ k"
      using log2ceil_bounds(2)[OF assms] le by linarith
    then have "log2ceil x - 1 < k" by (simp add: power_strict_increasing_iff)
    then show ?thesis by simp
  qed (use log2ceil_bounds(3)[OF assms] in simp)
next
  assume "log2ceil x \<le> k"
  then have "(2::nat) ^ log2ceil x \<le> 2 ^ k" by (simp add: power_increasing)
  with log2ceil_bounds(1)[OF assms] show "unat x \<le> 2 ^ k" by linarith
qed

text \<open>The two logarithms of the code base agree.\<close>

lemma cp_clog2_loop_find:
  assumes "r \<le> m" "m < r + k" "m < 64"
    and "unat n \<le> 2 ^ m" and "\<And>i. i < m \<Longrightarrow> 2 ^ i < unat n"
  shows "cp_clog2_loop k n r = Some m"
  using assms
proof (induction k arbitrary: r)
  case 0
  then show ?case by simp
next
  case (Suc k)
  have p: "unat (push_bit i (1 :: u64)) = 2 ^ i" if "i < 64" for i
    using that by (simp add: push_bit_eq_mult unat_power2)
  show ?case
  proof (cases "r = m")
    case True
    then have "\<not> push_bit r 1 < n" using Suc.prems p[of m] by (simp add: word_less_nat_alt)
    then show ?thesis using True by simp
  next
    case False
    then have "push_bit r 1 < n" using Suc.prems p[of r] by (simp add: word_less_nat_alt)
    moreover have "cp_clog2_loop k n (Suc r) = Some m"
      by (rule Suc.IH) (use Suc.prems False in auto)
    ultimately show ?thesis by simp
  qed
qed

lemma cp_clog2_eq_log2ceil:
  assumes "n \<noteq> 0" "n \<le> 2 ^ 63"
  shows "cp_clog2 n = Some (log2ceil n)"
proof -
  have len: "LENGTH(64) \<le> 64" by simp
  have "unat n \<le> unat ((2::u64) ^ 63)" using assms(2) by (simp only: word_le_nat_alt)
  also have "unat ((2::u64) ^ 63) = 2 ^ 63" by (rule unat_power2) simp
  finally have "unat n \<le> 2 ^ 63" .
  then have "log2ceil n \<le> 63" using log2ceil_least[OF assms(1) len] by blast
  then show ?thesis
    unfolding cp_clog2_def
    using log2ceil_least[OF assms(1) len]
    by (intro cp_clog2_loop_find) (auto simp: not_le[symmetric] log2ceil_bounds(1)[OF assms(1) len])
qed

section \<open>Sign extension and reversal\<close>

lemma sext_eq_signed_take_bit:
  fixes w :: "'a::len word"
  assumes "1 \<le> k" "k \<le> LENGTH('a)"
  shows "sext w k = signed_take_bit (k - 1) w"
proof (rule word_eq_by_bits)
  fix n assume n: "n < LENGTH('a)"
  have m: "push_bit k 1 - 1 = (mask k :: 'a word)" by (simp add: push_bit_eq_mult mask_eq_exp_minus_1)
  have b: "drop_bit (k - 1) w AND 1 \<noteq> 0 \<longleftrightarrow> bit w (k - 1)"
    by (simp add: and_one_eq odd_iff_mod_2_eq_one bit_iff_odd_drop_bit)
  have s: "bit (signed_take_bit (k - 1) w) n = (if n < k then bit w n else bit w (k - 1))"
    using n assms(1) by (cases "n = k - 1") (auto simp: bit_signed_take_bit_iff min_def)
  have "bit (sext w k) n = (if n < k then bit w n else bit w (k - 1))"
    unfolding sext_def Let_def m b using n assms by (auto simp: bit_simps)
  with s show "bit (sext w k) n = bit (signed_take_bit (k - 1) w) n" by simp
qed

lemma zext_eq_take_bit:
  fixes w :: "'a::len word"
  assumes "k \<le> LENGTH('a)"
  shows "zext w k = take_bit k w"
proof -
  have "push_bit k 1 - 1 = (mask k :: 'a word)" by (simp add: push_bit_eq_mult mask_eq_exp_minus_1)
  then show ?thesis
    by (auto simp: zext_def take_bit_eq_mask take_bit_length_eq)
qed

text \<open>
  One stage of the reversal exchanges neighbouring groups of \<open>k\<close> bits.
\<close>

definition swap_groups :: "nat \<Rightarrow> nat \<Rightarrow> nat" where
  "swap_groups k n = (if n mod (2 * k) < k then n + k else n - k)"

definition stage_masks :: "nat \<Rightarrow> u64 \<Rightarrow> u64 \<Rightarrow> bool" where
  "stage_masks k hi lo \<longleftrightarrow> list_all (\<lambda>n.
     if n mod (2 * k) < k then bit hi (n + k) \<and> (n < k \<or> \<not> bit lo (n - k))
     else k \<le> n \<and> bit lo (n - k) \<and> \<not> bit hi (n + k)) [0..<64]"

lemma reverse_stage:
  assumes "stage_masks k hi lo" "n < 64"
  shows "bit (drop_bit k (x AND hi) OR push_bit k (x AND lo)) n \<longleftrightarrow> bit x (swap_groups k n)"
proof -
  from assms have "if n mod (2 * k) < k then bit hi (n + k) \<and> (n < k \<or> \<not> bit lo (n - k))
     else k \<le> n \<and> bit lo (n - k) \<and> \<not> bit hi (n + k)"
    by (simp add: stage_masks_def list_all_iff)
  then show ?thesis using assms(2)
    by (auto simp: swap_groups_def bit_simps add.commute split: if_splits)
qed

lemma masks1: "stage_masks 1 0xAAAAAAAAAAAAAAAA 0x5555555555555555" by code_simp
lemma masks2: "stage_masks 2 0xCCCCCCCCCCCCCCCC 0x3333333333333333" by code_simp
lemma masks4: "stage_masks 4 0xF0F0F0F0F0F0F0F0 0x0F0F0F0F0F0F0F0F" by code_simp
lemma masks8: "stage_masks 8 0xFF00FF00FF00FF00 0x00FF00FF00FF00FF" by code_simp
lemma masks16: "stage_masks 16 0xFFFF0000FFFF0000 0x0000FFFF0000FFFF" by code_simp

lemma swap_groups_less: "list_all (\<lambda>n. swap_groups 16 n < 64 \<and> swap_groups 8 n < 64 \<and>
   swap_groups 4 n < 64 \<and> swap_groups 2 n < 64 \<and> swap_groups 1 n < 64) [0..<64]"
  by code_simp

lemma swap_groups_all: "list_all (\<lambda>n. swap_groups 1 (swap_groups 2 (swap_groups 4 (swap_groups 8
   (swap_groups 16 n)))) = (if n < 32 then 31 - n else 95 - n)) [0..<64]"
  by code_simp

lemma bit_reverse64_bit:
  assumes "n < 64"
  shows "bit (bit_reverse64 b) n \<longleftrightarrow> bit b (63 - n)"
proof -
  let ?f = "\<lambda>n. swap_groups 1 (swap_groups 2 (swap_groups 4 (swap_groups 8 (swap_groups 16 n))))"
  have less: "swap_groups 16 m < 64" "swap_groups 8 m < 64" "swap_groups 4 m < 64" "swap_groups 2 m < 64"
    if "m < 64" for m using swap_groups_less that by (auto simp: list_all_iff)
  have f: "?f m = (if m < 32 then 31 - m else 95 - m)" if "m < 64" for m
    using swap_groups_all that by (auto simp: list_all_iff)
  define b1 where "b1 = drop_bit 1 (b AND 0xAAAAAAAAAAAAAAAA) OR push_bit 1 (b AND 0x5555555555555555)"
  define b2 where "b2 = drop_bit 2 (b1 AND 0xCCCCCCCCCCCCCCCC) OR push_bit 2 (b1 AND 0x3333333333333333)"
  define b3 where "b3 = drop_bit 4 (b2 AND 0xF0F0F0F0F0F0F0F0) OR push_bit 4 (b2 AND 0x0F0F0F0F0F0F0F0F)"
  define b4 where "b4 = drop_bit 8 (b3 AND 0xFF00FF00FF00FF00) OR push_bit 8 (b3 AND 0x00FF00FF00FF00FF)"
  define b5 where "b5 = drop_bit 16 (b4 AND 0xFFFF0000FFFF0000) OR push_bit 16 (b4 AND 0x0000FFFF0000FFFF)"
  note stages = b1_def b2_def b3_def b4_def b5_def
  have rev: "bit_reverse64 b = drop_bit 32 b5 OR push_bit 32 b5"
    unfolding bit_reverse64_def Let_def stages by (rule refl)
  have b5: "bit b5 m \<longleftrightarrow> bit b (?f m)" if m: "m < 64" for m
  proof -
    have "bit b5 m \<longleftrightarrow> bit b4 (swap_groups 16 m)" unfolding b5_def by (rule reverse_stage[OF masks16 m])
    also have "\<dots> \<longleftrightarrow> bit b3 (swap_groups 8 (swap_groups 16 m))"
      unfolding b4_def by (rule reverse_stage[OF masks8]) (simp add: less m)
    also have "\<dots> \<longleftrightarrow> bit b2 (swap_groups 4 (swap_groups 8 (swap_groups 16 m)))"
      unfolding b3_def by (rule reverse_stage[OF masks4]) (simp add: less m)
    also have "\<dots> \<longleftrightarrow> bit b1 (swap_groups 2 (swap_groups 4 (swap_groups 8 (swap_groups 16 m))))"
      unfolding b2_def by (rule reverse_stage[OF masks2]) (simp add: less m)
    also have "\<dots> \<longleftrightarrow> bit b (?f m)"
      unfolding b1_def by (rule reverse_stage[OF masks1]) (simp add: less m)
    finally show ?thesis .
  qed
  show ?thesis
  proof (cases "n < 32")
    case True
    then have "bit (bit_reverse64 b) n \<longleftrightarrow> bit b5 (n + 32)"
      by (auto simp: rev bit_simps add.commute)
    then show ?thesis using b5[of "n + 32"] f[of "n + 32"] True by simp
  next
    case False
    then have "bit (bit_reverse64 b) n \<longleftrightarrow> bit b5 (n - 32)"
      using assms bit_imp_le_length[of b5 "32 + n"] by (auto simp: rev bit_simps)
    moreover have "n - 32 < 32" "31 - (n - 32) = 63 - n" using False assms by simp_all
    ultimately show ?thesis using b5[of "n - 32"] f[of "n - 32"] by simp
  qed
qed

lemma bit_reverse_loop_bit:
  fixes b :: u64
  assumes "k \<le> w" "w \<le> 64"
  shows "bit (fold (\<lambda>i r. if b AND push_bit i 1 \<noteq> 0 then r OR push_bit (w - 1 - i) 1 else r) [0..<k] (0::u64)) n
     \<longleftrightarrow> w - k \<le> n \<and> n < w \<and> bit b (w - 1 - n)"
  using assms
proof (induction k)
  case (Suc k)
  have c: "b AND 2 ^ k \<noteq> 0 \<longleftrightarrow> bit b k"
    by (simp add: and_exp_eq_0_iff_not_bit)
  have "n < w \<and> w - Suc k \<le> n \<longleftrightarrow> n = w - 1 - k \<or> (n < w \<and> w - k \<le> n)" using Suc.prems by auto
  moreover have "w - 1 - (w - 1 - k) = k" using Suc.prems by simp
  ultimately show ?case using Suc by (auto simp: c bit_simps)
qed simp

lemma bit_reverse_bit:
  assumes "w \<le> 64"
  shows "bit (bit_reverse b w) n \<longleftrightarrow> n < w \<and> bit b (w - 1 - n)"
proof (cases "w = 64")
  case True
  then show ?thesis
    using bit_reverse64_bit[of n b] bit_imp_le_length[of "bit_reverse64 b" n]
    by (auto simp: bit_reverse_def)
next
  case False
  then show ?thesis using bit_reverse_loop_bit[of w w b n] assms by (simp add: bit_reverse_def)
qed

section \<open>Properties\<close>

text \<open>
  C30.  \<open>bit_setw\<close> and \<open>bit_getw\<close> are inverse on a bit range: reading a field back gives the value
  written, truncated to the field, and writing back what was read changes nothing.
\<close>

theorem bitfield_roundtrip:
  assumes "s \<le> e" "e \<le> 63"
  shows "bit_getw (bit_setw b s e v) s e = take_bit (e - s + 1) v \<and> bit_setw b s e (bit_getw b s e) = b"
proof
  show "bit_getw (bit_setw b s e v) s e = take_bit (e - s + 1) v"
    using assms by (auto intro!: word_eq_by_bits simp: bit_getw_bit bit_setw_bit bit_take_bit_iff le_diff_conv2 split: if_splits)
  show "bit_setw b s e (bit_getw b s e) = b"
    using assms by (auto intro!: word_eq_by_bits simp: bit_getw_bit bit_setw_bit split: if_splits)
qed

theorem bitfield_roundtrip_witness: "bit_getw (bit_setw 0xABCD 4 7 0x35) 4 7 = 0x5"
  using bitfield_roundtrip[of 4 7 "0xABCD" "0x35"] by simp

text \<open>
  \<open>bit_reverse\<close> mirrors the low \<open>w\<close> bits of a word: applied twice it restores them and clears
  the others.
\<close>

theorem bit_reverse_involution:
  assumes "w \<le> 64"
  shows "bit_reverse (bit_reverse b w) w = zext b w"
  using assms
  by (auto intro!: word_eq_by_bits simp: bit_reverse_bit zext_eq_take_bit bit_take_bit_iff)

theorem bit_reverse_involution_witness: "bit_reverse (bit_reverse 0x1F3 8) 8 = 0xF3"
proof -
  have "zext (0x1F3 :: u64) 8 = 0xF3" by (simp add: zext_eq_take_bit)
  then show ?thesis using bit_reverse_involution[of 8 "0x1F3"] by simp
qed

text \<open>
  The two ceiling logarithms of the code base agree and are exact: the loop \<open>cp_clog2\<close> of the
  command processor ends and returns what \<open>log2ceil\<close> computes from the leading zeros, which is the
  least exponent of a power of two that reaches \<open>n\<close>.
\<close>

theorem clog2_exact:
  assumes "n \<noteq> 0" "n \<le> 2 ^ 63"
  shows "cp_clog2 n = Some (log2ceil n) \<and> (\<forall>k. unat n \<le> 2 ^ k \<longleftrightarrow> log2ceil n \<le> k)"
  using cp_clog2_eq_log2ceil[OF assms] log2ceil_least[OF assms(1)] by simp

theorem clog2_exact_witness: "cp_clog2 5 = Some (log2ceil (5 :: u64)) \<and> (\<not> log2ceil (5 :: u64) \<le> 2) \<and> log2ceil (5 :: u64) \<le> 3"
proof -
  have "(5 :: u64) \<noteq> 0" "(5 :: u64) \<le> 2 ^ 63" by simp_all
  from clog2_exact[OF this] have c: "cp_clog2 5 = Some (log2ceil (5 :: u64))"
    and l: "unat (5 :: u64) \<le> 2 ^ k \<longleftrightarrow> log2ceil (5 :: u64) \<le> k" for k by simp_all
  show ?thesis using c l[of 2] l[of 3] by simp
qed

end
