(* ===== verification/Bitvector.thy ===== *)
theory Bitvector
  imports Bitmanip
begin

text \<open>
  \<open>BitVector<T>\<close> of \<open>src/vortex/sw/common/bitvector.h\<close>: a bit set of fixed size, kept in one word
  when it fits and in a vector of words otherwise, with a cached \<open>all_zero_\<close> flag.  It is the
  \<open>ThreadMask\<close> of the simulator.  The template parameter \<open>T\<close> is \<open>'w word\<close>, \<open>BITS_PER_WORD\<close> is
  \<open>LENGTH('w)\<close>.  An operation that throws returns \<open>None\<close> on the throwing branch.

  The invariant \<open>bv_ok\<close> says that the representation matches the size, that no bit is set at or
  beyond the size and that the cached flag is exact.  \<open>bv_bits\<close> is the abstraction to a set of
  positions; the lemmas show that every operation keeps \<open>bv_ok\<close> and computes its set operation,
  and that \<open>resize\<close> across the word boundary and \<open>reverse\<close> of a short vector do not.
\<close>

section \<open>Representation\<close>

record (overloaded) 'w bitvector =
  bv_size :: nat
  single_word :: "'w::len word"
  bv_words :: "'w word list"
  all_zero :: bool

definition wordIndex :: "'w::len itself \<Rightarrow> nat \<Rightarrow> nat" where
  "wordIndex w pos = pos div LENGTH('w)"

definition wordOffset :: "nat \<Rightarrow> 'w::len word" where
  "wordOffset pos = push_bit (pos mod LENGTH('w)) 1"

definition bitMask :: "nat \<Rightarrow> 'w::len word" where
  "bitMask sz = (if sz = 0 then 0
     else if sz < LENGTH('w) then push_bit sz 1 - 1
     else NOT 0)"

definition updateAllZero :: "'w::len bitvector \<Rightarrow> 'w bitvector" where
  "updateAllZero b = b\<lparr>all_zero :=
     (if bv_size b \<le> LENGTH('w) then single_word b = 0
      else list_all (\<lambda>word. word = 0) (bv_words b))\<rparr>"

definition clearUnusedBits :: "'w::len bitvector \<Rightarrow> 'w bitvector" where
  "clearUnusedBits b =
     (if bv_size b \<le> LENGTH('w) then b\<lparr>single_word := single_word b AND bitMask (bv_size b)\<rparr>
      else let last_word_bits = bv_size b mod LENGTH('w) in
        if last_word_bits \<noteq> 0
        then b\<lparr>bv_words := butlast (bv_words b) @ [last (bv_words b) AND bitMask last_word_bits]\<rparr>
        else b)"

definition num_blocks :: "'w::len itself \<Rightarrow> nat \<Rightarrow> nat" where
  "num_blocks w sz = (sz + (LENGTH('w) - 1)) div LENGTH('w)"

section \<open>Operations\<close>

definition bv_new :: "nat \<Rightarrow> 'w::len bitvector" where
  "bv_new sz =
     (if sz \<le> LENGTH('w)
      then \<lparr>bv_size = sz, single_word = 0, bv_words = [], all_zero = True\<rparr>
      else \<lparr>bv_size = sz, single_word = 0, bv_words = replicate (num_blocks TYPE('w) sz) 0,
            all_zero = True\<rparr>)"

definition bv_of_word :: "nat \<Rightarrow> 'w::len word \<Rightarrow> 'w bitvector" where
  "bv_of_word sz value =
     updateAllZero (clearUnusedBits
       (if sz \<le> LENGTH('w)
        then \<lparr>bv_size = sz, single_word = value, bv_words = [], all_zero = False\<rparr>
        else \<lparr>bv_size = sz, single_word = 0,
              bv_words = (replicate (num_blocks TYPE('w) sz) 0)[0 := value], all_zero = False\<rparr>))"

definition bv_set :: "'w::len bitvector \<Rightarrow> nat \<Rightarrow> 'w bitvector option" where
  "bv_set b pos =
     (if pos \<ge> bv_size b then None
      else Some ((if bv_size b \<le> LENGTH('w)
                  then b\<lparr>single_word := single_word b OR wordOffset pos\<rparr>
                  else let i = wordIndex TYPE('w) pos in
                       b\<lparr>bv_words := (bv_words b)[i := (bv_words b ! i) OR wordOffset pos]\<rparr>)
                 \<lparr>all_zero := False\<rparr>))"

definition bv_reset :: "'w::len bitvector \<Rightarrow> nat \<Rightarrow> 'w bitvector option" where
  "bv_reset b pos =
     (if pos \<ge> bv_size b then None
      else Some (updateAllZero
                 (if bv_size b \<le> LENGTH('w)
                  then b\<lparr>single_word := single_word b AND NOT (wordOffset pos)\<rparr>
                  else let i = wordIndex TYPE('w) pos in
                       b\<lparr>bv_words := (bv_words b)[i := (bv_words b ! i) AND NOT (wordOffset pos)]\<rparr>)))"

definition bv_set_to :: "'w::len bitvector \<Rightarrow> nat \<Rightarrow> bool \<Rightarrow> 'w bitvector option" where
  "bv_set_to b pos value = (if value then bv_set b pos else bv_reset b pos)"

definition bv_reset_all :: "'w::len bitvector \<Rightarrow> 'w bitvector" where
  "bv_reset_all b =
     (if bv_size b \<le> LENGTH('w) then b\<lparr>single_word := 0\<rparr>
      else b\<lparr>bv_words := map (\<lambda>_. 0) (bv_words b)\<rparr>)\<lparr>all_zero := True\<rparr>"

definition bv_test :: "'w::len bitvector \<Rightarrow> nat \<Rightarrow> bool option" where
  "bv_test b pos =
     (if pos \<ge> bv_size b then None
      else Some (if bv_size b \<le> LENGTH('w) then single_word b AND wordOffset pos \<noteq> 0
                 else (bv_words b ! wordIndex TYPE('w) pos) AND wordOffset pos \<noteq> 0))"

definition vector_resize :: "'a list \<Rightarrow> nat \<Rightarrow> 'a \<Rightarrow> 'a list" where
  "vector_resize xs n v = take n xs @ replicate (n - length xs) v"

definition bv_resize :: "'w::len bitvector \<Rightarrow> nat \<Rightarrow> 'w bitvector" where
  "bv_resize b new_size =
     (if new_size = bv_size b then b
      else let b1 = (if new_size \<le> LENGTH('w)
                     then if bv_size b \<le> LENGTH('w) then b\<lparr>single_word := single_word b\<rparr>
                          else b\<lparr>single_word := bv_words b ! 0, bv_words := []\<rparr>
                     else b\<lparr>bv_words := vector_resize (bv_words b) (num_blocks TYPE('w) new_size) 0\<rparr>)
           in updateAllZero (clearUnusedBits (b1\<lparr>bv_size := new_size\<rparr>)))"

definition bv_eq :: "'w::len bitvector \<Rightarrow> 'w bitvector \<Rightarrow> bool" where
  "bv_eq a b =
     (if bv_size a \<noteq> bv_size b then False
      else if bv_size a \<le> LENGTH('w) then single_word a = single_word b
      else bv_words a = bv_words b)"

definition bv_zip :: "('w word \<Rightarrow> 'w word \<Rightarrow> 'w word) \<Rightarrow> 'w::len bitvector \<Rightarrow> 'w bitvector \<Rightarrow> 'w bitvector option" where
  "bv_zip f a b =
     (if bv_size a \<noteq> bv_size b then None
      else Some (updateAllZero
        (if bv_size a \<le> LENGTH('w) then a\<lparr>single_word := f (single_word a) (single_word b)\<rparr>
         else a\<lparr>bv_words := map2 f (bv_words a) (bv_words b)\<rparr>)))"

definition bv_and :: "'w::len bitvector \<Rightarrow> 'w bitvector \<Rightarrow> 'w bitvector option" where
  "bv_and = bv_zip (AND)"

definition bv_or :: "'w::len bitvector \<Rightarrow> 'w bitvector \<Rightarrow> 'w bitvector option" where
  "bv_or = bv_zip (OR)"

definition bv_xor :: "'w::len bitvector \<Rightarrow> 'w bitvector \<Rightarrow> 'w bitvector option" where
  "bv_xor = bv_zip (XOR)"

definition bv_flip :: "'w::len bitvector \<Rightarrow> 'w bitvector" where
  "bv_flip b = updateAllZero (clearUnusedBits
     (if bv_size b \<le> LENGTH('w) then b\<lparr>single_word := NOT (single_word b)\<rparr>
      else b\<lparr>bv_words := map (\<lambda>word. NOT word) (bv_words b)\<rparr>))"

text \<open>\<open>bit_reverse\<close> is the 64-bit helper; its result is cast back to \<open>T\<close>.\<close>

definition bv_reverse :: "'w::len bitvector \<Rightarrow> 'w bitvector" where
  "bv_reverse b =
     (if bv_size b = 0 then b
      else if bv_size b \<le> LENGTH('w)
      then b\<lparr>single_word := ucast (bit_reverse (ucast (single_word b)) LENGTH('w))\<rparr>
      else if bv_size b mod LENGTH('w) \<noteq> 0
      then b\<lparr>bv_words := fold (\<lambda>i rw.
               let reversed_pos = bv_size b - 1 - i;
                   dst_word = reversed_pos div LENGTH('w);
                   dst_offset = reversed_pos mod LENGTH('w)
               in if (bv_words b ! (i div LENGTH('w))) AND push_bit (i mod LENGTH('w)) 1 \<noteq> 0
                  then rw[dst_word := (rw ! dst_word) OR push_bit dst_offset 1] else rw)
             [0..<bv_size b] (replicate (length (bv_words b)) 0)\<rparr>
      else b\<lparr>bv_words := map (\<lambda>word. ucast (bit_reverse (ucast word) LENGTH('w))) (rev (bv_words b))\<rparr>)"

definition builtin_popcount :: "'w::len word \<Rightarrow> nat" where
  "builtin_popcount w = length (filter (bit w) [0..<LENGTH('w)])"

definition bv_count :: "'w::len bitvector \<Rightarrow> nat" where
  "bv_count b =
     (if bv_size b \<le> LENGTH('w) then builtin_popcount (single_word b)
      else fold (\<lambda>word count. count + builtin_popcount word) (bv_words b) 0)"

definition bv_none :: "'w::len bitvector \<Rightarrow> bool" where
  "bv_none b = all_zero b"

definition bv_any :: "'w::len bitvector \<Rightarrow> bool" where
  "bv_any b = (\<not> all_zero b)"

definition bv_all :: "'w::len bitvector \<Rightarrow> bool" where
  "bv_all b =
     (let remaining_bits = bv_size b mod LENGTH('w);
          full_mask = NOT 0;
          rem_mask = push_bit remaining_bits 1 - 1
      in if bv_size b \<le> LENGTH('w)
         then single_word b = (if remaining_bits \<noteq> 0 then rem_mask else full_mask)
         else let n = bv_size b div LENGTH('w) in
              list_all (\<lambda>i. bv_words b ! i = full_mask) [0..<n]
              \<and> (remaining_bits \<noteq> 0 \<longrightarrow> (bv_words b ! n) AND rem_mask = rem_mask))"

text \<open>The in-place loops of the shifts run over the indices in the order the code visits them.\<close>

definition shl_words :: "nat \<Rightarrow> 'w::len word list \<Rightarrow> 'w word list" where
  "shl_words word_shift ws =
     (if word_shift > 0
      then let ws1 = fold (\<lambda>i xs. xs[i := xs ! (i - word_shift)]) (rev [word_shift..<length ws]) ws
           in fold (\<lambda>i xs. xs[i := 0]) [0..<word_shift] ws1
      else ws)"

definition shl_bits :: "nat \<Rightarrow> 'w::len word list \<Rightarrow> 'w word list" where
  "shl_bits bit_shift ws =
     (if bit_shift > 0
      then let ws1 = fold (\<lambda>i xs. xs[i := push_bit bit_shift (xs ! i)
                              OR drop_bit (LENGTH('w) - bit_shift) (xs ! (i - 1))])
                       (rev [1..<length ws]) ws
           in ws1[0 := push_bit bit_shift (ws1 ! 0)]
      else ws)"

definition bv_shl :: "'w::len bitvector \<Rightarrow> nat \<Rightarrow> 'w bitvector" where
  "bv_shl b shift =
     (if shift \<ge> bv_size b then bv_reset_all b
      else updateAllZero (clearUnusedBits
        (if bv_size b \<le> LENGTH('w) then b\<lparr>single_word := push_bit shift (single_word b)\<rparr>
         else b\<lparr>bv_words := shl_bits (shift mod LENGTH('w))
                  (shl_words (shift div LENGTH('w)) (bv_words b))\<rparr>)))"

definition shr_words :: "nat \<Rightarrow> 'w::len word list \<Rightarrow> 'w word list" where
  "shr_words word_shift ws =
     (if word_shift > 0
      then let ws1 = fold (\<lambda>i xs. xs[i := xs ! (i + word_shift)]) [0..<length ws - word_shift] ws
           in fold (\<lambda>i xs. xs[i := 0]) [length ws - word_shift..<length ws] ws1
      else ws)"

definition shr_bits :: "nat \<Rightarrow> 'w::len word list \<Rightarrow> 'w word list" where
  "shr_bits bit_shift ws =
     (if bit_shift > 0
      then let ws1 = fold (\<lambda>i xs. xs[i := drop_bit bit_shift (xs ! i)
                              OR push_bit (LENGTH('w) - bit_shift) (xs ! (i + 1))])
                       [0..<length ws - 1] ws
           in ws1[length ws - 1 := drop_bit bit_shift (ws1 ! (length ws - 1))]
      else ws)"

definition bv_shr :: "'w::len bitvector \<Rightarrow> nat \<Rightarrow> 'w bitvector" where
  "bv_shr b shift =
     (if shift \<ge> bv_size b then bv_reset_all b
      else updateAllZero
        (if bv_size b \<le> LENGTH('w) then b\<lparr>single_word := drop_bit shift (single_word b)\<rparr>
         else b\<lparr>bv_words := shr_bits (shift mod LENGTH('w))
                  (shr_words (shift div LENGTH('w)) (bv_words b))\<rparr>))"

definition bv_to_string :: "'w::len bitvector \<Rightarrow> string" where
  "bv_to_string b = map (\<lambda>i. if bv_test b i = Some True then CHR ''1'' else CHR ''0'') [0..<bv_size b]"

definition bv_to_ulong :: "'w::len bitvector \<Rightarrow> u64 option" where
  "bv_to_ulong b =
     (if bv_size b > 64 then None
      else Some (fold (\<lambda>i result. if bv_test b i = Some True then result OR push_bit i 1 else result)
                  [0..<bv_size b] 0))"

section \<open>Abstraction and invariant\<close>

definition words_bit :: "'w::len word list \<Rightarrow> nat \<Rightarrow> bool" where
  "words_bit ws n \<longleftrightarrow> n div LENGTH('w) < length ws \<and> bit (ws ! (n div LENGTH('w))) (n mod LENGTH('w))"

definition bv_bit :: "'w::len bitvector \<Rightarrow> nat \<Rightarrow> bool" where
  "bv_bit b n = (if bv_size b \<le> LENGTH('w) then bit (single_word b) n else words_bit (bv_words b) n)"

definition bv_bits :: "'w::len bitvector \<Rightarrow> nat set" where
  "bv_bits b = {n. bv_bit b n}"

definition bv_shape :: "'w::len bitvector \<Rightarrow> bool" where
  "bv_shape b \<longleftrightarrow> (if bv_size b \<le> LENGTH('w) then bv_words b = []
                    else length (bv_words b) = num_blocks TYPE('w) (bv_size b))"

definition bv_bounded :: "'w::len bitvector \<Rightarrow> bool" where
  "bv_bounded b \<longleftrightarrow> (\<forall>n. bv_bit b n \<longrightarrow> n < bv_size b)"

definition bv_ok :: "'w::len bitvector \<Rightarrow> bool" where
  "bv_ok b \<longleftrightarrow> bv_shape b \<and> bv_bounded b \<and> (all_zero b \<longleftrightarrow> bv_bits b = {})"

lemma div_add_len [simp]: "(n + LENGTH('w::len)) div LENGTH('w) = Suc (n div LENGTH('w))"
  by (rule div_add_self2[THEN trans]) simp_all

lemma div_less_num_blocks:
  "n < sz \<Longrightarrow> n div LENGTH('w) < num_blocks TYPE('w::len) sz"
proof -
  assume "n < sz"
  then have "n + LENGTH('w) \<le> sz + (LENGTH('w) - 1)" by (simp add: Suc_leI)
  then have "(n + LENGTH('w)) div LENGTH('w) \<le> num_blocks TYPE('w) sz"
    unfolding num_blocks_def by (rule div_le_mono)
  then show ?thesis by (simp add: Suc_le_eq)
qed

lemma num_blocks_pos: "0 < sz \<Longrightarrow> 0 < num_blocks TYPE('w::len) sz"
  using div_less_num_blocks[where 'w = 'w, of 0 sz] by simp

text \<open>The number of blocks is exact: the last block holds the last position.\<close>

lemma num_blocks_last:
  assumes "0 < sz"
  shows "(sz - 1) div LENGTH('w::len) = num_blocks TYPE('w) sz - 1"
proof -
  have "sz + (LENGTH('w) - 1) = (sz - 1) + LENGTH('w)" using assms len_gt_0[where 'a = 'w] by linarith
  then show ?thesis by (simp add: num_blocks_def)
qed

lemma words_bit_update:
  assumes "i < length ws"
  shows "words_bit (ws[i := v :: 'w::len word]) n \<longleftrightarrow>
    (if n div LENGTH('w) = i then bit v (n mod LENGTH('w)) else words_bit ws n)"
  using assms by (auto simp: words_bit_def)

lemma words_bit_map2:
  fixes f :: "'a \<Rightarrow> 'b \<Rightarrow> 'w::len word"
  assumes "length xs = length ys"
  shows "words_bit (map2 f xs ys) n \<longleftrightarrow>
    n div LENGTH('w) < length xs \<and> bit (f (xs ! (n div LENGTH('w))) (ys ! (n div LENGTH('w)))) (n mod LENGTH('w))"
  using assms by (auto simp: words_bit_def)

lemma words_all_zero: "list_all (\<lambda>w. w = 0) ws \<longleftrightarrow> (\<forall>n. \<not> words_bit (ws :: 'w::len word list) n)"
proof
  assume r: "\<forall>n. \<not> words_bit ws n"
  show "list_all (\<lambda>w. w = 0) ws"
  proof (unfold list_all_nth, intro allI impI)
    fix i assume i: "i < length ws"
    show "ws ! i = 0"
    proof (rule word_eq_by_bits)
      fix n assume "n < LENGTH('w)"
      then show "bit (ws ! i) n = bit 0 n"
        using r[rule_format, of "i * LENGTH('w) + n"] i by (simp add: words_bit_def)
    qed
  qed
qed (auto simp: words_bit_def list_all_nth)

lemma word_zero_iff_bits: "w = 0 \<longleftrightarrow> (\<forall>n. \<not> bit (w :: 'w::len word) n)"
  by (auto intro: bit_eqI)

lemma updateAllZero_simps [simp]:
  "bv_size (updateAllZero b) = bv_size b" "bv_bit (updateAllZero b) n = bv_bit b n"
  "bv_shape (updateAllZero b) = bv_shape b" "bv_bits (updateAllZero b) = bv_bits b"
  by (simp_all add: updateAllZero_def bv_bit_def bv_shape_def bv_bits_def)

lemma updateAllZero_ok:
  "bv_shape b \<Longrightarrow> bv_bounded b \<Longrightarrow> bv_ok (updateAllZero b)"
  using words_all_zero[of "bv_words b"] word_zero_iff_bits[of "single_word b"]
  by (auto simp: bv_ok_def bv_bounded_def updateAllZero_def bv_bits_def bv_bit_def bv_shape_def)

lemma bit_bitMask: "bit (bitMask sz :: 'w::len word) n \<longleftrightarrow> n < sz \<and> n < LENGTH('w)"
  by (auto simp: bitMask_def word_push_bit_one bit_mask_word bit_not_iff)

lemma clearUnusedBits_size [simp]: "bv_size (clearUnusedBits b) = bv_size b"
  by (simp add: clearUnusedBits_def Let_def)

lemma clearUnusedBits_shape:
  assumes "bv_shape (b :: 'w::len bitvector)"
  shows "bv_shape (clearUnusedBits b)"
  using assms num_blocks_pos[where 'w = 'w, of "bv_size b"]
  by (auto simp: clearUnusedBits_def bv_shape_def Let_def)

lemma clearUnusedBits_bit:
  assumes "bv_shape (b :: 'w::len bitvector)"
  shows "bv_bit (clearUnusedBits b) n \<longleftrightarrow> bv_bit b n \<and> n < bv_size b"
proof (cases "bv_size b \<le> LENGTH('w)")
  case True
  then show ?thesis
    by (auto simp: clearUnusedBits_def bv_bit_def bit_and_iff bit_bitMask dest: bit_imp_le_length)
next
  case False
  let ?L = "LENGTH('w)" and ?s = "bv_size b" and ?ws = "bv_words b"
  let ?q = "(?s - 1) div ?L"
  have len: "length ?ws = Suc ?q"
    using assms False num_blocks_pos[where 'w = 'w, of ?s] num_blocks_last[where 'w = 'w, of ?s]
    by (simp add: bv_shape_def)
  show ?thesis
  proof (cases "?s mod ?L = 0")
    case True
    then obtain c where c: "?s = ?L * c" by (metis mod_0_imp_dvd dvdE)
    have "n div ?L < length ?ws \<Longrightarrow> n < ?s"
    proof -
      assume a: "n div ?L < length ?ws"
      have "length ?ws = (?L - 1 + c * ?L) div ?L"
        using assms False c by (simp add: bv_shape_def num_blocks_def ac_simps)
      then have "length ?ws = c" by simp
      with a have "n div ?L < c" by simp
      then show ?thesis unfolding c by (metis div_less_iff_less_mult len_gt_0 mult.commute)
    qed
    then show ?thesis using True False by (auto simp: clearUnusedBits_def bv_bit_def words_bit_def)
  next
    case ne: False
    have split: "?s = ?L * (?s div ?L) + ?s mod ?L" by simp
    have "?s - 1 = (?s mod ?L - 1) + ?L * (?s div ?L)" using ne split by linarith
    moreover have "(?s mod ?L - 1) div ?L = 0"
      using mod_less_divisor[OF len_gt_0, of ?s] by (simp add: div_eq_0_iff less_imp_diff_less)
    ultimately have q: "?q = ?s div ?L" by simp
    have "?ws \<noteq> []" using len by auto
    then have nonempty: "last ?ws = ?ws ! (length ?ws - 1)" by (rule last_conv_nth)
    have ws: "bv_words (clearUnusedBits b) = ?ws[?q := ?ws ! ?q AND bitMask (?s mod ?L)]"
      using ne False len nonempty
      by (auto simp: clearUnusedBits_def Let_def butlast_conv_take
          upd_conv_take_nth_drop)
    have lt: "n < ?s \<longleftrightarrow> n mod ?L < ?s mod ?L" if "n div ?L = ?q"
    proof -
      have "n = ?L * (?s div ?L) + n mod ?L" using that q by (metis mult_div_mod_eq)
      with split show ?thesis by linarith
    qed
    have lt': "n < ?s" if "n div ?L < ?q"
      using that q div_le_mono[of ?s n ?L] by linarith
    show ?thesis
      using False ws len lt lt'
      by (auto simp: bv_bit_def words_bit_def nth_list_update bit_and_iff bit_bitMask less_Suc_eq)
  qed
qed

lemma clear_update_ok:
  assumes "bv_shape (b :: 'w::len bitvector)"
  shows "bv_ok (updateAllZero (clearUnusedBits b))"
    and "bv_bits (updateAllZero (clearUnusedBits b)) = bv_bits b \<inter> {..<bv_size b}"
  using assms
  by (auto intro!: updateAllZero_ok clearUnusedBits_shape simp: bv_bounded_def clearUnusedBits_bit bv_bits_def)


section \<open>The operations compute on sets\<close>

lemma bv_ok_bits_less: "bv_ok b \<Longrightarrow> n \<in> bv_bits b \<Longrightarrow> n < bv_size b"
  by (auto simp: bv_ok_def bv_bounded_def bv_bits_def)

lemma bit_wordOffset: "bit (wordOffset p :: 'w::len word) n \<longleftrightarrow> n = p mod LENGTH('w)"
  by (auto simp: wordOffset_def bit_simps)

lemma and_wordOffset: "w AND wordOffset p \<noteq> 0 \<longleftrightarrow> bit (w :: 'w::len word) (p mod LENGTH('w))"
  by (simp add: wordOffset_def and_exp_eq_0_iff_not_bit)

lemma pos_in_words:
  assumes "bv_shape (b :: 'w::len bitvector)" "n < bv_size b" "\<not> bv_size b \<le> LENGTH('w)"
  shows "n div LENGTH('w) < length (bv_words b)"
  using assms div_less_num_blocks[of n "bv_size b", where 'w = 'w] by (simp add: bv_shape_def)

lemma same_word_pos: "n div k = p div k \<Longrightarrow> n mod k = p mod k \<Longrightarrow> n = (p::nat)"
  by (metis mult_div_mod_eq)

lemma bv_new_ok: "bv_ok (bv_new n)" "bv_bits (bv_new n) = {}" "bv_size (bv_new n) = n"
  by (auto simp: bv_new_def bv_ok_def bv_shape_def bv_bounded_def bv_bits_def bv_bit_def words_bit_def)

lemma bv_test_eq:
  assumes "bv_ok (b :: 'w::len bitvector)"
  shows "bv_test b n = (if n < bv_size b then Some (n \<in> bv_bits b) else None)"
  using assms pos_in_words[of b n]
  by (auto simp: bv_test_def bv_ok_def bv_bits_def bv_bit_def words_bit_def and_wordOffset wordIndex_def)

lemma bv_set_ok:
  assumes ok: "bv_ok (b :: 'w::len bitvector)" and n: "n < bv_size b"
  obtains b' where "bv_set b n = Some b'" "bv_ok b'" "bv_bits b' = insert n (bv_bits b)" "bv_size b' = bv_size b"
proof -
  obtain b' where b': "bv_set b n = Some b'" using n by (simp add: bv_set_def)
  have sh: "bv_shape b" using ok by (simp add: bv_ok_def)
  have len: "length (bv_words b') = length (bv_words b)" "bv_size b' = bv_size b" "\<not> all_zero b'"
    using b' n by (auto simp: bv_set_def Let_def split: if_splits)
  have bits: "bv_bit b' m \<longleftrightarrow> bv_bit b m \<or> m = n" for m
  proof (cases "bv_size b \<le> LENGTH('w)")
    case True
    with n have "n mod LENGTH('w) = n" by simp
    then show ?thesis using True b' n by (auto simp: bv_set_def bv_bit_def bit_or_iff bit_wordOffset)
  next
    case False
    note i = pos_in_words[OF sh n False]
    show ?thesis using False b' n i same_word_pos[of m "LENGTH('w)" n]
      by (auto simp: bv_set_def bv_bit_def wordIndex_def Let_def words_bit_def nth_list_update bit_or_iff bit_wordOffset split: if_splits)
  qed
  have "bv_ok b'" unfolding bv_ok_def bv_bounded_def bv_bits_def bits
    using ok n len by (auto simp: bv_ok_def bv_shape_def bv_bounded_def)
  moreover have "bv_bits b' = insert n (bv_bits b)" by (auto simp: bv_bits_def bits)
  ultimately show ?thesis using that b' len by blast
qed

lemma bv_reset_ok:
  assumes ok: "bv_ok (b :: 'w::len bitvector)" and n: "n < bv_size b"
  obtains b' where "bv_reset b n = Some b'" "bv_ok b'" "bv_bits b' = bv_bits b - {n}" "bv_size b' = bv_size b"
proof -
  define c where "c = (if bv_size b \<le> LENGTH('w)
                  then b\<lparr>single_word := single_word b AND NOT (wordOffset n)\<rparr>
                  else b\<lparr>bv_words := (bv_words b)[wordIndex TYPE('w) n :=
                          (bv_words b ! wordIndex TYPE('w) n) AND NOT (wordOffset n)]\<rparr>)"
  have res: "bv_reset b n = Some (updateAllZero c)" using n by (simp add: bv_reset_def c_def Let_def)
  have sh: "bv_shape b" using ok by (simp add: bv_ok_def)
  have c: "bv_size c = bv_size b" "bv_shape c" using sh by (auto simp: c_def bv_shape_def)
  have bits: "bv_bit c m \<longleftrightarrow> bv_bit b m \<and> m \<noteq> n" for m
  proof (cases "bv_size b \<le> LENGTH('w)")
    case True
    with n have "n mod LENGTH('w) = n" by simp
    then show ?thesis using True n
      by (auto simp: c_def bv_bit_def bit_and_iff bit_not_iff bit_wordOffset dest: bit_imp_le_length)
  next
    case False
    note i = pos_in_words[OF sh n False]
    show ?thesis using False n i same_word_pos[of m "LENGTH('w)" n]
      by (auto simp: c_def bv_bit_def wordIndex_def words_bit_def nth_list_update bit_and_iff bit_not_iff bit_wordOffset split: if_splits)
  qed
  have "bv_bounded c" using ok by (auto simp: bv_bounded_def bits c bv_ok_def)
  then have "bv_ok (updateAllZero c)" using c by (intro updateAllZero_ok)
  moreover have "bv_bits (updateAllZero c) = bv_bits b - {n}" by (auto simp: bv_bits_def bits)
  ultimately show ?thesis using that res c by simp
qed

lemma bv_set_to_ok:
  assumes "bv_ok (b :: 'w::len bitvector)" "n < bv_size b"
  obtains b' where "bv_set_to b n v = Some b'" "bv_ok b'"
    "bv_bits b' = (if v then insert n (bv_bits b) else bv_bits b - {n})" "bv_size b' = bv_size b"
proof (cases v)
  case True
  then show ?thesis using bv_set_ok[OF assms] that by (auto simp: bv_set_to_def)
next
  case False
  then show ?thesis using bv_reset_ok[OF assms] that by (auto simp: bv_set_to_def)
qed

lemma bv_reset_all_ok:
  assumes "bv_ok (b :: 'w::len bitvector)"
  shows "bv_ok (bv_reset_all b)" "bv_bits (bv_reset_all b) = {}" "bv_size (bv_reset_all b) = bv_size b"
  using assms
  by (auto simp: bv_reset_all_def bv_ok_def bv_shape_def bv_bounded_def bv_bits_def bv_bit_def words_bit_def)

lemma bv_of_word_ok:
  shows "bv_ok (bv_of_word n (v :: 'w::len word))" "bv_size (bv_of_word n v) = n"
    "bv_bits (bv_of_word n v) = {i. i < n \<and> bit v i}"
proof -
  define b where "b = (if n \<le> LENGTH('w)
        then \<lparr>bv_size = n, single_word = v, bv_words = [], all_zero = False\<rparr>
        else \<lparr>bv_size = n, single_word = 0,
              bv_words = (replicate (num_blocks TYPE('w) n) 0)[0 := v], all_zero = False\<rparr>)"
  have eq: "bv_of_word n v = updateAllZero (clearUnusedBits b)" by (simp add: bv_of_word_def b_def)
  have sh: "bv_shape b" and sz: "bv_size b = n" by (auto simp: b_def bv_shape_def)
  have "0 < num_blocks TYPE('w) n" if "\<not> n \<le> LENGTH('w)" using that by (intro num_blocks_pos) simp
  then have "bv_bit b i \<longleftrightarrow> bit v i" for i
    by (auto simp: b_def bv_bit_def words_bit_def nth_list_update div_eq_0_iff not_less
        dest: bit_imp_le_length split: if_splits)
  then show "bv_ok (bv_of_word n v)" "bv_size (bv_of_word n v) = n"
    "bv_bits (bv_of_word n v) = {i. i < n \<and> bit v i}"
    using clear_update_ok[OF sh] sz by (auto simp: eq bv_bits_def)
qed

lemma bv_zip_ok:
  fixes a b :: "'w::len bitvector"
  assumes ok: "bv_ok a" "bv_ok b" and sz: "bv_size a = bv_size b"
    and f: "\<And>x y n. n < LENGTH('w) \<Longrightarrow> bit (f x y :: 'w word) n = g (bit x n) (bit y n)" and g: "\<not> g False False"
  obtains c where "bv_zip f a b = Some c" "bv_ok c" "bv_bits c = {n. g (n \<in> bv_bits a) (n \<in> bv_bits b)}"
    "bv_size c = bv_size a"
proof -
  define c where "c = (if bv_size a \<le> LENGTH('w) then a\<lparr>single_word := f (single_word a) (single_word b)\<rparr>
         else a\<lparr>bv_words := map2 f (bv_words a) (bv_words b)\<rparr>)"
  have sh: "bv_shape a" "bv_shape b" using ok by (auto simp: bv_ok_def)
  have c: "bv_size c = bv_size a" "bv_shape c"
    using sh sz by (auto simp: c_def bv_shape_def)
  have bits: "bv_bit c n \<longleftrightarrow> g (bv_bit a n) (bv_bit b n)" for n
  proof (cases "bv_size a \<le> LENGTH('w)")
    case True
    show ?thesis
    proof (cases "n < LENGTH('w)")
      case lt: True
      then show ?thesis using True sz f[OF lt] by (simp add: c_def bv_bit_def)
    next
      case False
      then have "\<not> bit x n" for x :: "'w word" by (metis bit_imp_le_length)
      then show ?thesis using True sz g by (simp add: c_def bv_bit_def)
    qed
  next
    case False
    then have "length (bv_words a) = length (bv_words b)" using sh sz by (simp add: bv_shape_def)
    then show ?thesis using False sz f[of "n mod LENGTH('w)"] g
      by (cases "n div LENGTH('w) < length (bv_words b)") (auto simp: c_def bv_bit_def words_bit_def)
  qed
  have "bv_bounded c"
    unfolding bv_bounded_def c bits using ok sz g by (metis bv_bounded_def bv_ok_def)
  then have "bv_ok (updateAllZero c)" using c by (intro updateAllZero_ok)
  moreover have "bv_zip f a b = Some (updateAllZero c)" using sz by (simp add: bv_zip_def c_def)
  moreover have "bv_bits (updateAllZero c) = {n. g (n \<in> bv_bits a) (n \<in> bv_bits b)}" by (simp add: bv_bits_def bits)
  ultimately show ?thesis using that c by simp
qed

lemma bv_and_ok:
  assumes "bv_ok a" "bv_ok b" "bv_size a = bv_size b"
  obtains c where "bv_and a b = Some c" "bv_ok c" "bv_bits c = bv_bits a \<inter> bv_bits b" "bv_size c = bv_size a"
proof -
  have "{n. n \<in> bv_bits a \<and> n \<in> bv_bits b} = bv_bits a \<inter> bv_bits b" by blast
  then show ?thesis
    using bv_zip_ok[OF assms, of "(AND)" "\<lambda>p q. p \<and> q"] that by (auto simp: bv_and_def bit_and_iff)
qed

lemma bv_or_ok:
  assumes "bv_ok a" "bv_ok b" "bv_size a = bv_size b"
  obtains c where "bv_or a b = Some c" "bv_ok c" "bv_bits c = bv_bits a \<union> bv_bits b" "bv_size c = bv_size a"
proof -
  have "{n. n \<in> bv_bits a \<or> n \<in> bv_bits b} = bv_bits a \<union> bv_bits b" by blast
  then show ?thesis
    using bv_zip_ok[OF assms, of "(OR)" "\<lambda>p q. p \<or> q"] that by (auto simp: bv_or_def bit_or_iff)
qed

lemma bv_xor_ok:
  assumes "bv_ok a" "bv_ok b" "bv_size a = bv_size b"
  obtains c where "bv_xor a b = Some c" "bv_ok c"
    "bv_bits c = (bv_bits a - bv_bits b) \<union> (bv_bits b - bv_bits a)" "bv_size c = bv_size a"
proof -
  have "{n. (n \<in> bv_bits a) \<noteq> (n \<in> bv_bits b)} = (bv_bits a - bv_bits b) \<union> (bv_bits b - bv_bits a)" by blast
  then show ?thesis
    using bv_zip_ok[OF assms, of "(XOR)" "\<lambda>p q. p \<noteq> q"] that by (auto simp: bv_xor_def bit_xor_iff)
qed

lemma bv_flip_ok:
  fixes b :: "'w::len bitvector"
  assumes ok: "bv_ok b"
  shows "bv_ok (bv_flip b)" "bv_bits (bv_flip b) = {..<bv_size b} - bv_bits b" "bv_size (bv_flip b) = bv_size b"
proof -
  define c where "c = (if bv_size b \<le> LENGTH('w) then b\<lparr>single_word := NOT (single_word b)\<rparr>
      else b\<lparr>bv_words := map (\<lambda>word. NOT word) (bv_words b)\<rparr>)"
  have eq: "bv_flip b = updateAllZero (clearUnusedBits c)" by (simp add: bv_flip_def c_def)
  have sh: "bv_shape b" using ok by (simp add: bv_ok_def)
  then have c: "bv_shape c" "bv_size c = bv_size b" by (auto simp: c_def bv_shape_def)
  have "bv_bit c n \<longleftrightarrow> \<not> bv_bit b n" if "n < bv_size b" for n
    using that pos_in_words[OF sh that]
    by (auto simp: c_def bv_bit_def words_bit_def bit_not_iff)
  then show "bv_ok (bv_flip b)" "bv_bits (bv_flip b) = {..<bv_size b} - bv_bits b" "bv_size (bv_flip b) = bv_size b"
    using clear_update_ok[OF c(1)] c(2) by (auto simp: eq bv_bits_def)
qed

lemma bv_any_iff: "bv_ok b \<Longrightarrow> bv_any b \<longleftrightarrow> bv_bits b \<noteq> {}"
  by (simp add: bv_any_def bv_ok_def)

lemma bv_none_iff: "bv_ok b \<Longrightarrow> bv_none b \<longleftrightarrow> bv_bits b = {}"
  by (simp add: bv_none_def bv_ok_def)

lemma words_eq_iff_bits:
  assumes "length xs = length ys" "\<And>n. words_bit xs n = words_bit (ys :: 'w::len word list) n"
  shows "xs = ys"
proof (rule nth_equalityI[OF assms(1)])
  fix i assume i: "i < length xs"
  show "xs ! i = ys ! i"
  proof (rule word_eq_by_bits)
    fix n assume "n < LENGTH('w)"
    then show "bit (xs ! i) n = bit (ys ! i) n"
      using assms(2)[of "i * LENGTH('w) + n"] i assms(1) by (simp add: words_bit_def)
  qed
qed

lemma bv_eq_iff:
  fixes a b :: "'w::len bitvector"
  assumes "bv_ok a" "bv_ok b"
  shows "bv_eq a b \<longleftrightarrow> bv_size a = bv_size b \<and> bv_bits a = bv_bits b"
proof (cases "bv_size a = bv_size b")
  case sz: True
  show ?thesis
  proof (cases "bv_size a \<le> LENGTH('w)")
    case True
    then show ?thesis using sz
      by (auto simp: bv_eq_def bv_bits_def bv_bit_def set_eq_iff intro: bit_eqI)
  next
    case False
    then have "length (bv_words a) = length (bv_words b)"
      using assms sz by (simp add: bv_ok_def bv_shape_def)
    then show ?thesis using False sz words_eq_iff_bits[of "bv_words a" "bv_words b"]
      by (auto simp: bv_eq_def bv_bits_def bv_bit_def set_eq_iff)
  qed
qed (simp add: bv_eq_def)

lemma popcount_card: "builtin_popcount w = card {n. bit (w :: 'w::len word) n}"
proof -
  have "{n. bit w n} = set (filter (bit w) [0..<LENGTH('w)])" by (auto dest: bit_imp_le_length)
  then show ?thesis by (metis builtin_popcount_def distinct_card distinct_filter distinct_upt)
qed

lemma words_bit_Cons:
  "words_bit (w # ws) n \<longleftrightarrow> (if n < LENGTH('w) then bit (w :: 'w::len word) n else words_bit ws (n - LENGTH('w)))"
  by (auto simp: words_bit_def nth_Cons' div_if[of n] le_mod_geq not_less split: nat.splits)

lemma finite_word_bits [simp]: "finite {n. bit (w :: 'w::len word) n}"
  by (rule finite_subset[of _ "{..<LENGTH('w)}"]) (auto dest: bit_imp_le_length)

lemma words_count: "sum_list (map builtin_popcount ws) = card {n. words_bit (ws :: 'w::len word list) n}
    \<and> finite {n. words_bit ws n}"
proof (induction ws)
  case Nil
  then show ?case by (simp add: words_bit_def)
next
  case (Cons w ws)
  let ?A = "{n. bit w n}" and ?B = "(\<lambda>n. n + LENGTH('w)) ` {n. words_bit ws n}"
  have eq: "{n. words_bit (w # ws) n} = ?A \<union> ?B"
  proof -
    have "n \<in> ?B \<longleftrightarrow> LENGTH('w) \<le> n \<and> words_bit ws (n - LENGTH('w))" for n
      by (auto simp: image_iff intro: exI[of _ "n - LENGTH('w)"])
    then show ?thesis by (auto simp: words_bit_Cons dest: bit_imp_le_length split: if_splits)
  qed
  have "?A \<inter> ?B = {}" by (auto dest: bit_imp_le_length)
  moreover have "card ?B = card {n. words_bit ws n}" by (rule card_image) (simp add: inj_on_def)
  ultimately show ?case using Cons by (simp add: eq card_Un_disjoint popcount_card)
qed

lemma bv_count_card:
  assumes "bv_ok (b :: 'w::len bitvector)"
  shows "bv_count b = card (bv_bits b)"
proof -
  have "fold (\<lambda>word count. count + builtin_popcount word) ws c = c + sum_list (map builtin_popcount ws)"
    for ws :: "'w word list" and c
    by (induction ws arbitrary: c) simp_all
  then show ?thesis
    using words_count[of "bv_words b"] by (auto simp: bv_count_def bv_bits_def bv_bit_def popcount_card)
qed

lemma bv_to_ulong_ok:
  assumes "bv_ok (b :: 'w::len bitvector)" "bv_size b \<le> 64"
  shows "\<exists>v. bv_to_ulong b = Some v \<and> (\<forall>n. bit v n \<longleftrightarrow> n \<in> bv_bits b)"
proof -
  have "bit (fold (\<lambda>i r. if bv_test b i = Some True then r OR push_bit i 1 else r) [0..<k] (0::u64)) n
      \<longleftrightarrow> n < k \<and> n \<in> bv_bits b" if "k \<le> bv_size b" for k n
    using that assms
    by (induction k) (auto simp: bv_test_eq bit_simps less_Suc_eq)
  then show ?thesis using assms bv_ok_bits_less[OF assms(1)] by (auto simp: bv_to_ulong_def)
qed

section \<open>Shifts\<close>

text \<open>In-place loops that read only entries not yet overwritten compute pointwise.\<close>

lemma fold_up_nth:
  assumes g: "\<And>i xs. length xs = length ws \<Longrightarrow> (\<forall>j. i \<le> j \<longrightarrow> j < length ws \<longrightarrow> xs ! j = ws ! j) \<Longrightarrow> i < m \<Longrightarrow> g i xs = h i"
    and "m \<le> length ws" "a \<le> m"
  shows "length (fold (\<lambda>i xs. xs[i := g i xs]) [a..<m] ws) = length ws \<and>
    (\<forall>i < length ws. fold (\<lambda>i xs. xs[i := g i xs]) [a..<m] ws ! i = (if a \<le> i \<and> i < m then h i else ws ! i))"
  using \<open>a \<le> m\<close> \<open>m \<le> length ws\<close> g
proof (induction m rule: dec_induct)
  case base
  then show ?case by auto
next
  case (step m)
  let ?xs = "fold (\<lambda>i xs. xs[i := g i xs]) [a..<m] ws"
  have IH: "length ?xs = length ws" "\<forall>i < length ws. ?xs ! i = (if a \<le> i \<and> i < m then h i else ws ! i)"
    using step by auto
  have "g m ?xs = h m" by (rule step.prems(2)) (use IH in auto)
  then show ?case using IH step by (auto simp: nth_list_update less_Suc_eq)
qed

lemma fold_down_nth:
  assumes g: "\<And>i xs. length xs = length ws \<Longrightarrow> (\<forall>j \<le> i. j < length ws \<longrightarrow> xs ! j = ws ! j) \<Longrightarrow> a \<le> i \<Longrightarrow> i < m \<Longrightarrow> g i xs = h i"
    and "m \<le> length ws" "a \<le> m"
  shows "length (fold (\<lambda>i xs. xs[i := g i xs]) (rev [a..<m]) ws) = length ws \<and>
    (\<forall>i < length ws. fold (\<lambda>i xs. xs[i := g i xs]) (rev [a..<m]) ws ! i = (if a \<le> i \<and> i < m then h i else ws ! i))"
  using \<open>a \<le> m\<close> g
proof (induction a rule: inc_induct)
  case base
  then show ?case by auto
next
  case (step a)
  let ?xs = "fold (\<lambda>i xs. xs[i := g i xs]) (rev [Suc a..<m]) ws"
  have IH: "length ?xs = length ws" "\<forall>i < length ws. ?xs ! i = (if Suc a \<le> i \<and> i < m then h i else ws ! i)"
    using step by auto
  have "g a ?xs = h a" by (rule step.prems) (use IH step in auto)
  moreover have "rev [a..<m] = rev [Suc a..<m] @ [a]" using step by (simp add: upt_conv_Cons)
  ultimately show ?case using IH step assms(2) by (auto simp: nth_list_update)
qed

lemma fill_nth:
  assumes "a \<le> m" "m \<le> length ws"
  shows "length (fold (\<lambda>i xs. xs[i := v]) [a..<m] ws) = length ws \<and>
    (\<forall>i < length ws. fold (\<lambda>i xs. xs[i := v]) [a..<m] ws ! i = (if a \<le> i \<and> i < m then v else ws ! i))"
  using fold_up_nth[of ws m "\<lambda>_ _. v" "\<lambda>_. v" a] assms by simp

lemma shl_words_nth:
  assumes "k \<le> length ws"
  shows "length (shl_words k ws) = length ws \<and>
    (\<forall>i < length ws. shl_words k ws ! i = (if i < k then 0 else ws ! (i - k)))"
proof (cases "k = 0")
  case False
  let ?w = "fold (\<lambda>i xs. xs[i := xs ! (i - k)]) (rev [k..<length ws]) ws"
  have w: "length ?w = length ws" "\<forall>i < length ws. ?w ! i = (if k \<le> i then ws ! (i - k) else ws ! i)"
    using fold_down_nth[of ws k "length ws" "\<lambda>i xs. xs ! (i - k)" "\<lambda>i. ws ! (i - k)"] assms by auto
  then show ?thesis using False fill_nth[of 0 k ?w 0] assms by (simp add: shl_words_def)
qed (simp add: shl_words_def)

lemma shl_bits_nth:
  fixes ws :: "'w::len word list"
  assumes "0 < length ws" "0 < k"
  shows "length (shl_bits k ws) = length ws \<and>
    (\<forall>i < length ws. shl_bits k ws ! i =
       (if i = 0 then push_bit k (ws ! 0) else push_bit k (ws ! i) OR drop_bit (LENGTH('w) - k) (ws ! (i - 1))))"
proof -
  let ?g = "\<lambda>i (xs :: 'w word list). push_bit k (xs ! i) OR drop_bit (LENGTH('w) - k) (xs ! (i - 1))"
  let ?w = "fold (\<lambda>i xs. xs[i := ?g i xs]) (rev [1..<length ws]) ws"
  have "length ?w = length ws \<and> (\<forall>i < length ws. ?w ! i = (if 1 \<le> i \<and> i < length ws then ?g i ws else ws ! i))"
    by (rule fold_down_nth) (use assms in \<open>auto simp: Suc_le_eq\<close>)
  then show ?thesis using assms by (auto simp: shl_bits_def Let_def nth_list_update)
qed

lemma shr_words_nth:
  assumes "k \<le> length ws"
  shows "length (shr_words k ws) = length ws \<and>
    (\<forall>i < length ws. shr_words k ws ! i = (if i + k < length ws then ws ! (i + k) else 0))"
proof (cases "k = 0")
  case False
  let ?n = "length ws - k"
  let ?w = "fold (\<lambda>i xs. xs[i := xs ! (i + k)]) [0..<?n] ws"
  have w: "length ?w = length ws" "\<forall>i < length ws. ?w ! i = (if i < ?n then ws ! (i + k) else ws ! i)"
    using fold_up_nth[of ws ?n "\<lambda>i xs. xs ! (i + k)" "\<lambda>i. ws ! (i + k)" 0] assms by auto
  then show ?thesis using False fill_nth[of ?n "length ws" ?w 0] assms
    by (auto simp: shr_words_def Let_def)
qed (simp add: shr_words_def)

lemma shr_bits_nth:
  fixes ws :: "'w::len word list"
  assumes "0 < length ws" "0 < k"
  shows "length (shr_bits k ws) = length ws \<and>
    (\<forall>i < length ws. shr_bits k ws ! i =
       (if Suc i < length ws then drop_bit k (ws ! i) OR push_bit (LENGTH('w) - k) (ws ! (i + 1)) else drop_bit k (ws ! i)))"
proof -
  let ?g = "\<lambda>i (xs :: 'w word list). drop_bit k (xs ! i) OR push_bit (LENGTH('w) - k) (xs ! (i + 1))"
  let ?w = "fold (\<lambda>i xs. xs[i := ?g i xs]) [0..<length ws - 1] ws"
  have "length ?w = length ws \<and> (\<forall>i < length ws. ?w ! i = (if 0 \<le> i \<and> i < length ws - 1 then ?g i ws else ws ! i))"
    by (rule fold_up_nth) (use assms in auto)
  then show ?thesis using assms by (auto simp: shr_bits_def Let_def nth_list_update)
qed

lemma div_mod_of_split:
  fixes q r L :: nat
  assumes "n = q * L + r" "r < L"
  shows "n div L = q" "n mod L = r"
  using assms by (auto simp: div_eq_0_iff)

lemma div_mod_sub_less:
  fixes n k L :: nat
  assumes "k \<le> n mod L" "0 < L"
  shows "(n - k) div L = n div L" "(n - k) mod L = n mod L - k"
proof -
  have "n = n div L * L + n mod L" by simp
  then have "n - k = n div L * L + (n mod L - k)" using assms(1) by linarith
  moreover have "n mod L - k < L" using mod_less_divisor[OF assms(2), of n] by linarith
  ultimately show "(n - k) div L = n div L" "(n - k) mod L = n mod L - k"
    by (rule div_mod_of_split)+
qed

lemma div_mod_sub_borrow:
  fixes n k L :: nat
  assumes "n mod L < k" "k < L" "k \<le> n"
  shows "0 < n div L" "(n - k) div L = n div L - 1" "(n - k) mod L = n mod L + L - k"
proof -
  have split: "n = n div L * L + n mod L" by simp
  show pos: "0 < n div L"
  proof (rule ccontr)
    assume "\<not> 0 < n div L"
    then show False using split assms by simp
  qed
  have "n div L * L = (n div L - 1) * L + L" using pos by (cases "n div L") auto
  then have "n - k = (n div L - 1) * L + (n mod L + L - k)" using assms split by linarith
  moreover have "n mod L + L - k < L" using assms by linarith
  ultimately show "(n - k) div L = n div L - 1" "(n - k) mod L = n mod L + L - k"
    by (rule div_mod_of_split)+
qed

lemma words_bit_shl_bits:
  fixes ws :: "'w::len word list"
  assumes "k < LENGTH('w)" "0 < length ws" "n < length ws * LENGTH('w)"
  shows "words_bit (shl_bits k ws) n \<longleftrightarrow> k \<le> n \<and> words_bit ws (n - k)"
proof (cases "k = 0")
  case False
  let ?L = "LENGTH('w)"
  note nth = shl_bits_nth[OF assms(2), of k]
  have q: "n div ?L < length ws" using assms(3) by (simp add: less_mult_imp_div_less)
  show ?thesis
  proof (cases "k \<le> n mod ?L")
    case True
    then have "k \<le> n" using mod_less_eq_dividend[of n ?L] by linarith
    have "\<not> bit w (n mod ?L + (?L - k))" for w :: "'w word"
      using True assms(1) bit_imp_le_length[of w "n mod ?L + (?L - k)"] by linarith
    then show ?thesis
      using True False nth q \<open>k \<le> n\<close> div_mod_sub_less[OF True len_gt_0]
      by (auto simp: words_bit_def bit_simps add.commute)
  next
    case b: False
    then have lt: "n mod ?L < k" by simp
    show ?thesis
    proof (cases "k \<le> n")
      case True
      note d = div_mod_sub_borrow[OF lt assms(1) True]
      have "n mod ?L + ?L - k = ?L - k + n mod ?L" using assms(1) by simp
      then show ?thesis using True False nth q d b assms(1)
        by (auto simp: words_bit_def bit_simps)
    next
      case nk: False
      then have "n div ?L = 0" using assms(1) by simp
      then show ?thesis using nk False nth q b by (auto simp: words_bit_def bit_simps)
    qed
  qed
qed (simp add: shl_bits_def)

lemma words_bit_shl_words:
  fixes ws :: "'w::len word list"
  assumes "k \<le> length ws" "n < length ws * LENGTH('w)"
  shows "words_bit (shl_words k ws) n \<longleftrightarrow> k * LENGTH('w) \<le> n \<and> words_bit ws (n - k * LENGTH('w))"
proof -
  let ?L = "LENGTH('w)"
  have q: "n div ?L < length ws" using assms(2) by (simp add: less_mult_imp_div_less)
  have c: "n div ?L < k \<longleftrightarrow> n < k * ?L" by (simp add: div_less_iff_less_mult)
  show ?thesis
  proof (cases "k * ?L \<le> n")
    case True
    define m where "m = n - k * ?L"
    have n: "n = m + k * ?L" using True by (simp add: m_def)
    have "n div ?L = m div ?L + k" "n mod ?L = m mod ?L" unfolding n by simp_all
    then show ?thesis using shl_words_nth[OF assms(1)] q True unfolding m_def[symmetric]
      by (simp add: words_bit_def)
  next
    case False
    then show ?thesis using shl_words_nth[OF assms(1)] q c by (simp add: words_bit_def)
  qed
qed

lemma words_bit_shr_bits:
  fixes ws :: "'w::len word list"
  assumes "k < LENGTH('w)" "0 < length ws" "n < length ws * LENGTH('w)"
  shows "words_bit (shr_bits k ws) n \<longleftrightarrow> words_bit ws (n + k)"
proof (cases "k = 0")
  case False
  let ?L = "LENGTH('w)"
  note nth = shr_bits_nth[OF assms(2), of k]
  have q: "n div ?L < length ws" using assms(3) by (simp add: less_mult_imp_div_less)
  have split: "n = n div ?L * ?L + n mod ?L" by simp
  have m: "n mod ?L < ?L" by simp
  show ?thesis
  proof (cases "n mod ?L + k < ?L")
    case True
    have "n + k = n div ?L * ?L + (n mod ?L + k)" by simp
    note d = div_mod_of_split[OF this True]
    have "\<not> bit (push_bit (?L - k) w) (n mod ?L)" for w :: "'w word"
      using True assms(1) by (auto simp: bit_simps)
    then show ?thesis using False nth q d by (auto simp: words_bit_def bit_simps add.commute)
  next
    case ov: False
    have "n + k = Suc (n div ?L) * ?L + (n mod ?L + k - ?L)" using split ov by simp
    moreover have "n mod ?L + k - ?L < ?L" using m assms(1) by linarith
    ultimately have d: "(n + k) div ?L = Suc (n div ?L)" "(n + k) mod ?L = n mod ?L + k - ?L"
      by (rule div_mod_of_split)+
    have "\<not> bit w (n mod ?L + k)" for w :: "'w word"
      using ov bit_imp_le_length[of w "n mod ?L + k"] by auto
    moreover have "n mod ?L - (?L - k) = n mod ?L + k - ?L" "?L - k \<le> n mod ?L" using ov assms(1) by auto
    ultimately show ?thesis using False nth q d by (auto simp: words_bit_def bit_simps add.commute)
  qed
qed (simp add: shr_bits_def)

lemma words_bit_shr_words:
  fixes ws :: "'w::len word list"
  assumes "k \<le> length ws" "n < length ws * LENGTH('w)"
  shows "words_bit (shr_words k ws) n \<longleftrightarrow> words_bit ws (n + k * LENGTH('w))"
proof -
  have q: "n div LENGTH('w) < length ws" using assms(2) by (simp add: less_mult_imp_div_less)
  show ?thesis using shr_words_nth[OF assms(1)] q by (auto simp: words_bit_def add.commute)
qed

lemma size_le_words:
  assumes "bv_shape (b :: 'w::len bitvector)" "\<not> bv_size b \<le> LENGTH('w)"
  shows "bv_size b \<le> length (bv_words b) * LENGTH('w)" "0 < length (bv_words b)"
proof -
  have "(bv_size b - 1) div LENGTH('w) < length (bv_words b)"
    using assms by (intro pos_in_words) auto
  then have "bv_size b - 1 < length (bv_words b) * LENGTH('w)"
    by (simp add: div_less_iff_less_mult)
  then show "bv_size b \<le> length (bv_words b) * LENGTH('w)" "0 < length (bv_words b)" by auto
qed

lemma bv_shl_ok:
  fixes b :: "'w::len bitvector"
  assumes ok: "bv_ok b"
  shows "bv_ok (bv_shl b k)" "bv_bits (bv_shl b k) = {n. n < bv_size b \<and> k \<le> n \<and> n - k \<in> bv_bits b}"
proof -
  let ?L = "LENGTH('w)" and ?ws = "bv_words b"
  define c where "c = (if bv_size b \<le> ?L then b\<lparr>single_word := push_bit k (single_word b)\<rparr>
         else b\<lparr>bv_words := shl_bits (k mod ?L) (shl_words (k div ?L) ?ws)\<rparr>)"
  have sh: "bv_shape b" using ok by (simp add: bv_ok_def)
  have "bv_ok (bv_shl b k) \<and> bv_bits (bv_shl b k) = {n. n < bv_size b \<and> k \<le> n \<and> n - k \<in> bv_bits b}"
  proof (cases "bv_size b \<le> k")
    case True
    then show ?thesis using bv_reset_all_ok[OF ok] by (auto simp: bv_shl_def)
  next
    case k: False
    have eq: "bv_shl b k = updateAllZero (clearUnusedBits c)" using k by (simp add: bv_shl_def c_def)
    have "bv_shape c \<and> (\<forall>n < bv_size b. bv_bit c n \<longleftrightarrow> k \<le> n \<and> bv_bit b (n - k))"
    proof (cases "bv_size b \<le> ?L")
      case True
      then show ?thesis using sh by (auto simp: c_def bv_shape_def bv_bit_def bit_simps)
    next
      case False
      note len = size_le_words[OF sh False]
      have q: "k div ?L \<le> length ?ws" using pos_in_words[OF sh _ False, of k] k by simp
      let ?w1 = "shl_words (k div ?L) ?ws"
      have l1: "length ?w1 = length ?ws" using shl_words_nth[OF q] by simp
      have l2: "length (shl_bits (k mod ?L) ?w1) = length ?ws"
        using shl_bits_nth[of ?w1 "k mod ?L"] len l1 by (cases "k mod ?L = 0") (auto simp: shl_bits_def)
      have "bv_bit c n \<longleftrightarrow> k \<le> n \<and> bv_bit b (n - k)" if n: "n < bv_size b" for n
      proof -
        have n1: "n < length ?ws * ?L" using n len by linarith
        have k: "k = k mod ?L + k div ?L * ?L" by simp
        have "bv_bit c n \<longleftrightarrow> k mod ?L \<le> n \<and> words_bit ?w1 (n - k mod ?L)"
          using words_bit_shl_bits[of "k mod ?L" ?w1 n] False len l1 n1 by (simp add: c_def bv_bit_def)
        also have "\<dots> \<longleftrightarrow> k mod ?L \<le> n \<and> k div ?L * ?L \<le> n - k mod ?L \<and> words_bit ?ws (n - k mod ?L - k div ?L * ?L)"
          using words_bit_shl_words[OF q, of "n - k mod ?L"] n1 by simp
        also have "\<dots> \<longleftrightarrow> k \<le> n \<and> words_bit ?ws (n - k)"
        proof -
          have "n - k mod ?L - k div ?L * ?L = n - k" using k by linarith
          moreover have "k mod ?L \<le> n \<and> k div ?L * ?L \<le> n - k mod ?L \<longleftrightarrow> k \<le> n" using k by linarith
          ultimately show ?thesis by auto
        qed
        finally show ?thesis using False by (simp add: bv_bit_def)
      qed
      then show ?thesis using False l2 sh by (simp add: c_def bv_shape_def)
    qed
    moreover have "bv_size c = bv_size b" by (simp add: c_def)
    ultimately show ?thesis
      using clear_update_ok[of c] by (auto simp: eq bv_bits_def)
  qed
  then show "bv_ok (bv_shl b k)" "bv_bits (bv_shl b k) = {n. n < bv_size b \<and> k \<le> n \<and> n - k \<in> bv_bits b}"
    by auto
qed

lemma bv_shr_ok:
  fixes b :: "'w::len bitvector"
  assumes ok: "bv_ok b"
  shows "bv_ok (bv_shr b k)" "bv_bits (bv_shr b k) = {n. n + k \<in> bv_bits b}"
proof -
  let ?L = "LENGTH('w)" and ?ws = "bv_words b"
  define c where "c = (if bv_size b \<le> ?L then b\<lparr>single_word := drop_bit k (single_word b)\<rparr>
         else b\<lparr>bv_words := shr_bits (k mod ?L) (shr_words (k div ?L) ?ws)\<rparr>)"
  have sh: "bv_shape b" using ok by (simp add: bv_ok_def)
  have bd: "bv_bit b n \<Longrightarrow> n < bv_size b" for n using ok by (auto simp: bv_ok_def bv_bounded_def)
  have "bv_ok (bv_shr b k) \<and> bv_bits (bv_shr b k) = {n. n + k \<in> bv_bits b}"
  proof (cases "bv_size b \<le> k")
    case True
    then have "\<not> bv_bit b (n + k)" for n using bd[of "n + k"] by auto
    then show ?thesis using bv_reset_all_ok[OF ok] True by (auto simp: bv_shr_def bv_bits_def)
  next
    case k: False
    have eq: "bv_shr b k = updateAllZero c" using k by (simp add: bv_shr_def c_def)
    have "bv_shape c \<and> (\<forall>n. bv_bit c n \<longleftrightarrow> bv_bit b (n + k))"
    proof (cases "bv_size b \<le> ?L")
      case True
      then show ?thesis using sh by (auto simp: c_def bv_shape_def bv_bit_def bit_simps add.commute)
    next
      case False
      note len = size_le_words[OF sh False]
      have q: "k div ?L \<le> length ?ws" using pos_in_words[OF sh _ False, of k] k by simp
      let ?w1 = "shr_words (k div ?L) ?ws"
      have l1: "length ?w1 = length ?ws" using shr_words_nth[OF q] by simp
      have l2: "length (shr_bits (k mod ?L) ?w1) = length ?ws"
        using shr_bits_nth[of ?w1 "k mod ?L"] len l1 by (cases "k mod ?L = 0") (auto simp: shr_bits_def)
      have "bv_bit c n \<longleftrightarrow> bv_bit b (n + k)" for n
      proof (cases "n < length ?ws * ?L")
        case n1: True
        have "bv_bit c n \<longleftrightarrow> words_bit ?w1 (n + k mod ?L)"
          using words_bit_shr_bits[of "k mod ?L" ?w1 n] False len l1 n1 by (simp add: c_def bv_bit_def)
        also have "\<dots> \<longleftrightarrow> words_bit ?ws (n + k mod ?L + k div ?L * ?L)"
        proof (cases "n + k mod ?L < length ?ws * ?L")
          case True
          then show ?thesis by (rule words_bit_shr_words[OF q])
        next
          case over: False
          then have "length ?ws \<le> (n + k mod ?L) div ?L" by (simp add: not_less less_eq_div_iff_mult_less_eq)
          moreover have "length ?ws \<le> (n + k mod ?L + k div ?L * ?L) div ?L"
            using over div_le_mono[of "n + k mod ?L" "n + k mod ?L + k div ?L * ?L" ?L] calculation
            by linarith
          ultimately show ?thesis using l1 by (simp add: words_bit_def)
        qed
        also have "n + k mod ?L + k div ?L * ?L = n + k" by simp
        finally show ?thesis using False by (simp add: bv_bit_def)
      next
        case over: False
        then have "length ?ws \<le> n div ?L" "length ?ws \<le> (n + k) div ?L"
          by (simp_all add: not_less less_eq_div_iff_mult_less_eq)
        then show ?thesis using False l2 by (simp add: c_def bv_bit_def words_bit_def)
      qed
      then show ?thesis using False l2 sh by (simp add: c_def bv_shape_def)
    qed
    moreover from this have "bv_bounded c" using bd by (fastforce simp: bv_bounded_def c_def)
    ultimately show ?thesis
      using updateAllZero_ok[of c] by (auto simp: eq bv_bits_def)
  qed
  then show "bv_ok (bv_shr b k)" "bv_bits (bv_shr b k) = {n. n + k \<in> bv_bits b}" by auto
qed


section \<open>All, resize and reverse\<close>

lemma word_all_ones_iff: "w = - 1 \<longleftrightarrow> (\<forall>n < LENGTH('w). bit (w :: 'w::len word) n)"
  by (auto simp: bit_simps intro: word_eq_by_bits)

lemma all_less_add: "(\<forall>n < a + r. P n) \<longleftrightarrow> (\<forall>n < a. P n) \<and> (\<forall>n < r. P (a + n))" for a r :: nat
proof (intro iffI allI impI conjI)
  fix n assume p: "(\<forall>n < a. P n) \<and> (\<forall>n < r. P (a + n))" and n: "n < a + r"
  show "P n"
  proof (cases "n < a")
    case False
    then have "n - a < r" "n = a + (n - a)" using n by simp_all
    then show ?thesis using p by metis
  qed (use p in simp)
qed auto

lemma bv_all_iff:
  fixes b :: "'w::len bitvector"
  assumes ok: "bv_ok b" and pos: "0 < bv_size b"
  shows "bv_all b \<longleftrightarrow> bv_bits b = {..<bv_size b}"
proof -
  let ?L = "LENGTH('w)" and ?s = "bv_size b" and ?ws = "bv_words b"
  have sh: "bv_shape b" using ok by (simp add: bv_ok_def)
  have sub: "bv_bits b \<subseteq> {..<?s}" using bv_ok_bits_less[OF ok] by auto
  have m: "(2 ^ r - 1 :: 'w word) = mask r" for r by (simp add: mask_eq_exp_minus_1)
  have full: "bv_bits b = {..<?s} \<longleftrightarrow> (\<forall>n < ?s. bv_bit b n)" using sub by (auto simp: bv_bits_def)
  show ?thesis
  proof (cases "?s \<le> ?L")
    case True
    show ?thesis
    proof (cases "?s = ?L")
      case eq: True
      then show ?thesis using True word_all_ones_iff[of "single_word b"] unfolding full
        by (simp add: bv_all_def Let_def m bv_bit_def)
    next
      case False
      then have r: "?s mod ?L = ?s" "?s \<noteq> 0" using True pos by auto
      have "single_word b = mask ?s \<longleftrightarrow> (\<forall>n < ?s. bit (single_word b) n)"
      proof
        assume a: "\<forall>n < ?s. bit (single_word b) n"
        show "single_word b = mask ?s"
        proof (rule word_eq_by_bits)
          fix n assume "n < ?L"
          then show "bit (single_word b) n = bit (mask ?s :: 'w word) n"
            using a sub True by (auto simp: bit_mask_iff bv_bits_def bv_bit_def)
        qed
      qed (use True in \<open>auto simp: bit_mask_iff\<close>)
      then show ?thesis using True r unfolding full by (simp add: bv_all_def Let_def m bv_bit_def)
    qed
  next
    case False
    let ?q = "?s div ?L" and ?r = "?s mod ?L"
    have split: "?s = ?q * ?L + ?r" by simp
    have fullw: "list_all (\<lambda>i. ?ws ! i = - 1) [0..<?q] \<longleftrightarrow> (\<forall>n < ?q * ?L. bv_bit b n)"
    proof -
      have q: "?q \<le> length ?ws"
        using div_le_mono[OF size_le_words(1)[OF sh False], of ?L] by simp
      have "(\<forall>i < ?q. \<forall>n < ?L. bit (?ws ! i) n) \<longleftrightarrow> (\<forall>n < ?q * ?L. bv_bit b n)"
      proof (intro iffI allI impI)
        fix n assume a: "\<forall>i < ?q. \<forall>n < ?L. bit (?ws ! i) n" and n: "n < ?q * ?L"
        then have "n div ?L < ?q" by (simp add: div_less_iff_less_mult)
        then show "bv_bit b n" using a q False by (simp add: bv_bit_def words_bit_def)
      next
        fix i n assume a: "\<forall>n < ?q * ?L. bv_bit b n" and i: "i < ?q" "n < ?L"
        have "i * ?L + n < Suc i * ?L" using i by simp
        also have "\<dots> \<le> ?q * ?L" using i by (intro mult_le_mono1) simp
        finally have "bv_bit b (i * ?L + n)" using a by blast
        then show "bit (?ws ! i) n" using False i by (simp add: bv_bit_def words_bit_def)
      qed
      then show ?thesis by (simp add: list_all_iff word_all_ones_iff Ball_def)
    qed
    have rest: "(?r \<noteq> 0 \<longrightarrow> (?ws ! ?q) AND mask ?r = mask ?r) \<longleftrightarrow> (\<forall>n < ?r. bv_bit b (?q * ?L + n))"
    proof (cases "?r = 0")
      case r: False
      have "?q < length ?ws"
      proof -
        have "(?s - 1) div ?L < length ?ws" using pos by (intro pos_in_words[OF sh _ False]) simp
        moreover have "(?s - 1) div ?L = ?q"
        proof (rule div_mod_of_split(1)[of _ _ _ "?r - 1"])
          show "?s - 1 = ?q * ?L + (?r - 1)" using split r by linarith
          have "?r < ?L" by simp
          then show "?r - 1 < ?L" by linarith
        qed
        ultimately show ?thesis by simp
      qed
      moreover have "?r < ?L" by simp
      ultimately have "bv_bit b (?q * ?L + n) \<longleftrightarrow> bit (?ws ! ?q) n" if "n < ?r" for n
        using that False less_trans[OF that \<open>?r < ?L\<close>] by (simp add: bv_bit_def words_bit_def)
      moreover have "(?ws ! ?q) AND mask ?r = mask ?r \<longleftrightarrow> (\<forall>n < ?r. bit (?ws ! ?q) n)"
        using less_trans[OF _ \<open>?r < ?L\<close>] by (auto simp: bit_eq_iff bit_and_iff bit_mask_iff)
      ultimately show ?thesis using r by simp
    qed simp
    have "(\<forall>n < ?s. bv_bit b n) \<longleftrightarrow> (\<forall>n < ?q * ?L. bv_bit b n) \<and> (\<forall>n < ?r. bv_bit b (?q * ?L + n))"
      using all_less_add[of "?q * ?L" ?r "bv_bit b"] by simp
    then show ?thesis unfolding full using False fullw rest by (simp add: bv_all_def Let_def m)
  qed
qed


text \<open>
  \<open>resize\<close> keeps the members below the new size as long as it does not grow a one-word vector
  past the word boundary.
\<close>

lemma bv_resize_ok:
  fixes b :: "'w::len bitvector"
  assumes ok: "bv_ok b" and nogrow: "n \<le> LENGTH('w) \<or> LENGTH('w) < bv_size b"
  shows "bv_ok (bv_resize b n)" "bv_bits (bv_resize b n) = bv_bits b \<inter> {..<n}" "bv_size (bv_resize b n) = n"
proof -
  let ?L = "LENGTH('w)" and ?s = "bv_size b" and ?ws = "bv_words b"
  define c where "c = (if n \<le> ?L
                     then if ?s \<le> ?L then b\<lparr>single_word := single_word b\<rparr>
                          else b\<lparr>single_word := ?ws ! 0, bv_words := []\<rparr>
                     else b\<lparr>bv_words := vector_resize ?ws (num_blocks TYPE('w) n) 0\<rparr>)\<lparr>bv_size := n\<rparr>"
  have sh: "bv_shape b" using ok by (simp add: bv_ok_def)
  have c: "bv_size c = n" "bv_shape c" using sh nogrow by (auto simp: c_def bv_shape_def vector_resize_def min_def)
  have bits: "bv_bit c i \<longleftrightarrow> bv_bit b i" if "i < n" for i
  proof (cases "n \<le> ?L")
    case True
    then show ?thesis using that size_le_words[OF sh] by (auto simp: c_def bv_bit_def words_bit_def)
  next
    case False
    have "i div ?L < num_blocks TYPE('w) n" using that by (rule div_less_num_blocks)
    then show ?thesis using False nogrow
      by (auto simp: c_def bv_bit_def words_bit_def vector_resize_def nth_append)
  qed
  have "bv_ok (bv_resize b n) \<and> bv_bits (bv_resize b n) = bv_bits b \<inter> {..<n} \<and> bv_size (bv_resize b n) = n"
  proof (cases "n = ?s")
    case True
    then show ?thesis using ok bv_ok_bits_less[OF ok] by (auto simp: bv_resize_def)
  next
    case False
    then have "bv_resize b n = updateAllZero (clearUnusedBits c)" by (simp add: bv_resize_def c_def Let_def)
    then show ?thesis using clear_update_ok[OF c(2)] c bits by (auto simp: bv_bits_def)
  qed
  then show "bv_ok (bv_resize b n)" "bv_bits (bv_resize b n) = bv_bits b \<inter> {..<n}" "bv_size (bv_resize b n) = n"
    by auto
qed

text \<open>Growing past the boundary drops every member: the words vector starts out empty.\<close>

lemma bv_resize_grow_loses:
  fixes b :: "'w::len bitvector"
  assumes ok: "bv_ok b" and "bv_size b \<le> LENGTH('w)" "LENGTH('w) < n"
  shows "bv_bits (bv_resize b n) = {}"
proof -
  define c where "c = b\<lparr>bv_words := vector_resize (bv_words b) (num_blocks TYPE('w) n) 0\<rparr>\<lparr>bv_size := n\<rparr>"
  have w: "bv_words b = []" using assms by (simp add: bv_ok_def bv_shape_def)
  then have c: "bv_shape c" "bv_size c = n" using assms by (auto simp: c_def bv_shape_def vector_resize_def)
  have "\<not> bv_bit c i" for i using assms w by (simp add: c_def bv_bit_def words_bit_def vector_resize_def)
  moreover have "bv_resize b n = updateAllZero (clearUnusedBits c)"
    using assms by (auto simp: bv_resize_def c_def Let_def)
  ultimately show ?thesis using clear_update_ok(2)[OF c(1)] by (auto simp: bv_bits_def)
qed

text \<open>
  \<open>reverse\<close> mirrors the whole word, not the first \<open>size\<close> bits of it: a shorter one-word vector
  loses its members to positions beyond its size.
\<close>

lemma bv_reverse_single_bits:
  fixes b :: "'w::len bitvector"
  assumes "0 < bv_size b" "bv_size b \<le> LENGTH('w)" "LENGTH('w) \<le> 64"
  shows "bv_bits (bv_reverse b) = {n. n < LENGTH('w) \<and> bit (single_word b) (LENGTH('w) - 1 - n)}"
  using assms
  by (auto simp: bv_reverse_def bv_bits_def bv_bit_def bit_ucast_iff bit_reverse_bit)

section \<open>Properties\<close>

text \<open>
  C27.  \<open>BitVector\<close> is a set of bit positions below its size, whatever the number of words it
  takes: on well-formed vectors every operation keeps the representation invariant and computes
  the corresponding set operation.
\<close>

theorem bitvector_refines_sets:
  assumes "bv_ok a" "bv_ok b" "bv_size a = bv_size b" "i < bv_size a"
  shows "(\<exists>c. bv_set_to a i v = Some c \<and> bv_ok c
            \<and> bv_bits c = (if v then insert i (bv_bits a) else bv_bits a - {i}))
    \<and> bv_test a i = Some (i \<in> bv_bits a)
    \<and> (\<exists>c. bv_and a b = Some c \<and> bv_ok c \<and> bv_bits c = bv_bits a \<inter> bv_bits b)
    \<and> (\<exists>c. bv_or a b = Some c \<and> bv_ok c \<and> bv_bits c = bv_bits a \<union> bv_bits b)
    \<and> (\<exists>c. bv_xor a b = Some c \<and> bv_ok c \<and> bv_bits c = (bv_bits a - bv_bits b) \<union> (bv_bits b - bv_bits a))
    \<and> bv_ok (bv_flip a) \<and> bv_bits (bv_flip a) = {..<bv_size a} - bv_bits a
    \<and> (bv_eq a b \<longleftrightarrow> bv_bits a = bv_bits b)
    \<and> bv_count a = card (bv_bits a)
    \<and> (bv_any a \<longleftrightarrow> bv_bits a \<noteq> {}) \<and> (bv_all a \<longleftrightarrow> bv_bits a = {..<bv_size a})"
proof (intro conjI)
  show "\<exists>c. bv_set_to a i v = Some c \<and> bv_ok c
            \<and> bv_bits c = (if v then insert i (bv_bits a) else bv_bits a - {i})"
    using bv_set_to_ok[OF assms(1,4)] by metis
  show "\<exists>c. bv_and a b = Some c \<and> bv_ok c \<and> bv_bits c = bv_bits a \<inter> bv_bits b"
    using bv_and_ok[OF assms(1-3)] by metis
  show "\<exists>c. bv_or a b = Some c \<and> bv_ok c \<and> bv_bits c = bv_bits a \<union> bv_bits b"
    using bv_or_ok[OF assms(1-3)] by metis
  show "\<exists>c. bv_xor a b = Some c \<and> bv_ok c \<and> bv_bits c = (bv_bits a - bv_bits b) \<union> (bv_bits b - bv_bits a)"
    using bv_xor_ok[OF assms(1-3)] by metis
  show "bv_all a \<longleftrightarrow> bv_bits a = {..<bv_size a}" using bv_all_iff[OF assms(1)] assms(4) by simp
qed (use assms in \<open>simp_all add: bv_test_eq bv_flip_ok bv_eq_iff bv_count_card bv_any_iff\<close>)

theorem bitvector_refines_sets_witness:
  "bv_count (bv_of_word 40 (5 :: u32)) = card {i. i < 40 \<and> bit (5 :: u32) i}"
  using bitvector_refines_sets[of "bv_of_word 40 (5 :: u32)" "bv_of_word 40 (6 :: u32)" 39 True]
  by (simp add: bv_of_word_ok)

text \<open>
  C28.  The multi-word shifts move every bit by the shift distance across the word boundaries and
  drop the bits that leave the vector.
\<close>

theorem bitvector_shifts:
  assumes "bv_ok (b :: 'w::len bitvector)"
  shows "bv_ok (bv_shl b k) \<and> bv_bits (bv_shl b k) = {n + k |n. n \<in> bv_bits b \<and> n + k < bv_size b}
    \<and> bv_ok (bv_shr b k) \<and> bv_bits (bv_shr b k) = {n - k |n. n \<in> bv_bits b \<and> k \<le> n}"
proof -
  have "{n. n < bv_size b \<and> k \<le> n \<and> n - k \<in> bv_bits b} = {n + k |n. n \<in> bv_bits b \<and> n + k < bv_size b}"
    by (auto intro!: exI[where x = "m - k" for m])
  moreover have "{n. n + k \<in> bv_bits b} = {n - k |n. n \<in> bv_bits b \<and> k \<le> n}"
    by (auto intro!: exI[where x = "m + k" for m])
  ultimately show ?thesis using bv_shl_ok[OF assms, of k] bv_shr_ok[OF assms, of k] by simp
qed

theorem bitvector_shifts_witness:
  "bv_ok (bv_shl (bv_of_word 40 (0x80000001 :: u32)) 5)"
  using bitvector_shifts[of "bv_of_word 40 (0x80000001 :: u32)" 5] by (simp add: bv_of_word_ok)

text \<open>
  C29.  \<open>resize\<close> keeps the bits below the new size, except when a one-word vector grows beyond a
  word: then the stored word is not carried over and every bit is lost.
\<close>

theorem bitvector_resize:
  assumes "bv_ok (b :: 'w::len bitvector)"
  shows "bv_bits (bv_resize b n) =
    (if bv_size b \<le> LENGTH('w) \<and> LENGTH('w) < n then {} else bv_bits b \<inter> {..<n})"
  using bv_resize_ok(2)[OF assms, of n] bv_resize_grow_loses[OF assms, of n] by auto

theorem bitvector_resize_witness:
  "bv_bits (bv_resize (bv_of_word 32 (5 :: u32)) 64) = {} \<and> 0 \<in> bv_bits (bv_of_word 32 (5 :: u32))"
  using bitvector_resize[of "bv_of_word 32 (5 :: u32)" 64] by (simp add: bv_of_word_ok)

end
