(* ===== verification/Thread_Mask.thy ===== *)
theory Thread_Mask
  imports Bitvector
begin

text \<open>
  The interface through which the warp logic of the simulator uses \<open>ThreadMask\<close>: a mask has a
  width and a set of members below it, masks are built empty or from a word, written bit by bit,
  intersected, complemented, compared, counted and tested for emptiness.  The laws are the
  assumptions of the locale \<open>mask_algebra\<close>; \<open>tm\<close> interprets it on \<open>BitVector\<close>.  The client lemmas
  are about the loops that fill a mask lane by lane and about the partition a predicate makes.
\<close>

locale mask_algebra =
  fixes valid :: "'m \<Rightarrow> bool"
    and members :: "'m \<Rightarrow> nat set"
    and width :: "'m \<Rightarrow> nat"
    and fresh :: "nat \<Rightarrow> 'm"
    and assign :: "'m \<Rightarrow> nat \<Rightarrow> bool \<Rightarrow> 'm option"
    and probe :: "'m \<Rightarrow> nat \<Rightarrow> bool option"
    and meet :: "'m \<Rightarrow> 'm \<Rightarrow> 'm option"
    and compl :: "'m \<Rightarrow> 'm"
    and population :: "'m \<Rightarrow> nat"
    and nonempty :: "'m \<Rightarrow> bool"
  assumes valid_members: "valid m \<Longrightarrow> members m \<subseteq> {..<width m}"
    and fresh_law: "valid (fresh n) \<and> members (fresh n) = {} \<and> width (fresh n) = n"
    and assign_law: "valid m \<Longrightarrow> i < width m \<Longrightarrow> \<exists>m'. assign m i v = Some m' \<and> valid m' \<and>
          width m' = width m \<and> members m' = (if v then insert i (members m) else members m - {i})"
    and probe_law: "valid m \<Longrightarrow> probe m i = (if i < width m then Some (i \<in> members m) else None)"
    and meet_law: "valid a \<Longrightarrow> valid b \<Longrightarrow> width a = width b \<Longrightarrow>
          \<exists>c. meet a b = Some c \<and> valid c \<and> width c = width a \<and> members c = members a \<inter> members b"
    and compl_law: "valid m \<Longrightarrow> valid (compl m) \<and> width (compl m) = width m \<and>
          members (compl m) = {..<width m} - members m"
    and population_law: "valid m \<Longrightarrow> population m = card (members m)"
    and nonempty_law: "valid m \<Longrightarrow> nonempty m \<longleftrightarrow> members m \<noteq> {}"
begin

lemma finite_members: "valid m \<Longrightarrow> finite (members m)"
  using valid_members finite_subset by blast

lemma fill_loop:
  assumes "k \<le> n"
  shows "\<exists>m. fold (\<lambda>t acc. Option.bind acc (\<lambda>a. assign a t (p t))) [0..<k] (Some (fresh n)) = Some m
     \<and> valid m \<and> width m = n \<and> members m = {t. t < k \<and> p t}"
  using assms
proof (induction k)
  case 0
  then show ?case using fresh_law by auto
next
  case (Suc k)
  then obtain m where m: "fold (\<lambda>t acc. Option.bind acc (\<lambda>a. assign a t (p t))) [0..<k] (Some (fresh n)) = Some m"
    "valid m" "width m = n" "members m = {t. t < k \<and> p t}" by auto
  then obtain m' where "assign m k (p k) = Some m'" "valid m'" "width m' = n"
    "members m' = (if p k then insert k (members m) else members m - {k})"
    using assign_law[of m k "p k"] Suc.prems by auto
  then show ?case using m by (auto simp: less_Suc_eq)
qed

text \<open>The lanes a predicate keeps and the lanes it drops partition the mask.\<close>

lemma partition_members:
  assumes "valid m"
  shows "{t. t < width m \<and> t \<in> members m \<and> p t} \<union> {t. t < width m \<and> t \<in> members m \<and> \<not> p t} = members m"
    "{t. t < width m \<and> t \<in> members m \<and> p t} \<inter> {t. t < width m \<and> t \<in> members m \<and> \<not> p t} = {}"
  using valid_members[OF assms] by auto

lemma other_side:
  assumes "valid m" "valid a" "width a = width m" "members a \<subseteq> members m"
  shows "\<exists>c. meet (compl a) m = Some c \<and> valid c \<and> width c = width m \<and> members c = members m - members a"
proof -
  have "valid (compl a)" "width (compl a) = width m" "members (compl a) = {..<width m} - members a"
    using compl_law[OF assms(2)] assms(3) by auto
  then show ?thesis using meet_law[of "compl a" m] assms valid_members[OF assms(1)] by fastforce
qed

end

interpretation tm: mask_algebra bv_ok bv_bits bv_size bv_new bv_set_to bv_test bv_and bv_flip bv_count bv_any
proof (unfold_locales, goal_cases)
  case (1 m)
  then show ?case using bv_ok_bits_less by blast
next
  case (2 n)
  then show ?case by (simp add: bv_new_ok)
next
  case (3 m i v)
  then show ?case by (metis bv_set_to_ok)
next
  case (4 m i)
  then show ?case by (rule bv_test_eq)
next
  case (5 a b)
  then show ?case by (metis bv_and_ok)
next
  case (6 m)
  then show ?case by (simp add: bv_flip_ok)
next
  case (7 m)
  then show ?case by (rule bv_count_card)
next
  case (8 m)
  then show ?case by (rule bv_any_iff)
qed

end
