(* ===== verification/Kmu.thy ===== *)
theory Kmu
  imports Prelude
begin

text \<open>
  The kernel management unit, \<open>src/vortex/sim/simx/kmu/kmu.cpp\<close>: it holds the kernel descriptor
  written through device configuration registers and walks the grid, one CTA per \<open>step\<close>.  The
  \<open>uint32_t x[3]\<close> arrays of the code are \<open>dim3\<close> records.  The register addresses are those of
  \<open>src/vortex/VX_types.toml\<close>.

  The lemmas show that the nested counter visits the blocks of a grid in a fixed order, each block
  exactly once, and stops after the last one, whenever the cluster dimensions divide the grid
  dimensions.
\<close>

section \<open>State\<close>

record dim3 =
  dim_x :: u32
  dim_y :: u32
  dim_z :: u32

definition mk_dim3 :: "u32 \<Rightarrow> u32 \<Rightarrow> u32 \<Rightarrow> dim3" where
  "mk_dim3 x y z = \<lparr>dim_x = x, dim_y = y, dim_z = z\<rparr>"

record kmu_req_t =
  req_PC :: u64
  req_entry :: u64
  req_param :: u64
  req_cta_id :: u32
  req_block_idx :: dim3
  req_block_dim :: dim3
  req_grid_dim :: dim3
  req_lmem_size :: u32
  req_block_size :: u32
  req_warp_step :: dim3
  req_cluster_dim :: dim3
  req_is_first_of_cluster :: bool

record kmu =
  kmu_PC :: u64
  kmu_entry :: u64
  kmu_param :: u64
  kmu_block_dim :: dim3
  kmu_grid_dim :: dim3
  kmu_lmem_size :: u32
  kmu_block_size :: u32
  kmu_warp_step :: dim3
  kmu_cluster_dim :: dim3
  kmu_running :: bool
  kmu_cta_id :: u32
  group_origin :: dim3
  intra_offset :: dim3

definition kmu_init :: kmu where
  "kmu_init = \<lparr>kmu_PC = 0, kmu_entry = 0, kmu_param = 0, kmu_block_dim = mk_dim3 1 1 1,
     kmu_grid_dim = mk_dim3 1 1 1, kmu_lmem_size = 0, kmu_block_size = 0,
     kmu_warp_step = mk_dim3 1 1 1, kmu_cluster_dim = mk_dim3 1 1 1, kmu_running = False,
     kmu_cta_id = 0, group_origin = mk_dim3 0 0 0, intra_offset = mk_dim3 0 0 0\<rparr>"

section \<open>Operations\<close>

definition kmu_on_reset :: "kmu \<Rightarrow> kmu" where
  "kmu_on_reset k = k\<lparr>kmu_running := False, kmu_cta_id := 0,
     group_origin := mk_dim3 0 0 0, intra_offset := mk_dim3 0 0 0\<rparr>"

definition set_lo32 :: "u64 \<Rightarrow> u32 \<Rightarrow> u64" where
  "set_lo32 x value = (x AND NOT 0xFFFFFFFF) OR ucast value"

definition set_hi32 :: "u64 \<Rightarrow> u32 \<Rightarrow> u64" where
  "set_hi32 x value = (x AND 0xFFFFFFFF) OR push_bit 32 (ucast value)"

definition kmu_dcr_write :: "kmu \<Rightarrow> u32 \<Rightarrow> u32 \<Rightarrow> kmu" where
  "kmu_dcr_write k addr value =
     (if addr = 0x010 then k\<lparr>kmu_PC := set_lo32 (kmu_PC k) value\<rparr>
      else if addr = 0x011 then k\<lparr>kmu_PC := set_hi32 (kmu_PC k) value\<rparr>
      else if addr = 0x012 then k\<lparr>kmu_entry := set_lo32 (kmu_entry k) value\<rparr>
      else if addr = 0x013 then k\<lparr>kmu_entry := set_hi32 (kmu_entry k) value\<rparr>
      else if addr = 0x014 then k\<lparr>kmu_param := set_lo32 (kmu_param k) value\<rparr>
      else if addr = 0x015 then k\<lparr>kmu_param := set_hi32 (kmu_param k) value\<rparr>
      else if addr = 0x016 then k\<lparr>kmu_block_dim := (kmu_block_dim k)\<lparr>dim_x := value\<rparr>\<rparr>
      else if addr = 0x017 then k\<lparr>kmu_block_dim := (kmu_block_dim k)\<lparr>dim_y := value\<rparr>\<rparr>
      else if addr = 0x018 then k\<lparr>kmu_block_dim := (kmu_block_dim k)\<lparr>dim_z := value\<rparr>\<rparr>
      else if addr = 0x019 then k\<lparr>kmu_grid_dim := (kmu_grid_dim k)\<lparr>dim_x := value\<rparr>\<rparr>
      else if addr = 0x01A then k\<lparr>kmu_grid_dim := (kmu_grid_dim k)\<lparr>dim_y := value\<rparr>\<rparr>
      else if addr = 0x01B then k\<lparr>kmu_grid_dim := (kmu_grid_dim k)\<lparr>dim_z := value\<rparr>\<rparr>
      else if addr = 0x01C then k\<lparr>kmu_lmem_size := value\<rparr>
      else if addr = 0x01D then k\<lparr>kmu_block_size := value\<rparr>
      else if addr = 0x01E then k\<lparr>kmu_warp_step := (kmu_warp_step k)\<lparr>dim_x := value\<rparr>\<rparr>
      else if addr = 0x01F then k\<lparr>kmu_warp_step := (kmu_warp_step k)\<lparr>dim_y := value\<rparr>\<rparr>
      else if addr = 0x020 then k\<lparr>kmu_warp_step := (kmu_warp_step k)\<lparr>dim_z := value\<rparr>\<rparr>
      else if addr = 0x021 then k\<lparr>kmu_cluster_dim := (kmu_cluster_dim k)\<lparr>dim_x := value\<rparr>\<rparr>
      else if addr = 0x022 then k\<lparr>kmu_cluster_dim := (kmu_cluster_dim k)\<lparr>dim_y := value\<rparr>\<rparr>
      else if addr = 0x023 then k\<lparr>kmu_cluster_dim := (kmu_cluster_dim k)\<lparr>dim_z := value\<rparr>\<rparr>
      else k)"

definition kmu_start :: "kmu \<Rightarrow> kmu" where
  "kmu_start k =
     (let run = (kmu_block_size k > 0
           \<and> dim_x (kmu_grid_dim k) > 0 \<and> dim_y (kmu_grid_dim k) > 0 \<and> dim_z (kmu_grid_dim k) > 0
           \<and> dim_x (kmu_cluster_dim k) > 0 \<and> dim_y (kmu_cluster_dim k) > 0 \<and> dim_z (kmu_cluster_dim k) > 0);
          k1 = k\<lparr>kmu_running := run\<rparr>
      in if run then k1\<lparr>kmu_cta_id := 0, group_origin := mk_dim3 0 0 0, intra_offset := mk_dim3 0 0 0\<rparr>
         else k1)"

definition kmu_launch_delegated :: "kmu \<Rightarrow> bool" where
  "kmu_launch_delegated k \<longleftrightarrow>
     \<not> (dim_x (kmu_grid_dim k) \<noteq> 0 \<and> dim_y (kmu_grid_dim k) \<noteq> 0 \<and> dim_z (kmu_grid_dim k) \<noteq> 0)"

definition kmu_block_idx :: "kmu \<Rightarrow> dim3" where
  "kmu_block_idx k = mk_dim3 (dim_x (group_origin k) + dim_x (intra_offset k))
     (dim_y (group_origin k) + dim_y (intra_offset k))
     (dim_z (group_origin k) + dim_z (intra_offset k))"

definition kmu_request :: "kmu \<Rightarrow> kmu_req_t" where
  "kmu_request k = \<lparr>req_PC = kmu_PC k, req_entry = kmu_entry k, req_param = kmu_param k,
     req_cta_id = kmu_cta_id k, req_block_idx = kmu_block_idx k, req_block_dim = kmu_block_dim k,
     req_grid_dim = kmu_grid_dim k, req_lmem_size = kmu_lmem_size k, req_block_size = kmu_block_size k,
     req_warp_step = kmu_warp_step k, req_cluster_dim = kmu_cluster_dim k,
     req_is_first_of_cluster = (dim_x (intra_offset k) = 0 \<and> dim_y (intra_offset k) = 0
                                \<and> dim_z (intra_offset k) = 0)\<rparr>"

definition advance_group :: "kmu \<Rightarrow> kmu" where
  "advance_group k =
     (let og = group_origin k; c = kmu_cluster_dim k; g = kmu_grid_dim k;
          ox = dim_x og + dim_x c
      in if ox = dim_x g then
           let k1 = k\<lparr>group_origin := og\<lparr>dim_x := 0\<rparr>\<rparr>;
               oy = dim_y og + dim_y c
           in if oy = dim_y g then
                let k2 = k1\<lparr>group_origin := (group_origin k1)\<lparr>dim_y := 0\<rparr>\<rparr>;
                    oz = dim_z og + dim_z c
                in if oz = dim_z g
                   then k2\<lparr>group_origin := (group_origin k2)\<lparr>dim_z := 0\<rparr>, kmu_running := False\<rparr>
                   else k2\<lparr>group_origin := (group_origin k2)\<lparr>dim_z := oz\<rparr>\<rparr>
              else k1\<lparr>group_origin := (group_origin k1)\<lparr>dim_y := oy\<rparr>\<rparr>
         else k\<lparr>group_origin := og\<lparr>dim_x := ox\<rparr>\<rparr>)"

definition kmu_advance :: "kmu \<Rightarrow> kmu" where
  "kmu_advance k0 =
     (let k = k0\<lparr>kmu_cta_id := kmu_cta_id k0 + 1\<rparr>;
          i = intra_offset k; c = kmu_cluster_dim k
      in if dim_x i + 1 \<noteq> dim_x c then k\<lparr>intra_offset := i\<lparr>dim_x := dim_x i + 1\<rparr>\<rparr>
         else let i1 = i\<lparr>dim_x := 0\<rparr> in
           if dim_y i + 1 \<noteq> dim_y c then k\<lparr>intra_offset := i1\<lparr>dim_y := dim_y i + 1\<rparr>\<rparr>
           else let i2 = i1\<lparr>dim_y := 0\<rparr> in
             if dim_z i + 1 \<noteq> dim_z c then k\<lparr>intra_offset := i2\<lparr>dim_z := dim_z i + 1\<rparr>\<rparr>
             else advance_group (k\<lparr>intra_offset := i2\<lparr>dim_z := 0\<rparr>\<rparr>))"

definition kmu_step :: "kmu \<Rightarrow> (kmu_req_t \<times> kmu) option" where
  "kmu_step k = (if \<not> kmu_running k then None else Some (kmu_request k, kmu_advance k))"

text \<open>The CTAs the unit hands out when it is stepped at most \<open>n\<close> times.\<close>

fun kmu_run :: "nat \<Rightarrow> kmu \<Rightarrow> kmu_req_t list \<times> kmu" where
  "kmu_run 0 k = ([], k)"
| "kmu_run (Suc n) k = (case kmu_step k of None \<Rightarrow> ([], k)
     | Some (req, k') \<Rightarrow> (let (reqs, k'') = kmu_run n k' in (req # reqs, k'')))"

section \<open>The counter in numbers\<close>

text \<open>A three-digit counter with radices \<open>a\<close> and \<open>b\<close> for its two lower digits.\<close>

definition mixed3 :: "nat \<Rightarrow> nat \<Rightarrow> nat \<Rightarrow> nat \<Rightarrow> nat \<Rightarrow> nat" where
  "mixed3 a b x y z = x + a * (y + b * z)"

lemma mixed_step: "x < a \<Longrightarrow> y < b \<Longrightarrow> x + a * y < a * (b::nat)"
proof -
  assume "x < a" "y < b"
  then have "x + a * y < a * Suc y" by simp
  also have "\<dots> \<le> a * b" using \<open>y < b\<close> by (intro mult_le_mono2) simp
  finally show ?thesis .
qed

lemma mixed3_less: "x < a \<Longrightarrow> y < b \<Longrightarrow> z < c \<Longrightarrow> mixed3 a b x y z < a * b * c"
  unfolding mixed3_def by (metis mixed_step mult.assoc)

lemma mixed3_last:
  "x + 1 = a \<Longrightarrow> y + 1 = b \<Longrightarrow> z + 1 = c \<Longrightarrow> mixed3 a b x y z + 1 = a * b * c"
  by (auto simp: mixed3_def algebra_simps)

lemma mixed3_inj:
  assumes "mixed3 a b x y z = mixed3 a b x' y' z'" "x < a" "x' < a" "y < b" "y' < b"
  shows "x = x' \<and> y = y' \<and> z = z'"
proof -
  have "(x + a * (y + b * z)) mod a = (x' + a * (y' + b * z')) mod a"
    using assms(1) by (simp add: mixed3_def)
  then have x: "x = x'" using assms by simp
  then have "y + b * z = y' + b * z'" using assms by (auto simp: mixed3_def)
  note eq = this
  have "(y + b * z) mod b = (y' + b * z') mod b" by (simp only: eq)
  then have "y = y'" using assms(4,5) by simp
  then show ?thesis using x eq assms(4) by auto
qed

section \<open>Positions and their rank\<close>

abbreviation nx :: "dim3 \<Rightarrow> nat" where "nx d \<equiv> unat (dim_x d)"
abbreviation ny :: "dim3 \<Rightarrow> nat" where "ny d \<equiv> unat (dim_y d)"
abbreviation nz :: "dim3 \<Rightarrow> nat" where "nz d \<equiv> unat (dim_z d)"

definition cluster_divides :: "dim3 \<Rightarrow> dim3 \<Rightarrow> bool" where
  "cluster_divides c g \<longleftrightarrow> 0 < nx c \<and> 0 < ny c \<and> 0 < nz c
     \<and> nx c dvd nx g \<and> ny c dvd ny g \<and> nz c dvd nz g"

definition pos_ok :: "kmu \<Rightarrow> bool" where
  "pos_ok k \<longleftrightarrow> (let i = intra_offset k; og = group_origin k; c = kmu_cluster_dim k; g = kmu_grid_dim k in
     nx i < nx c \<and> ny i < ny c \<and> nz i < nz c
     \<and> nx c dvd nx og \<and> ny c dvd ny og \<and> nz c dvd nz og
     \<and> nx og < nx g \<and> ny og < ny g \<and> nz og < nz g)"

text \<open>The rank of a block: its place in the order in which the counter visits the grid.\<close>

definition block_rank :: "dim3 \<Rightarrow> dim3 \<Rightarrow> nat \<Rightarrow> nat \<Rightarrow> nat \<Rightarrow> nat" where
  "block_rank c g x y z =
     mixed3 (nx c) (ny c) (x mod nx c) (y mod ny c) (z mod nz c)
     + nx c * ny c * nz c * mixed3 (nx g div nx c) (ny g div ny c) (x div nx c) (y div ny c) (z div nz c)"

definition kmu_rank :: "kmu \<Rightarrow> nat" where
  "kmu_rank k = block_rank (kmu_cluster_dim k) (kmu_grid_dim k)
     (nx (group_origin k) + nx (intra_offset k)) (ny (group_origin k) + ny (intra_offset k))
     (nz (group_origin k) + nz (intra_offset k))"

definition grid_blocks :: "dim3 \<Rightarrow> nat" where
  "grid_blocks g = nx g * ny g * nz g"

lemma origin_split:
  fixes og i c :: nat
  assumes "c dvd og" "i < c"
  shows "(og + i) mod c = i" "(og + i) div c = og div c"
  using assms by auto

lemma kmu_rank_eq:
  assumes "pos_ok k"
  shows "kmu_rank k = (let i = intra_offset k; og = group_origin k; c = kmu_cluster_dim k; g = kmu_grid_dim k in
     mixed3 (nx c) (ny c) (nx i) (ny i) (nz i)
     + nx c * ny c * nz c * mixed3 (nx g div nx c) (ny g div ny c) (nx og div nx c) (ny og div ny c) (nz og div nz c))"
  using assms by (simp add: kmu_rank_def block_rank_def pos_ok_def Let_def origin_split)

lemma block_rank_less:
  assumes "cluster_divides c g" "x < nx g" "y < ny g" "z < nz g"
  shows "block_rank c g x y z < grid_blocks g"
proof -
  have d: "x div nx c < nx g div nx c" "y div ny c < ny g div ny c" "z div nz c < nz g div nz c"
    using assms by (auto simp: cluster_divides_def div_less_iff_less_mult)
  have "mixed3 (nx g div nx c) (ny g div ny c) (x div nx c) (y div ny c) (z div nz c)
     < (nx g div nx c) * (ny g div ny c) * (nz g div nz c)"
    using d by (rule mixed3_less)
  moreover have "mixed3 (nx c) (ny c) (x mod nx c) (y mod ny c) (z mod nz c) < nx c * ny c * nz c"
    using assms(1) by (intro mixed3_less) (auto simp: cluster_divides_def)
  ultimately have "block_rank c g x y z < (nx c * ny c * nz c) * ((nx g div nx c) * (ny g div ny c) * (nz g div nz c))"
    unfolding block_rank_def by (intro mixed_step)
  also have "\<dots> = (nx c * (nx g div nx c)) * (ny c * (ny g div ny c)) * (nz c * (nz g div nz c))" by simp
  also have "\<dots> = grid_blocks g" using assms(1) by (simp add: cluster_divides_def grid_blocks_def)
  finally show ?thesis .
qed

lemma block_rank_inj:
  assumes c: "cluster_divides c g" and eq: "block_rank c g x y z = block_rank c g x' y' z'"
    and lt: "x < nx g" "y < ny g" "z < nz g" "x' < nx g" "y' < ny g" "z' < nz g"
  shows "x = x' \<and> y = y' \<and> z = z'"
proof -
  let ?C = "nx c * ny c * nz c"
  let ?i = "mixed3 (nx c) (ny c) (x mod nx c) (y mod ny c) (z mod nz c)"
  let ?i' = "mixed3 (nx c) (ny c) (x' mod nx c) (y' mod ny c) (z' mod nz c)"
  let ?g = "mixed3 (nx g div nx c) (ny g div ny c) (x div nx c) (y div ny c) (z div nz c)"
  let ?g' = "mixed3 (nx g div nx c) (ny g div ny c) (x' div nx c) (y' div ny c) (z' div nz c)"
  have pos: "0 < nx c" "0 < ny c" "0 < nz c" using c by (auto simp: cluster_divides_def)
  have i: "?i < ?C" "?i' < ?C" using pos by (auto intro!: mixed3_less)
  have sum: "?i + ?C * ?g = ?i' + ?C * ?g'" using eq by (simp add: block_rank_def)
  then have "(?i + ?C * ?g) mod ?C = (?i' + ?C * ?g') mod ?C" by simp
  then have ii: "?i = ?i'" using i by simp
  then have gg: "?g = ?g'" using sum pos by simp
  have dl: "a div nx c < nx g div nx c" if "a < nx g" for a
    using that c by (auto simp: cluster_divides_def div_less_iff_less_mult)
  have dy: "a div ny c < ny g div ny c" if "a < ny g" for a
    using that c by (auto simp: cluster_divides_def div_less_iff_less_mult)
  have m: "x mod nx c = x' mod nx c \<and> y mod ny c = y' mod ny c \<and> z mod nz c = z' mod nz c"
    using mixed3_inj[OF ii] pos by simp
  have d: "x div nx c = x' div nx c \<and> y div ny c = y' div ny c \<and> z div nz c = z' div nz c"
    using mixed3_inj[OF gg] lt dl dy by blast
  from m d show ?thesis by (metis mult_div_mod_eq)
qed


section \<open>One step of the walk\<close>

lemma u32_incr:
  fixes a b :: u32
  assumes "unat a < unat b"
  shows "unat (a + 1) = unat a + 1" "a + 1 = b \<longleftrightarrow> unat a + 1 = unat b"
proof -
  have "unat b < 2 ^ 32" using unsigned_less[of b] by simp
  then have "unat a + unat (1::u32) < 2 ^ LENGTH(32)" using assms by simp
  then show 1: "unat (a + 1) = unat a + 1" by (simp only: unat_plus_no_wrap) simp
  show "a + 1 = b \<longleftrightarrow> unat a + 1 = unat b" by (metis 1 word_unat_eq_iff)
qed

lemma u32_add:
  fixes a c g :: u32
  assumes "unat a + unat c \<le> unat g"
  shows "unat (a + c) = unat a + unat c" "a + c = g \<longleftrightarrow> unat a + unat c = unat g"
proof -
  have "unat g < 2 ^ 32" using unsigned_less[of g] by simp
  then have "unat a + unat c < 2 ^ LENGTH(32)" using assms by simp
  then show 1: "unat (a + c) = unat a + unat c" by (rule unat_plus_no_wrap)
  show "a + c = g \<longleftrightarrow> unat a + unat c = unat g" by (metis 1 word_unat_eq_iff)
qed

lemma multiple_next:
  fixes og c g :: nat
  assumes "c dvd og" "c dvd g" "og < g" "0 < c"
  shows "og + c \<le> g" "(og + c) div c = Suc (og div c)" "og + c = g \<Longrightarrow> g div c = Suc (og div c)"
proof -
  obtain p q where pq: "og = c * p" "g = c * q" using assms by (auto elim!: dvdE)
  then have "Suc p \<le> q" using assms by auto
  then have "c * Suc p \<le> c * q" by (rule mult_le_mono2)
  then show "og + c \<le> g" using pq by simp
  show 1: "(og + c) div c = Suc (og div c)" using assms(4) by (simp add: div_add_self2)
  then show "og + c = g \<Longrightarrow> g div c = Suc (og div c)" by simp
qed

definition walk_ok :: "kmu \<Rightarrow> bool" where
  "walk_ok k \<longleftrightarrow> cluster_divides (kmu_cluster_dim k) (kmu_grid_dim k) \<and> pos_ok k"

lemma advance_frame [simp]:
  "kmu_cluster_dim (kmu_advance k) = kmu_cluster_dim k" "kmu_grid_dim (kmu_advance k) = kmu_grid_dim k"
  by (simp_all add: kmu_advance_def advance_group_def Let_def)

lemma kmu_rank_less:
  assumes "walk_ok k"
  shows "kmu_rank k < grid_blocks (kmu_grid_dim k)"
proof -
  have "og + i < g" if "c dvd og" "c dvd g" "og < g" "i < c" for og i c g :: nat
    using multiple_next(1)[of c og g] that by simp
  then show ?thesis using assms unfolding kmu_rank_def
    by (intro block_rank_less) (auto simp: walk_ok_def cluster_divides_def pos_ok_def Let_def)
qed

lemma intra_move:
  assumes "walk_ok k"
    and frame: "kmu_cluster_dim k' = kmu_cluster_dim k" "kmu_grid_dim k' = kmu_grid_dim k" "group_origin k' = group_origin k"
    and lt: "nx (intra_offset k') < nx (kmu_cluster_dim k)" "ny (intra_offset k') < ny (kmu_cluster_dim k)"
      "nz (intra_offset k') < nz (kmu_cluster_dim k)"
    and next1: "mixed3 (nx (kmu_cluster_dim k)) (ny (kmu_cluster_dim k)) (nx (intra_offset k')) (ny (intra_offset k')) (nz (intra_offset k'))
       = mixed3 (nx (kmu_cluster_dim k)) (ny (kmu_cluster_dim k)) (nx (intra_offset k)) (ny (intra_offset k)) (nz (intra_offset k)) + 1"
  shows "walk_ok k' \<and> kmu_rank k' = kmu_rank k + 1"
proof -
  have p: "pos_ok k" "pos_ok k'" using assms by (auto simp: walk_ok_def pos_ok_def Let_def)
  then show ?thesis using assms(1) frame next1
    by (simp add: walk_ok_def kmu_rank_eq[OF p(1)] kmu_rank_eq[OF p(2)] Let_def)
qed

lemma advance_intra:
  assumes ok: "walk_ok k"
    and nw: "dim_x (intra_offset k) + 1 \<noteq> dim_x (kmu_cluster_dim k) \<or>
             dim_y (intra_offset k) + 1 \<noteq> dim_y (kmu_cluster_dim k) \<or>
             dim_z (intra_offset k) + 1 \<noteq> dim_z (kmu_cluster_dim k)"
  shows "walk_ok (kmu_advance k) \<and> kmu_rank (kmu_advance k) = kmu_rank k + 1
     \<and> kmu_running (kmu_advance k) = kmu_running k"
proof -
  let ?i = "intra_offset k" and ?c = "kmu_cluster_dim k"
  have lt: "nx ?i < nx ?c" "ny ?i < ny ?c" "nz ?i < nz ?c" using ok by (auto simp: walk_ok_def pos_ok_def Let_def)
  note ix = u32_incr[OF lt(1)] and iy = u32_incr[OF lt(2)] and iz = u32_incr[OF lt(3)]
  consider (x) "nx ?i + 1 \<noteq> nx ?c" | (y) "nx ?i + 1 = nx ?c" "ny ?i + 1 \<noteq> ny ?c"
    | (z) "nx ?i + 1 = nx ?c" "ny ?i + 1 = ny ?c" "nz ?i + 1 \<noteq> nz ?c"
    using nw ix(2) iy(2) iz(2) by auto
  then show ?thesis
  proof cases
    case 1: x
    have a: "kmu_advance k = k\<lparr>kmu_cta_id := kmu_cta_id k + 1, intra_offset := ?i\<lparr>dim_x := dim_x ?i + 1\<rparr>\<rparr>"
      using 1 ix(2) by (simp add: kmu_advance_def Let_def)
    have "walk_ok (kmu_advance k) \<and> kmu_rank (kmu_advance k) = kmu_rank k + 1"
      by (rule intra_move[OF ok]) (use 1 lt ix(1) a in \<open>auto simp: mixed3_def\<close>)
    then show ?thesis using a by simp
  next
    case 2: y
    have a: "kmu_advance k = k\<lparr>kmu_cta_id := kmu_cta_id k + 1, intra_offset := ?i\<lparr>dim_x := 0, dim_y := dim_y ?i + 1\<rparr>\<rparr>"
      using 2 ix(2) iy(2) by (simp add: kmu_advance_def Let_def)
    have "walk_ok (kmu_advance k) \<and> kmu_rank (kmu_advance k) = kmu_rank k + 1"
      by (rule intra_move[OF ok]) (use 2 lt iy(1) a in \<open>auto simp: mixed3_def algebra_simps\<close>)
    then show ?thesis using a by simp
  next
    case 3: z
    have a: "kmu_advance k = k\<lparr>kmu_cta_id := kmu_cta_id k + 1,
        intra_offset := ?i\<lparr>dim_x := 0, dim_y := 0, dim_z := dim_z ?i + 1\<rparr>\<rparr>"
      using 3 ix(2) iy(2) iz(2) by (simp add: kmu_advance_def Let_def)
    have "walk_ok (kmu_advance k) \<and> kmu_rank (kmu_advance k) = kmu_rank k + 1"
    proof (rule intra_move[OF ok])
      have "mixed3 (nx ?c) (ny ?c) 0 0 (nz ?i + 1) = mixed3 (nx ?c) (ny ?c) (nx ?i) (ny ?i) (nz ?i) + 1"
        unfolding 3(1,2)[symmetric] by (simp add: mixed3_def algebra_simps)
      then show "mixed3 (nx ?c) (ny ?c) (nx (intra_offset (kmu_advance k))) (ny (intra_offset (kmu_advance k))) (nz (intra_offset (kmu_advance k)))
         = mixed3 (nx ?c) (ny ?c) (nx ?i) (ny ?i) (nz ?i) + 1" using a iz(1) by simp
    qed (use 3 lt iz(1) a in auto)
    then show ?thesis using a by simp
  qed
qed

text \<open>The group counter, in units of the cluster dimensions.\<close>

lemma group_move:
  assumes ok: "walk_ok k" and wrap: "nx (intra_offset k) + 1 = nx (kmu_cluster_dim k)"
      "ny (intra_offset k) + 1 = ny (kmu_cluster_dim k)" "nz (intra_offset k) + 1 = nz (kmu_cluster_dim k)"
    and frame: "kmu_cluster_dim k' = kmu_cluster_dim k" "kmu_grid_dim k' = kmu_grid_dim k" "intra_offset k' = mk_dim3 0 0 0"
    and og: "nx (kmu_cluster_dim k) dvd nx (group_origin k')" "ny (kmu_cluster_dim k) dvd ny (group_origin k')"
      "nz (kmu_cluster_dim k) dvd nz (group_origin k')"
      "nx (group_origin k') < nx (kmu_grid_dim k)" "ny (group_origin k') < ny (kmu_grid_dim k)" "nz (group_origin k') < nz (kmu_grid_dim k)"
    and next1: "let c = kmu_cluster_dim k; g = kmu_grid_dim k; a = group_origin k; b = group_origin k' in
        mixed3 (nx g div nx c) (ny g div ny c) (nx b div nx c) (ny b div ny c) (nz b div nz c)
       = mixed3 (nx g div nx c) (ny g div ny c) (nx a div nx c) (ny a div ny c) (nz a div nz c) + 1"
  shows "walk_ok k' \<and> kmu_rank k' = kmu_rank k + 1"
proof -
  let ?c = "kmu_cluster_dim k" and ?i = "intra_offset k"
  have pos: "0 < nx ?c" "0 < ny ?c" "0 < nz ?c" using wrap by linarith+
  have p: "pos_ok k" "pos_ok k'"
    using ok frame og pos by (auto simp: walk_ok_def pos_ok_def Let_def mk_dim3_def)
  have "mixed3 (nx ?c) (ny ?c) (nx ?i) (ny ?i) (nz ?i) + 1 = nx ?c * ny ?c * nz ?c"
    by (rule mixed3_last[OF wrap])
  then show ?thesis using ok frame next1 p
    by (simp add: walk_ok_def kmu_rank_eq[OF p(1)] kmu_rank_eq[OF p(2)] Let_def mk_dim3_def mixed3_def[of _ _ 0 0 0])
qed

lemma advance_group_step:
  assumes ok: "walk_ok k" and wrap: "nx (intra_offset k) + 1 = nx (kmu_cluster_dim k)"
      "ny (intra_offset k) + 1 = ny (kmu_cluster_dim k)" "nz (intra_offset k) + 1 = nz (kmu_cluster_dim k)"
  shows "(walk_ok (kmu_advance k) \<and> kmu_rank (kmu_advance k) = kmu_rank k + 1 \<and> kmu_running (kmu_advance k) = kmu_running k)
      \<or> (\<not> kmu_running (kmu_advance k) \<and> kmu_rank k + 1 = grid_blocks (kmu_grid_dim k))"
proof -
  let ?i = "intra_offset k" and ?c = "kmu_cluster_dim k" and ?g = "kmu_grid_dim k" and ?o = "group_origin k"
  have lt: "nx ?i < nx ?c" "ny ?i < ny ?c" "nz ?i < nz ?c" using wrap by simp_all
  have dv: "nx ?c dvd nx ?o" "ny ?c dvd ny ?o" "nz ?c dvd nz ?o" "nx ?c dvd nx ?g" "ny ?c dvd ny ?g" "nz ?c dvd nz ?g"
    "nx ?o < nx ?g" "ny ?o < ny ?g" "nz ?o < nz ?g" "0 < nx ?c" "0 < ny ?c" "0 < nz ?c"
    using ok by (auto simp: walk_ok_def pos_ok_def cluster_divides_def Let_def)
  note mx = multiple_next[OF dv(1,4,7,10)] and my = multiple_next[OF dv(2,5,8,11)] and mz = multiple_next[OF dv(3,6,9,12)]
  note ax = u32_add[OF mx(1)] and ay = u32_add[OF my(1)] and az = u32_add[OF mz(1)]
  let ?k0 = "k\<lparr>kmu_cta_id := kmu_cta_id k + 1, intra_offset := ?i\<lparr>dim_x := 0, dim_y := 0, dim_z := 0\<rparr>\<rparr>"
  have adv: "kmu_advance k = advance_group ?k0"
    using wrap u32_incr(2)[OF lt(1)] u32_incr(2)[OF lt(2)] u32_incr(2)[OF lt(3)]
    by (simp add: kmu_advance_def Let_def)
  have zero: "?i\<lparr>dim_x := 0, dim_y := 0, dim_z := 0\<rparr> = mk_dim3 0 0 0" by (simp add: mk_dim3_def)
  have dvs: "nx ?c dvd nx ?o + nx ?c" "ny ?c dvd ny ?o + ny ?c" "nz ?c dvd nz ?o + nz ?c" using dv by auto
  consider (x) "nx ?o + nx ?c \<noteq> nx ?g" | (y) "nx ?o + nx ?c = nx ?g" "ny ?o + ny ?c \<noteq> ny ?g"
    | (z) "nx ?o + nx ?c = nx ?g" "ny ?o + ny ?c = ny ?g" "nz ?o + nz ?c \<noteq> nz ?g"
    | (last) "nx ?o + nx ?c = nx ?g" "ny ?o + ny ?c = ny ?g" "nz ?o + nz ?c = nz ?g" by blast
  then show ?thesis
  proof cases
    case 1: x
    have a: "kmu_advance k = ?k0\<lparr>group_origin := ?o\<lparr>dim_x := dim_x ?o + dim_x ?c\<rparr>\<rparr>"
      using 1 ax(2) by (simp add: adv advance_group_def Let_def)
    have "walk_ok (kmu_advance k) \<and> kmu_rank (kmu_advance k) = kmu_rank k + 1"
      by (rule group_move[OF ok wrap]) (use 1 a dv dvs mx ax(1) in \<open>auto simp: mixed3_def mk_dim3_def Let_def\<close>)
    then show ?thesis using a by simp
  next
    case 2: y
    have a: "kmu_advance k = ?k0\<lparr>group_origin := ?o\<lparr>dim_x := 0, dim_y := dim_y ?o + dim_y ?c\<rparr>\<rparr>"
      using 2 ax(2) ay(2) by (simp add: adv advance_group_def Let_def)
    have "walk_ok (kmu_advance k) \<and> kmu_rank (kmu_advance k) = kmu_rank k + 1"
      by (rule group_move[OF ok wrap]) (use 2 a dv dvs my mx(3) ay(1) in \<open>auto simp: mixed3_def mk_dim3_def Let_def algebra_simps\<close>)
    then show ?thesis using a by simp
  next
    case 3: z
    have a: "kmu_advance k = ?k0\<lparr>group_origin := ?o\<lparr>dim_x := 0, dim_y := 0, dim_z := dim_z ?o + dim_z ?c\<rparr>\<rparr>"
      using 3 ax(2) ay(2) az(2) by (simp add: adv advance_group_def Let_def)
    have "walk_ok (kmu_advance k) \<and> kmu_rank (kmu_advance k) = kmu_rank k + 1"
      by (rule group_move[OF ok wrap]) (use 3 a dv dvs mz mx(3) my(3) az(1) in \<open>auto simp: mixed3_def mk_dim3_def Let_def algebra_simps\<close>)
    then show ?thesis using a by simp
  next
    case 4: last
    have "\<not> kmu_running (kmu_advance k)"
      using 4 ax(2) ay(2) az(2) by (simp add: adv advance_group_def Let_def)
    moreover have "kmu_rank k + 1 = grid_blocks ?g"
    proof -
      have p: "pos_ok k" using ok by (simp add: walk_ok_def)
      have i: "mixed3 (nx ?c) (ny ?c) (nx ?i) (ny ?i) (nz ?i) + 1 = nx ?c * ny ?c * nz ?c"
        by (rule mixed3_last[OF wrap])
      have gr: "mixed3 (nx ?g div nx ?c) (ny ?g div ny ?c) (nx ?o div nx ?c) (ny ?o div ny ?c) (nz ?o div nz ?c) + 1
          = (nx ?g div nx ?c) * (ny ?g div ny ?c) * (nz ?g div nz ?c)"
        by (rule mixed3_last) (use mx(3) my(3) mz(3) 4 in simp_all)
      have "kmu_rank k + 1 = nx ?c * ny ?c * nz ?c * ((nx ?g div nx ?c) * (ny ?g div ny ?c) * (nz ?g div nz ?c))"
        unfolding kmu_rank_eq[OF p] Let_def gr[symmetric] using i by (simp add: algebra_simps)
      also have "\<dots> = (nx ?c * (nx ?g div nx ?c)) * (ny ?c * (ny ?g div ny ?c)) * (nz ?c * (nz ?g div nz ?c))" by simp
      also have "\<dots> = grid_blocks ?g" using dv by (simp add: grid_blocks_def)
      finally show ?thesis .
    qed
    ultimately show ?thesis by blast
  qed
qed

lemma kmu_advance_cases:
  assumes "walk_ok k"
  obtains (next_pos) "walk_ok (kmu_advance k)" "kmu_rank (kmu_advance k) = kmu_rank k + 1" "kmu_running (kmu_advance k) = kmu_running k"
  | (finished) "\<not> kmu_running (kmu_advance k)" "kmu_rank k + 1 = grid_blocks (kmu_grid_dim k)"
proof -
  let ?i = "intra_offset k" and ?c = "kmu_cluster_dim k"
  have lt: "nx ?i < nx ?c" "ny ?i < ny ?c" "nz ?i < nz ?c"
    using assms by (auto simp: walk_ok_def pos_ok_def Let_def)
  show ?thesis
  proof (cases "dim_x ?i + 1 = dim_x ?c \<and> dim_y ?i + 1 = dim_y ?c \<and> dim_z ?i + 1 = dim_z ?c")
    case True
    then show ?thesis
      using advance_group_step[OF assms] u32_incr(2)[OF lt(1)] u32_incr(2)[OF lt(2)] u32_incr(2)[OF lt(3)] that by auto
  next
    case False
    then show ?thesis using advance_intra[OF assms] that by auto
  qed
qed

section \<open>The whole walk\<close>

definition in_grid :: "dim3 \<Rightarrow> dim3 \<Rightarrow> bool" where
  "in_grid g b \<longleftrightarrow> nx b < nx g \<and> ny b < ny g \<and> nz b < nz g"

definition rank_of :: "kmu \<Rightarrow> dim3 \<Rightarrow> nat" where
  "rank_of k b = block_rank (kmu_cluster_dim k) (kmu_grid_dim k) (nx b) (ny b) (nz b)"

lemma dim3_eqI: "nx a = nx b \<Longrightarrow> ny a = ny b \<Longrightarrow> nz a = nz b \<Longrightarrow> a = (b :: dim3)"
  by (rule dim3.equality) (simp_all add: word_unat_eq_iff)

lemma rank_of_inj:
  assumes "cluster_divides (kmu_cluster_dim k) (kmu_grid_dim k)"
    "in_grid (kmu_grid_dim k) a" "in_grid (kmu_grid_dim k) b" "rank_of k a = rank_of k b"
  shows "a = b"
  using block_rank_inj[OF assms(1), of "nx a" "ny a" "nz a" "nx b" "ny b" "nz b"] assms
  by (auto simp: rank_of_def in_grid_def intro: dim3_eqI)

lemma kmu_block_idx_ok:
  assumes "walk_ok k"
  shows "in_grid (kmu_grid_dim k) (kmu_block_idx k)" "rank_of k (kmu_block_idx k) = kmu_rank k"
proof -
  let ?i = "intra_offset k" and ?c = "kmu_cluster_dim k" and ?g = "kmu_grid_dim k" and ?o = "group_origin k"
  have sum: "og + i < g" if "c dvd og" "c dvd g" "og < g" "i < c" for og i c g :: nat
    using multiple_next(1)[of c og g] that by simp
  have lt: "nx ?o + nx ?i < nx ?g" "ny ?o + ny ?i < ny ?g" "nz ?o + nz ?i < nz ?g"
    using assms by (auto simp: walk_ok_def pos_ok_def cluster_divides_def Let_def intro: sum)
  have "nx (kmu_block_idx k) = nx ?o + nx ?i" "ny (kmu_block_idx k) = ny ?o + ny ?i" "nz (kmu_block_idx k) = nz ?o + nz ?i"
    using u32_add(1)[OF less_imp_le[OF lt(1)]] u32_add(1)[OF less_imp_le[OF lt(2)]] u32_add(1)[OF less_imp_le[OF lt(3)]]
    by (simp_all add: kmu_block_idx_def mk_dim3_def)
  then show "in_grid (kmu_grid_dim k) (kmu_block_idx k)" "rank_of k (kmu_block_idx k) = kmu_rank k"
    using lt by (simp_all add: in_grid_def rank_of_def kmu_rank_def)
qed

lemma kmu_run_ranks:
  assumes "walk_ok k" "kmu_running k" "grid_blocks (kmu_grid_dim k) \<le> kmu_rank k + n"
  shows "map (rank_of k \<circ> req_block_idx) (fst (kmu_run n k)) = [kmu_rank k..<grid_blocks (kmu_grid_dim k)]
    \<and> (\<forall>r \<in> set (fst (kmu_run n k)). in_grid (kmu_grid_dim k) (req_block_idx r))
    \<and> \<not> kmu_running (snd (kmu_run n k))"
  using assms
proof (induction n arbitrary: k)
  case 0
  then show ?case using kmu_rank_less[of k] by simp
next
  case (Suc n)
  let ?k' = "kmu_advance k"
  have step: "kmu_step k = Some (kmu_request k, ?k')" using Suc.prems by (simp add: kmu_step_def)
  have run: "fst (kmu_run (Suc n) k) = kmu_request k # fst (kmu_run n ?k')" "snd (kmu_run (Suc n) k) = snd (kmu_run n ?k')"
    by (simp_all add: step split: prod.splits)
  have bi: "req_block_idx (kmu_request k) = kmu_block_idx k" by (simp add: kmu_request_def)
  have ro: "rank_of ?k' = rank_of k" by (auto simp: rank_of_def fun_eq_iff)
  have lt: "kmu_rank k < grid_blocks (kmu_grid_dim k)" using Suc.prems(1) by (rule kmu_rank_less)
  show ?case
  proof (cases rule: kmu_advance_cases[OF Suc.prems(1)])
    case 1
    then have IH: "map (rank_of k \<circ> req_block_idx) (fst (kmu_run n ?k')) = [kmu_rank k + 1..<grid_blocks (kmu_grid_dim k)]"
      "\<forall>r \<in> set (fst (kmu_run n ?k')). in_grid (kmu_grid_dim k) (req_block_idx r)" "\<not> kmu_running (snd (kmu_run n ?k'))"
      using Suc.IH[of ?k'] Suc.prems ro by (auto simp: comp_def)
    then show ?thesis using lt kmu_block_idx_ok[OF Suc.prems(1)] by (simp add: run bi upt_conv_Cons comp_def del: kmu_run.simps)
  next
    case 2
    then have "kmu_run n ?k' = ([], ?k')" by (cases n) (simp_all add: kmu_step_def)
    then show ?thesis using 2 lt kmu_block_idx_ok[OF Suc.prems(1)]
      by (simp add: run bi upt_conv_Cons comp_def del: kmu_run.simps)
  qed
qed

lemma kmu_start_walk_ok:
  assumes "kmu_running (kmu_start k)" "cluster_divides (kmu_cluster_dim k) (kmu_grid_dim k)"
  shows "walk_ok (kmu_start k)" "kmu_rank (kmu_start k) = 0"
    "kmu_grid_dim (kmu_start k) = kmu_grid_dim k" "kmu_cluster_dim (kmu_start k) = kmu_cluster_dim k"
proof -
  show 1: "walk_ok (kmu_start k)"
    using assms by (auto simp: kmu_start_def Let_def walk_ok_def pos_ok_def mk_dim3_def cluster_divides_def
        word_less_nat_alt split: if_splits)
  show "kmu_rank (kmu_start k) = 0"
    using assms by (auto simp: kmu_rank_def block_rank_def kmu_start_def Let_def mk_dim3_def mixed3_def split: if_splits)
qed (simp_all add: kmu_start_def Let_def)

lemma kmu_walk_complete:
  assumes "kmu_running (kmu_start k)" "cluster_divides (kmu_cluster_dim k) (kmu_grid_dim k)"
    and "grid_blocks (kmu_grid_dim k) \<le> n"
  shows "length (fst (kmu_run n (kmu_start k))) = grid_blocks (kmu_grid_dim k)
     \<and> distinct (map req_block_idx (fst (kmu_run n (kmu_start k))))
     \<and> req_block_idx ` set (fst (kmu_run n (kmu_start k))) = {b. in_grid (kmu_grid_dim k) b}
     \<and> \<not> kmu_running (snd (kmu_run n (kmu_start k)))"
proof -
  let ?s = "kmu_start k" and ?rs = "fst (kmu_run n (kmu_start k))" and ?g = "kmu_grid_dim k"
  note s = kmu_start_walk_ok[OF assms(1,2)]
  have run: "map (rank_of ?s \<circ> req_block_idx) ?rs = [0..<grid_blocks ?g]"
    "\<forall>r \<in> set ?rs. in_grid ?g (req_block_idx r)" "\<not> kmu_running (snd (kmu_run n ?s))"
    using kmu_run_ranks[OF s(1) assms(1), of n] s assms(3) by auto
  have len: "length ?rs = grid_blocks ?g" using arg_cong[OF run(1), of length] by simp
  have "distinct (map (rank_of ?s \<circ> req_block_idx) ?rs)" by (simp only: run(1)) simp
  then have dist: "distinct (map req_block_idx ?rs)" unfolding distinct_map by (blast intro: inj_on_imageI2)
  have "b \<in> req_block_idx ` set ?rs" if b: "in_grid ?g b" for b
  proof -
    have "rank_of ?s b < grid_blocks ?g"
      using block_rank_less[OF assms(2)] b s by (simp add: rank_of_def in_grid_def)
    then have "rank_of ?s b \<in> set (map (rank_of ?s \<circ> req_block_idx) ?rs)" by (simp only: run(1)) simp
    then obtain r where r: "r \<in> set ?rs" "rank_of ?s (req_block_idx r) = rank_of ?s b" by auto
    then have "req_block_idx r = b"
      using rank_of_inj[of ?s "req_block_idx r" b] assms(2) run(2) b s by auto
    then show ?thesis using r by blast
  qed
  then show ?thesis using len dist run by auto
qed

text \<open>
  C5.  A launched kernel whose cluster dimensions divide its grid dimensions hands out every block
  of the grid exactly once and no other block, and then stops.
\<close>

theorem kmu_visits_grid_once:
  assumes "kmu_running (kmu_start k)" "cluster_divides (kmu_cluster_dim k) (kmu_grid_dim k)"
    and "grid_blocks (kmu_grid_dim k) \<le> n"
  shows "length (fst (kmu_run n (kmu_start k))) = grid_blocks (kmu_grid_dim k)
     \<and> distinct (map req_block_idx (fst (kmu_run n (kmu_start k))))
     \<and> req_block_idx ` set (fst (kmu_run n (kmu_start k))) = {b. in_grid (kmu_grid_dim k) b}
     \<and> \<not> kmu_running (snd (kmu_run n (kmu_start k)))"
  by (rule kmu_walk_complete[OF assms])

text \<open>The witness: a grid of 4 x 2 x 1 blocks walked in clusters of 2 x 1 x 1.\<close>

theorem kmu_visits_grid_once_witness:
  "length (fst (kmu_run 8 (kmu_start (kmu_init\<lparr>kmu_block_size := 4, kmu_grid_dim := mk_dim3 4 2 1,
     kmu_cluster_dim := mk_dim3 2 1 1\<rparr>)))) = 8"
proof -
  let ?k = "kmu_init\<lparr>kmu_block_size := 4, kmu_grid_dim := mk_dim3 4 2 1, kmu_cluster_dim := mk_dim3 2 1 1\<rparr>"
  have 1: "kmu_running (kmu_start ?k)" by (simp add: kmu_start_def kmu_init_def mk_dim3_def)
  have 2: "cluster_divides (kmu_cluster_dim ?k) (kmu_grid_dim ?k)"
    by (simp add: cluster_divides_def mk_dim3_def)
  have 3: "grid_blocks (kmu_grid_dim ?k) = 8" by (simp add: grid_blocks_def mk_dim3_def)
  show ?thesis using kmu_visits_grid_once[OF 1 2, of 8] 3 by simp
qed

end
