(* ===== verification/Cta_Dispatcher.thy ===== *)
theory Cta_Dispatcher
  imports Thread_Mask Kmu "HOL-Library.Multiset"
begin

text \<open>
  The CTA dispatcher of a core, \<open>src/vortex/sim/simx/cta_dispatcher.cpp\<close>: it takes CTAs from the
  kernel management unit, gives each one a slot of the local memory and launches its warps one per
  \<open>step\<close> into free warp slots.  The build configuration (\<open>VX_CFG_*\<close>) is the record \<open>disp_cfg\<close>.  The
  type variable \<open>'w\<close> is the machine word \<open>Word\<close> (\<open>XLEN\<close> bits); \<open>ThreadMask\<close> is \<open>BitVector<Word>\<close>;
  \<open>WarpMask\<close>, a \<open>std::bitset\<close>, is the set of its bit positions.

  The vectors of the class are accessed without a bounds check in the code: an access outside is
  \<open>None\<close> here, and so is a failed \<open>assert\<close>.  The lemmas show that neither happens, that every slot
  counts exactly the warps that still hold it, that the warps of a CTA cover its threads once and
  with the right thread index, and that the CTAs of a cluster get consecutive slots.
\<close>

section \<open>State\<close>

type_synonym warp_mask = "nat set"

record disp_cfg =
  cfg_num_threads :: u32
  cfg_num_warps :: u32
  cfg_lmem_base :: u64
  cfg_lmem_capacity :: u32
  cfg_mem_block_size :: u32

record (overloaded) 'w cta_warp_record_t =
  rec_do_init :: bool
  rec_PC :: "'w::len word"
  rec_entry :: "'w word"
  rec_tmask :: "'w bitvector"
  rec_mscratch :: "'w word"
  rec_cta_id :: u32
  rec_cta_rank :: u32
  rec_cta_size :: u32
  rec_thread_idx :: dim3
  rec_block_idx :: dim3
  rec_block_dim :: dim3
  rec_grid_dim :: dim3
  rec_param :: u64
  rec_lmem_addr :: u64
  rec_cluster_size :: u32

record (overloaded) 'w cta_dispatcher =
  slot_rem_warps :: "u32 list"
  wid_to_slot :: "u32 list"
  tail_slot :: u32
  has_cta :: bool
  cur_slot :: u32
  cta :: kmu_req_t
  cta_size :: u32
  cta_rank :: u32
  block_size_rem :: u32
  thread_idx :: dim3
  lmem_addr :: u64
  has_pending :: bool
  pending_cta :: kmu_req_t
  cur_kernel_pc :: "'w::len word"
  warp_init_mask :: "bool list"

definition no_req :: kmu_req_t where
  "no_req = \<lparr>req_PC = 0, req_entry = 0, req_param = 0, req_cta_id = 0, req_block_idx = mk_dim3 0 0 0,
     req_block_dim = mk_dim3 0 0 0, req_grid_dim = mk_dim3 0 0 0, req_lmem_size = 0, req_block_size = 0,
     req_warp_step = mk_dim3 0 0 0, req_cluster_dim = mk_dim3 0 0 0, req_is_first_of_cluster = False\<rparr>"

definition dispatcher_init :: "disp_cfg \<Rightarrow> 'w::len cta_dispatcher" where
  "dispatcher_init cfg = \<lparr>slot_rem_warps = replicate (unat (cfg_num_warps cfg)) 0,
     wid_to_slot = replicate (unat (cfg_num_warps cfg)) (cfg_num_warps cfg), tail_slot = 0,
     has_cta = False, cur_slot = 0, cta = no_req, cta_size = 0, cta_rank = 0, block_size_rem = 0,
     thread_idx = mk_dim3 0 0 0, lmem_addr = 0, has_pending = False, pending_cta = no_req,
     cur_kernel_pc = 0, warp_init_mask = replicate (unat (cfg_num_warps cfg)) False\<rparr>"

definition dispatcher_on_reset :: "disp_cfg \<Rightarrow> 'w::len cta_dispatcher \<Rightarrow> 'w cta_dispatcher" where
  "dispatcher_on_reset cfg d = d\<lparr>has_cta := False, has_pending := False, tail_slot := 0,
     slot_rem_warps := replicate (unat (cfg_num_warps cfg)) 0,
     wid_to_slot := replicate (unat (cfg_num_warps cfg)) (cfg_num_warps cfg),
     warp_init_mask := replicate (unat (cfg_num_warps cfg)) False,
     cur_kernel_pc := 0\<rparr>"

section \<open>Operations\<close>

definition usable_slots :: "disp_cfg \<Rightarrow> u32 \<Rightarrow> u32" where
  "usable_slots cfg stride =
     (if stride = 0 then cfg_num_warps cfg
      else let fit0 = cfg_lmem_capacity cfg div stride;
               fit = (if fit0 > cfg_num_warps cfg then cfg_num_warps cfg else fit0)
           in if fit = 0 then 1 else fit)"

definition slot_stride :: "disp_cfg \<Rightarrow> u32 \<Rightarrow> u32" where
  "slot_stride cfg lmem_size = (lmem_size + cfg_mem_block_size cfg - 1) AND NOT (cfg_mem_block_size cfg - 1)"

text \<open>The loop over the window of a cluster: true when all \<open>k\<close> slots from \<open>base\<close> are free.\<close>

fun window_free :: "u32 list \<Rightarrow> u32 \<Rightarrow> nat \<Rightarrow> nat \<Rightarrow> bool option" where
  "window_free slots base i 0 = Some True"
| "window_free slots base i (Suc n) =
     do {
       r \<leftarrow> vec_get slots (unat (base + of_nat i));
       if r \<noteq> 0 then Some False else window_free slots base (i + 1) n
     }"

definition cluster_volume :: "kmu_req_t \<Rightarrow> u32" where
  "cluster_volume r = dim_x (req_cluster_dim r) * dim_y (req_cluster_dim r) * dim_z (req_cluster_dim r)"

text \<open>Admission of the pending CTA: the slot it gets, or \<open>None\<close> inside when it has to wait.\<close>

definition admit_slot :: "disp_cfg \<Rightarrow> 'w::len cta_dispatcher \<Rightarrow> u32 \<Rightarrow> u32 option option" where
  "admit_slot cfg d max_slots =
     (let base0 = tail_slot d
      in if req_is_first_of_cluster (pending_cta d) then
           let k0 = cluster_volume (pending_cta d);
               k1 = (if k0 = 0 then 1 else k0);
               base = (if base0 + k1 > max_slots then 0 else base0);
               k = (if k1 > max_slots then max_slots else k1)
           in do {
                free \<leftarrow> window_free (slot_rem_warps d) base 0 (unat k);
                Some (if free then Some base else None)
              }
         else do {
                r \<leftarrow> vec_get (slot_rem_warps d) (unat base0);
                Some (if r \<noteq> 0 then None else Some base0)
              })"

definition accept_cta :: "disp_cfg \<Rightarrow> 'w::len cta_dispatcher \<Rightarrow> u32 \<Rightarrow> u32 \<Rightarrow> u32 \<Rightarrow> 'w cta_dispatcher option" where
  "accept_cta cfg d base stride max_slots =
     (let new_kernel = (req_PC (pending_cta d) \<noteq> ucast (cur_kernel_pc d));
          d1 = (if new_kernel then d\<lparr>cur_kernel_pc := ucast (req_PC (pending_cta d)),
                                    warp_init_mask := replicate (length (warp_init_mask d)) False\<rparr> else d);
          c = pending_cta d;
          size = (req_block_size c + cfg_num_threads cfg - 1) div cfg_num_threads cfg
      in do {
           slots \<leftarrow> vec_put (slot_rem_warps d1) (unat base) size;
           Some (d1\<lparr>cta := c, has_pending := False, cta_size := size, cta_rank := 0,
                    block_size_rem := req_block_size c, thread_idx := mk_dim3 0 0 0,
                    cur_slot := base, lmem_addr := cfg_lmem_base cfg + ucast base * ucast stride,
                    slot_rem_warps := slots, tail_slot := (base + 1) mod max_slots, has_cta := True\<rparr>)
         })"

text \<open>The CTA to place next: the one that is pending, else one fetched from the grid walk.\<close>

definition fetch_cta :: "kmu \<Rightarrow> 'w::len cta_dispatcher \<Rightarrow> (kmu \<times> 'w cta_dispatcher) option" where
  "fetch_cta k d =
     (if has_pending d then Some (k, d)
      else case kmu_step k of None \<Rightarrow> None
           | Some (r, k') \<Rightarrow> Some (k', d\<lparr>pending_cta := r, has_pending := True\<rparr>))"

text \<open>
  The block of \<open>step\<close> that runs when no CTA is in flight.  The Boolean is false when \<open>step\<close> returns
  false there; the fetched CTA stays pending in that case.
\<close>

definition load_cta :: "disp_cfg \<Rightarrow> kmu \<Rightarrow> 'w::len cta_dispatcher \<Rightarrow> (bool \<times> kmu \<times> 'w cta_dispatcher) option" where
  "load_cta cfg k d =
     (case fetch_cta k d of
        None \<Rightarrow> Some (False, k, d)
      | Some (k1, d1) \<Rightarrow>
          let stride = slot_stride cfg (req_lmem_size (pending_cta d1));
              max_slots = usable_slots cfg stride;
              d2 = (if tail_slot d1 \<ge> max_slots then d1\<lparr>tail_slot := 0\<rparr> else d1)
          in do {
               slot \<leftarrow> admit_slot cfg d2 max_slots;
               (case slot of
                  None \<Rightarrow> Some (False, k1, d2)
                | Some base \<Rightarrow> do { d3 \<leftarrow> accept_cta cfg d2 base stride max_slots; Some (True, k1, d3) })
             })"

text \<open>The mask of a warp: lanes below \<open>active\<close> are set in a fresh vector of \<open>num_threads\<close> lanes.\<close>

definition warp_tmask :: "nat \<Rightarrow> nat \<Rightarrow> 'w::len bitvector option" where
  "warp_tmask nt active = fold (\<lambda>t acc. Option.bind acc (\<lambda>m. bv_set m t)) [0..<active]
     (Some (bv_resize (bv_new 0) nt))"

definition next_thread_idx :: "dim3 \<Rightarrow> dim3 \<Rightarrow> dim3 \<Rightarrow> dim3" where
  "next_thread_idx ws bd t =
     (let next_x = dim_x t + dim_x ws;
          wrap_x = (next_x \<ge> dim_x bd);
          next_y = dim_y t + dim_y ws + (if wrap_x then 1 else 0);
          wrap_y = (next_y \<ge> dim_y bd)
      in mk_dim3 (if wrap_x then next_x - dim_x bd else next_x)
                 (if wrap_y then next_y - dim_y bd else next_y)
                 (dim_z t + dim_z ws + (if wrap_y then 1 else 0)))"

definition active_lanes :: "disp_cfg \<Rightarrow> u32 \<Rightarrow> u32" where
  "active_lanes cfg remaining = (if remaining \<ge> cfg_num_threads cfg then cfg_num_threads cfg else remaining)"

definition next_warp :: "disp_cfg \<Rightarrow> bool \<Rightarrow> 'w::len cta_dispatcher
    \<Rightarrow> ('w cta_warp_record_t option \<times> 'w cta_dispatcher) option" where
  "next_warp cfg do_init d =
     (if \<not> has_cta d then Some (None, d)
      else let c = cta d; active = active_lanes cfg (block_size_rem d) in
        do {
          tm \<leftarrow> warp_tmask (unat (cfg_num_threads cfg)) (unat active);
          let rec = \<lparr>rec_do_init = do_init, rec_PC = ucast (req_PC c), rec_entry = ucast (req_entry c),
                rec_tmask = tm, rec_mscratch = ucast (req_param c), rec_cta_id = cur_slot d,
                rec_cta_rank = cta_rank d, rec_cta_size = cta_size d, rec_thread_idx = thread_idx d,
                rec_block_idx = req_block_idx c, rec_block_dim = req_block_dim c,
                rec_grid_dim = req_grid_dim c, rec_param = req_param c, rec_lmem_addr = lmem_addr d,
                rec_cluster_size = cluster_volume c\<rparr>;
          let d1 = d\<lparr>thread_idx := next_thread_idx (req_warp_step c) (req_block_dim c) (thread_idx d),
                block_size_rem := block_size_rem d - active, cta_rank := cta_rank d + 1\<rparr>;
          Some (Some rec, if cta_rank d1 \<ge> cta_size d1 then d1\<lparr>has_cta := False\<rparr> else d1)
        })"

text \<open>The lowest warp slot that is not active.\<close>

definition free_wid :: "disp_cfg \<Rightarrow> warp_mask \<Rightarrow> nat option" where
  "free_wid cfg active_warps = List.find (\<lambda>wid. wid \<notin> active_warps) [0..<unat (cfg_num_warps cfg)]"

definition dispatcher_step :: "disp_cfg \<Rightarrow> warp_mask \<Rightarrow> kmu \<Rightarrow> 'w::len cta_dispatcher
    \<Rightarrow> ((nat \<times> 'w cta_warp_record_t) option \<times> kmu \<times> 'w cta_dispatcher) option" where
  "dispatcher_step cfg active_warps k d =
     do {
       (ok, k1, d1) \<leftarrow> (if has_cta d then Some (True, k, d) else load_cta cfg k d);
       if \<not> ok then Some (None, k1, d1)
       else (case free_wid cfg active_warps of
               None \<Rightarrow> Some (None, k1, d1)
             | Some wid \<Rightarrow>
                 do {
                   inited \<leftarrow> vec_get (warp_init_mask d1) wid;
                   (out, d2) \<leftarrow> next_warp cfg (\<not> inited) d1;
                   (case out of
                      None \<Rightarrow> Some (None, k1, d2)
                    | Some rec \<Rightarrow>
                        do {
                          im \<leftarrow> vec_put (warp_init_mask d2) wid True;
                          ws \<leftarrow> vec_put (wid_to_slot d2) wid (cur_slot d2);
                          Some (Some (wid, rec), k1, d2\<lparr>warp_init_mask := im, wid_to_slot := ws\<rparr>)
                        })
                 })
     }"

definition warp_done :: "disp_cfg \<Rightarrow> 'w::len cta_dispatcher \<Rightarrow> nat \<Rightarrow> 'w cta_dispatcher option" where
  "warp_done cfg d wid =
     do {
       slot \<leftarrow> vec_get (wid_to_slot d) wid;
       if slot \<ge> cfg_num_warps cfg then Some d
       else do {
         ws \<leftarrow> vec_put (wid_to_slot d) wid (cfg_num_warps cfg);
         r \<leftarrow> vec_get (slot_rem_warps d) (unat slot);
         if \<not> 0 < r then None
         else do {
           slots \<leftarrow> vec_put (slot_rem_warps d) (unat slot) (r - 1);
           Some (d\<lparr>wid_to_slot := ws, slot_rem_warps := slots\<rparr>)
         }
       }
     }"

definition dispatcher_running :: "kmu \<Rightarrow> 'w::len cta_dispatcher \<Rightarrow> bool" where
  "dispatcher_running k d \<longleftrightarrow> has_cta d \<or> has_pending d \<or> kmu_running k"

section \<open>Slot accounting\<close>

definition cfg_ok :: "disp_cfg \<Rightarrow> bool" where
  "cfg_ok cfg \<longleftrightarrow> 0 < cfg_num_threads cfg \<and> 0 < cfg_num_warps cfg"

abbreviation NW :: "disp_cfg \<Rightarrow> nat" where "NW cfg \<equiv> unat (cfg_num_warps cfg)"
abbreviation NT :: "disp_cfg \<Rightarrow> nat" where "NT cfg \<equiv> unat (cfg_num_threads cfg)"

definition holders :: "u32 list \<Rightarrow> nat \<Rightarrow> nat set" where
  "holders ws s = {w. w < length ws \<and> unat (ws ! w) = s}"

definition to_launch :: "'w::len cta_dispatcher \<Rightarrow> nat \<Rightarrow> nat" where
  "to_launch d s = (if has_cta d \<and> unat (cur_slot d) = s then unat (cta_size d) - unat (cta_rank d) else 0)"

text \<open>Every slot counts the warps that hold it and the warps its CTA still has to launch.\<close>

definition disp_ok :: "disp_cfg \<Rightarrow> 'w::len cta_dispatcher \<Rightarrow> bool" where
  "disp_ok cfg d \<longleftrightarrow> length (slot_rem_warps d) = NW cfg \<and> length (wid_to_slot d) = NW cfg
     \<and> length (warp_init_mask d) = NW cfg
     \<and> (has_cta d \<longrightarrow> unat (cur_slot d) < NW cfg \<and> cta_rank d < cta_size d)
     \<and> (\<forall>s < NW cfg. unat (slot_rem_warps d ! s) = card (holders (wid_to_slot d) s) + to_launch d s)"

lemma finite_holders [simp]: "finite (holders ws s)"
  by (rule finite_subset[of _ "{..<length ws}"]) (auto simp: holders_def)

lemma holders_update:
  assumes "w < length ws"
  shows "holders (ws[w := v]) s = (if unat v = s then insert w (holders ws s) else holders ws s - {w})"
  using assms by (auto simp: holders_def nth_list_update)

lemma holders_replicate: "s \<noteq> unat v \<Longrightarrow> holders (replicate n v) s = {}"
  by (auto simp: holders_def)

lemma disp_ok_reset: "disp_ok cfg (dispatcher_init cfg)" "disp_ok cfg (dispatcher_on_reset cfg d)"
  by (auto simp: disp_ok_def dispatcher_init_def dispatcher_on_reset_def to_launch_def holders_replicate)

lemma usable_slots_bounds:
  assumes "cfg_ok cfg"
  shows "0 < usable_slots cfg stride" "usable_slots cfg stride \<le> cfg_num_warps cfg"
proof -
  have 1: "1 \<le> cfg_num_warps cfg" using assms by (simp add: cfg_ok_def word_le_nat_alt Suc_le_eq unat_gt_0 word_gt_0)
  show "0 < usable_slots cfg stride" "usable_slots cfg stride \<le> cfg_num_warps cfg"
    using assms 1 by (auto simp: usable_slots_def Let_def cfg_ok_def word_gt_0 not_less)
qed

text \<open>A warp that exits never underflows its slot.\<close>

lemma warp_done_ok:
  assumes ok: "disp_ok cfg d" and w: "w < NW cfg"
  shows "\<exists>ws sr. warp_done cfg d w = Some (d\<lparr>wid_to_slot := ws, slot_rem_warps := sr\<rparr>)
     \<and> disp_ok cfg (d\<lparr>wid_to_slot := ws, slot_rem_warps := sr\<rparr>)
     \<and> NW cfg \<le> unat (ws ! w) \<and> (\<forall>v. v \<noteq> w \<longrightarrow> ws ! v = wid_to_slot d ! v)
     \<and> (\<forall>s < NW cfg. slot_rem_warps d ! s = 0 \<longrightarrow> sr ! s = 0)"
proof (cases "cfg_num_warps cfg \<le> wid_to_slot d ! w")
  case True
  have "d\<lparr>wid_to_slot := wid_to_slot d, slot_rem_warps := slot_rem_warps d\<rparr> = d" by simp
  moreover have "warp_done cfg d w = Some d" using True ok w by (simp add: warp_done_def disp_ok_def vec_in_range)
  ultimately show ?thesis using True ok by (metis word_le_nat_alt)
next
  case False
  let ?ws = "(wid_to_slot d)[w := cfg_num_warps cfg]"
  define s where "s = unat (wid_to_slot d ! w)"
  define r where "r = slot_rem_warps d ! s"
  have len: "length (slot_rem_warps d) = NW cfg" "length (wid_to_slot d) = NW cfg" using ok by (simp_all add: disp_ok_def)
  have s: "s < NW cfg" using False by (simp add: s_def word_le_nat_alt)
  have mem: "w \<in> holders (wid_to_slot d) s" using w len by (simp add: holders_def s_def)
  then have pos: "0 < card (holders (wid_to_slot d) s)" by (auto simp: card_gt_0_iff)
  have cnt: "unat r = card (holders (wid_to_slot d) s) + to_launch d s"
    using ok s unfolding disp_ok_def r_def by blast
  then have r0: "0 < r" using pos by (simp add: word_less_nat_alt)
  let ?sr = "(slot_rem_warps d)[s := r - 1]"
  have run: "warp_done cfg d w = Some (d\<lparr>wid_to_slot := ?ws, slot_rem_warps := ?sr\<rparr>)"
    using False s w r0 len unfolding s_def r_def by (simp add: warp_done_def vec_in_range)
  have less: "card (holders ?ws s') = (if s' = s then card (holders (wid_to_slot d) s) - 1 else card (holders (wid_to_slot d) s'))"
    if "s' < NW cfg" for s'
  proof -
    have "w \<notin> holders (wid_to_slot d) s'" if "s' \<noteq> s" using that by (simp add: holders_def s_def)
    then show ?thesis using mem that w len by (auto simp: holders_update)
  qed
  have r1: "unat (r - 1) = unat r - 1" using r0 by (simp add: unat_minus_one word_gt_0)
  have "unat (?sr ! s') = card (holders ?ws s') + to_launch d s'" if s': "s' < NW cfg" for s'
    using ok s' cnt pos r1 len s by (cases "s' = s") (auto simp: less disp_ok_def)
  then have "disp_ok cfg (d\<lparr>wid_to_slot := ?ws, slot_rem_warps := ?sr\<rparr>)"
    using ok unfolding disp_ok_def to_launch_def by simp
  moreover have "slot_rem_warps d ! s' = 0 \<longrightarrow> ?sr ! s' = 0" for s'
    using r0 s len by (cases "s' = s") (auto simp: r_def)
  moreover have "NW cfg \<le> unat (?ws ! w)" "\<forall>v. v \<noteq> w \<longrightarrow> ?ws ! v = wid_to_slot d ! v" using w len by simp_all
  ultimately show ?thesis using run by metis
qed

section \<open>Admission\<close>

lemma window_free_iff:
  assumes "unat base + (i + n) \<le> length slots" "length slots < 2 ^ 32"
  shows "window_free slots base i n = Some (\<forall>j < n. slots ! (unat base + i + j) = 0)"
  using assms
proof (induction n arbitrary: i)
  case (Suc n)
  have i: "unat (of_nat i :: u32) = i" using Suc.prems by (simp add: unat_of_nat)
  have "unat (base + of_nat i) = unat base + i" using Suc.prems by (subst unat_plus_no_wrap) (simp_all add: i)
  then have eq: "window_free slots base i (Suc n)
      = (if slots ! (unat base + i) \<noteq> 0 then Some False else window_free slots base (i + 1) n)"
    using Suc.prems by (simp add: vec_in_range)
  have IH: "window_free slots base (i + 1) n = Some (\<forall>j < n. slots ! (unat base + (i + 1) + j) = 0)"
    using Suc.prems by (intro Suc.IH) simp_all
  have "(\<forall>j < Suc n. slots ! (unat base + i + j) = 0) \<longleftrightarrow>
     slots ! (unat base + i) = 0 \<and> (\<forall>j < n. slots ! (unat base + (i + 1) + j) = 0)"
    by (simp add: All_less_Suc2 add.assoc)
  then show ?case unfolding eq IH by simp
qed simp

text \<open>
  What admission needs of a request: the window size does not wrap around in \<open>base + k\<close>, and the
  number of warps of the block is computed without overflow.
\<close>

definition cluster_fits :: "disp_cfg \<Rightarrow> kmu_req_t \<Rightarrow> bool" where
  "cluster_fits cfg r \<longleftrightarrow> NW cfg + unat (cluster_volume r) < 2 ^ 32"

definition block_fits :: "disp_cfg \<Rightarrow> u32 \<Rightarrow> bool" where
  "block_fits cfg B \<longleftrightarrow> 0 < B \<and> unat B + NT cfg < 2 ^ 32"

definition window_len :: "disp_cfg \<Rightarrow> kmu_req_t \<Rightarrow> u32 \<Rightarrow> nat" where
  "window_len cfg r max_slots = (if req_is_first_of_cluster r then
      min (max 1 (unat (cluster_volume r))) (unat max_slots) else 1)"

lemma admit_slot_ok:
  assumes cfg: "cfg_ok cfg" and ok: "disp_ok cfg d" and ms: "0 < max_slots" "max_slots \<le> cfg_num_warps cfg"
    and tail: "tail_slot d < max_slots" and cl: "cluster_fits cfg (pending_cta d)"
  obtains base where "base + window_len cfg (pending_cta d) max_slots \<le> unat max_slots"
    "base = unat (tail_slot d) \<or> base = 0 \<and> unat (tail_slot d) + window_len cfg (pending_cta d) max_slots > unat max_slots"
    "admit_slot cfg d max_slots = Some (if \<forall>j < window_len cfg (pending_cta d) max_slots. slot_rem_warps d ! (base + j) = 0
        then Some (of_nat base) else None)"
proof -
  let ?r = "pending_cta d"
  have len: "length (slot_rem_warps d) = NW cfg" using ok by (simp add: disp_ok_def)
  have nw: "NW cfg < 2 ^ 32" using unsigned_less[of "cfg_num_warps cfg"] by simp
  have msn: "unat max_slots \<le> NW cfg" "0 < unat max_slots" "unat (tail_slot d) < unat max_slots"
    using ms tail by (simp_all add: word_le_nat_alt word_less_nat_alt)
  show thesis
  proof (cases "req_is_first_of_cluster ?r")
    case False
    then show thesis using that[of "unat (tail_slot d)"] msn len
      by (simp add: admit_slot_def window_len_def vec_in_range)
  next
    case True
    define k1 where "k1 = (if cluster_volume ?r = 0 then 1 else cluster_volume ?r)"
    have k1: "unat k1 = max 1 (unat (cluster_volume ?r))"
      by (simp add: k1_def max_def Suc_le_eq unat_gt_0)
    define base where "base = (if tail_slot d + k1 > max_slots then 0 else tail_slot d)"
    define k where "k = (if k1 > max_slots then max_slots else k1)"
    have sum: "unat (tail_slot d + k1) = unat (tail_slot d) + unat k1"
      using cl msn k1 ms by (subst unat_plus_no_wrap) (auto simp: cluster_fits_def max_def)
    have kw: "unat k = window_len cfg ?r max_slots"
      using True k1 by (auto simp: k_def window_len_def min_def word_less_nat_alt)
    have bk: "unat base + unat k \<le> unat max_slots"
      using sum by (auto simp: base_def k_def word_less_nat_alt)
    have "admit_slot cfg d max_slots = Some (if \<forall>j < unat k. slot_rem_warps d ! (unat base + j) = 0 then Some base else None)"
      using True window_free_iff[of base 0 "unat k" "slot_rem_warps d"] bk msn len nw
      unfolding admit_slot_def k1_def[symmetric] base_def[symmetric] k_def[symmetric] Let_def by simp
    moreover have "unat base = unat (tail_slot d) \<or> unat base = 0 \<and> unat (tail_slot d) + window_len cfg ?r max_slots > unat max_slots"
      using sum kw unfolding base_def k_def
      by (cases "max_slots < k1"; cases "unat (tail_slot d) = 0") (auto simp: word_less_nat_alt split: if_splits)
    ultimately show thesis using that[of "unat base"] bk kw by simp
  qed
qed

text \<open>A freshly sized mask with its lowest lanes set.\<close>

lemma bv_resize_fresh: "bv_resize (bv_new 0) n = (bv_new n :: 'w::len bitvector)"
proof -
  have last0: "butlast (replicate k 0) @ [last (replicate k 0) AND x] = replicate k (0 :: 'w word)" if "0 < k" for k x
  proof -
    obtain m where "k = Suc m" using \<open>0 < k\<close> by (cases k) auto
    then have "replicate k (0 :: 'w word) = replicate m 0 @ [0]" by (simp add: replicate_append_same)
    then show ?thesis by simp
  qed
  have "0 < num_blocks TYPE('w) n" if "LENGTH('w) < n" using div_less_num_blocks[of 0 n, where 'w = 'w] that by simp
  then show ?thesis
    using last0[of "num_blocks TYPE('w) n"]
    by (auto simp: bv_resize_def bv_new_def Let_def vector_resize_def updateAllZero_def clearUnusedBits_def list_all_iff)
qed

lemma warp_tmask_ok:
  assumes "active \<le> nt"
  obtains tm where "warp_tmask nt active = Some (tm :: 'w::len bitvector)" "bv_ok tm" "bv_size tm = nt" "bv_bits tm = {..<active}"
proof -
  have "(\<lambda>t acc. Option.bind acc (\<lambda>m. bv_set (m :: 'w bitvector) t)) = (\<lambda>t acc. Option.bind acc (\<lambda>m. bv_set_to m t True))"
    by (simp add: bv_set_to_def)
  then have "warp_tmask nt active = fold (\<lambda>t acc. Option.bind acc (\<lambda>m. bv_set_to (m :: 'w bitvector) t True)) [0..<active] (Some (bv_new nt))"
    by (simp add: warp_tmask_def bv_resize_fresh)
  then show thesis using tm.fill_loop[OF assms, of "\<lambda>_. True", where 'a = 'w] that by (auto simp: lessThan_def)
qed

section \<open>Loading a CTA\<close>

definition warps_of :: "disp_cfg \<Rightarrow> u32 \<Rightarrow> nat" where
  "warps_of cfg B = (unat B + NT cfg - 1) div NT cfg"

lemma cta_size_value:
  assumes "cfg_ok cfg" "block_fits cfg B"
  shows "unat ((B + cfg_num_threads cfg - 1) div cfg_num_threads cfg) = warps_of cfg B" "0 < warps_of cfg B"
proof -
  have nt: "0 < NT cfg" using assms(1) by (simp add: cfg_ok_def word_gt_0 unat_gt_0)
  have B: "0 < unat B" using assms(2) by (simp add: block_fits_def word_gt_0 unat_gt_0)
  have s: "unat (B + cfg_num_threads cfg) = unat B + NT cfg"
    using assms(2) by (intro unat_plus_no_wrap) (simp add: block_fits_def)
  have "B + cfg_num_threads cfg \<noteq> 0" using s nt by auto
  then have "unat (B + cfg_num_threads cfg - 1) = unat B + NT cfg - 1" using s by (simp add: unat_minus_one)
  then show "unat ((B + cfg_num_threads cfg - 1) div cfg_num_threads cfg) = warps_of cfg B"
    by (simp add: warps_of_def unat_div)
  have "NT cfg div NT cfg \<le> (unat B + NT cfg - 1) div NT cfg" using B by (intro div_le_mono) simp
  then show "0 < warps_of cfg B" using nt by (simp add: warps_of_def)
qed

definition req_fits :: "disp_cfg \<Rightarrow> kmu_req_t \<Rightarrow> bool" where
  "req_fits cfg r \<longleftrightarrow> block_fits cfg (req_block_size r) \<and> cluster_fits cfg r"

definition pending_fits :: "disp_cfg \<Rightarrow> 'w::len cta_dispatcher \<Rightarrow> bool" where
  "pending_fits cfg d \<longleftrightarrow> (has_pending d \<longrightarrow> req_fits cfg (pending_cta d))"

definition slots_for :: "disp_cfg \<Rightarrow> kmu_req_t \<Rightarrow> nat" where
  "slots_for cfg r = unat (usable_slots cfg (slot_stride cfg (req_lmem_size r)))"

lemma slots_for_bounds: "cfg_ok cfg \<Longrightarrow> 0 < slots_for cfg r \<and> slots_for cfg r \<le> NW cfg"
  using usable_slots_bounds[of cfg "slot_stride cfg (req_lmem_size r)"]
  by (simp add: slots_for_def word_less_nat_alt word_le_nat_alt)

text \<open>The state after the request \<open>r\<close> was accepted into slot \<open>base\<close>.\<close>

definition accepted :: "disp_cfg \<Rightarrow> 'w::len cta_dispatcher \<Rightarrow> kmu_req_t \<Rightarrow> nat \<Rightarrow> 'w cta_dispatcher \<Rightarrow> bool" where
  "accepted cfg d r base d' \<longleftrightarrow> has_cta d' \<and> \<not> has_pending d' \<and> cta d' = r \<and> cta_rank d' = 0
     \<and> unat (cta_size d') = warps_of cfg (req_block_size r) \<and> block_size_rem d' = req_block_size r
     \<and> thread_idx d' = mk_dim3 0 0 0 \<and> unat (cur_slot d') = base \<and> base < slots_for cfg r
     \<and> lmem_addr d' = cfg_lmem_base cfg + of_nat base * ucast (slot_stride cfg (req_lmem_size r))
     \<and> slot_rem_warps d' = (slot_rem_warps d)[base := cta_size d'] \<and> wid_to_slot d' = wid_to_slot d
     \<and> length (warp_init_mask d') = length (warp_init_mask d)
     \<and> unat (tail_slot d') = (base + 1) mod unat (usable_slots cfg (slot_stride cfg (req_lmem_size r)))"

definition window_of :: "disp_cfg \<Rightarrow> kmu_req_t \<Rightarrow> nat" where
  "window_of cfg r = window_len cfg r (usable_slots cfg (slot_stride cfg (req_lmem_size r)))"

definition norm_tail :: "disp_cfg \<Rightarrow> 'w::len cta_dispatcher \<Rightarrow> kmu_req_t \<Rightarrow> nat" where
  "norm_tail cfg d r = (if slots_for cfg r \<le> unat (tail_slot d) then 0 else unat (tail_slot d))"

text \<open>The first slot of the window a request is given: the tail, or 0 when the window would overrun.\<close>

definition window_base :: "disp_cfg \<Rightarrow> 'w::len cta_dispatcher \<Rightarrow> kmu_req_t \<Rightarrow> nat" where
  "window_base cfg d r = (if norm_tail cfg d r + window_of cfg r > slots_for cfg r then 0 else norm_tail cfg d r)"

lemma window_base_bound: "cfg_ok cfg \<Longrightarrow> window_base cfg d r + window_of cfg r \<le> slots_for cfg r"
  using slots_for_bounds[of cfg r]
  by (auto simp: window_base_def window_of_def window_len_def slots_for_def)

lemma window_of_pos: "cfg_ok cfg \<Longrightarrow> 0 < window_of cfg r"
  using slots_for_bounds[of cfg r] by (auto simp: window_of_def window_len_def slots_for_def)

lemma fetch_cta_cases:
  obtains (none) "fetch_cta k d = None" "\<not> has_pending d" "\<not> kmu_running k"
  | (pending) "fetch_cta k d = Some (k, d)" "has_pending d"
  | (fetched) "fetch_cta k d = Some (kmu_advance k, d\<lparr>pending_cta := kmu_request k, has_pending := True\<rparr>)"
      "\<not> has_pending d" "kmu_running k"
proof (cases "has_pending d")
  case True
  then show thesis by (intro pending) (simp_all add: fetch_cta_def)
next
  case False
  then show thesis
    by (cases "kmu_running k") (rule fetched none; simp add: fetch_cta_def kmu_step_def)+
qed

lemma accept_cta_ok:
  assumes cfg: "cfg_ok cfg" and B: "block_fits cfg (req_block_size (pending_cta d))"
    and base: "base < length (slot_rem_warps d)" "base + 1 < 2 ^ 32" "base < slots_for cfg (pending_cta d)"
  defines "r \<equiv> pending_cta d"
  shows "\<exists>d'. accept_cta cfg d (of_nat base) (slot_stride cfg (req_lmem_size r))
      (usable_slots cfg (slot_stride cfg (req_lmem_size r))) = Some d' \<and> accepted cfg d r base d'"
proof -
  have bn: "unat (of_nat base :: u32) = base" using base(2) by (simp add: unat_of_nat)
  have "unat (of_nat base + 1 :: u32) = base + 1" using bn base(2) by (subst unat_plus_no_wrap) simp_all
  then have tl: "unat ((of_nat base + 1 :: u32) mod ms) = (base + 1) mod unat ms" for ms by (simp add: unat_mod)
  have sz: "unat ((req_block_size r + cfg_num_threads cfg - 1) div cfg_num_threads cfg) = warps_of cfg (req_block_size r)"
    using cta_size_value(1)[OF cfg B] by (simp add: r_def)
  have uc: "(ucast (of_nat base :: u32) :: u64) = of_nat base"
    using bn of_nat_unat[of "of_nat base :: u32", where ?'a = "64 word"] by simp
  show ?thesis
    unfolding accept_cta_def accepted_def Let_def r_def[symmetric] bn
    using base(1) base(3)[folded r_def] by (cases "req_PC r = ucast (cur_kernel_pc d)") (simp_all add: vec_in_range bn sz tl uc)
qed

lemma load_cta_cases:
  assumes cfg: "cfg_ok cfg" and ok: "disp_ok cfg d" and f: "fetch_cta k d = Some (k1, d1)"
    and fits: "req_fits cfg (pending_cta d1)"
  defines "r \<equiv> pending_cta d1" and "b \<equiv> window_base cfg d (pending_cta d1)"
  obtains (wait) t j where "load_cta cfg k d = Some (False, k1, d1\<lparr>tail_slot := t\<rparr>)"
      "j < window_of cfg r" "slot_rem_warps d ! (b + j) \<noteq> 0" "unat t = norm_tail cfg d r"
  | (accept) d' where "load_cta cfg k d = Some (True, k1, d')" "accepted cfg d r b d'"
      "\<forall>j < window_of cfg r. slot_rem_warps d ! (b + j) = 0"
proof -
  define stride where "stride = slot_stride cfg (req_lmem_size r)"
  define ms where "ms = usable_slots cfg stride"
  define d2 where "d2 = (if tail_slot d1 \<ge> ms then d1\<lparr>tail_slot := 0\<rparr> else d1)"
  have d1: "slot_rem_warps d1 = slot_rem_warps d" "tail_slot d1 = tail_slot d" "disp_ok cfg d1"
    "wid_to_slot d1 = wid_to_slot d" "length (warp_init_mask d1) = length (warp_init_mask d)"
    using f ok by (auto simp: fetch_cta_def disp_ok_def to_launch_def split: if_splits option.splits)
  have msb: "0 < ms" "ms \<le> cfg_num_warps cfg" using usable_slots_bounds[OF cfg] by (simp_all add: ms_def)
  have msn: "unat ms = slots_for cfg r" by (simp add: slots_for_def ms_def stride_def)
  have d2: "pending_cta d2 = r" "disp_ok cfg d2" "tail_slot d2 < ms" "slot_rem_warps d2 = slot_rem_warps d"
    "wid_to_slot d2 = wid_to_slot d" "length (warp_init_mask d2) = length (warp_init_mask d)"
    using d1 msb by (auto simp: d2_def r_def disp_ok_def to_launch_def)
  have tl: "unat (tail_slot d2) = norm_tail cfg d r"
    using d1 msn by (auto simp: d2_def norm_tail_def word_le_nat_alt)
  have w: "window_len cfg (pending_cta d2) ms = window_of cfg r" by (simp add: d2 window_of_def ms_def stride_def)
  have cl: "cluster_fits cfg (pending_cta d2)" using fits d2 by (simp add: req_fits_def r_def)
  obtain base where base: "base + window_of cfg r \<le> unat ms"
    "base = unat (tail_slot d2) \<or> base = 0 \<and> unat (tail_slot d2) + window_of cfg r > unat ms"
    and adm: "admit_slot cfg d2 ms = Some (if \<forall>j < window_of cfg r. slot_rem_warps d ! (base + j) = 0 then Some (of_nat base) else None)"
    by (rule admit_slot_ok[OF cfg d2(2) msb d2(3) cl, unfolded w d2(4)]) simp
  have b: "base = b" using base tl msn by (auto simp: b_def window_base_def r_def)
  have bl: "base < NW cfg" using base(1) window_of_pos[OF cfg, of r] msb by (simp add: word_le_nat_alt)
  have bn: "unat (of_nat base :: u32) = base"
    using bl u32_bound[of "cfg_num_warps cfg"] by (simp add: unat_of_nat)
  have load: "load_cta cfg k d = (case admit_slot cfg d2 ms of None \<Rightarrow> None
     | Some None \<Rightarrow> Some (False, k1, d2)
     | Some (Some base) \<Rightarrow> (case accept_cta cfg d2 base stride ms of None \<Rightarrow> None | Some d3 \<Rightarrow> Some (True, k1, d3)))"
    by (simp add: load_cta_def f Let_def d2_def ms_def stride_def r_def split: option.splits)
  show thesis
  proof (cases "\<forall>j < window_of cfg r. slot_rem_warps d ! (base + j) = 0")
    case False
    then obtain j where j: "j < window_of cfg r" "slot_rem_warps d ! (b + j) \<noteq> 0" by (auto simp: b)
    have "load_cta cfg k d = Some (False, k1, d1\<lparr>tail_slot := tail_slot d2\<rparr>)"
    proof -
      have "load_cta cfg k d = Some (False, k1, d2)" unfolding load adm using False by auto
      moreover have "d2 = d1\<lparr>tail_slot := tail_slot d2\<rparr>" by (simp add: d2_def)
      ultimately show ?thesis by simp
    qed
    then show thesis using wait j tl by blast
  next
    case True
    have "block_fits cfg (req_block_size (pending_cta d2))" using fits d2 by (simp add: req_fits_def r_def)
    moreover have "base < length (slot_rem_warps d2)" using bl d2 by (simp add: disp_ok_def)
    moreover have "base < slots_for cfg (pending_cta d2)"
      using base(1) window_of_pos[OF cfg, of r] by (simp add: msn d2)
    moreover have "base + 1 < 2 ^ 32" using bl u32_bound[of "cfg_num_warps cfg"] by simp
    ultimately obtain d' where d': "accept_cta cfg d2 (of_nat base) stride ms = Some d'" "accepted cfg d2 r base d'"
      using accept_cta_ok[OF cfg, of d2 base] unfolding d2(1) ms_def stride_def by blast
    have "accepted cfg d r base d'" using d'(2) d2 by (simp add: accepted_def)
    then show thesis using accept[of d'] True d'(1) by (simp add: load adm b)
  qed
qed

section \<open>Thread indices\<close>

text \<open>Adding with carry in one digit of radix \<open>b\<close>.\<close>

lemma digit_add:
  fixes m n b c :: nat
  assumes "0 < b" "c \<le> 1"
  defines "s \<equiv> m mod b + n mod b + c"
  shows "(m + n + c) mod b = (if b \<le> s then s - b else s)"
    "(m + n + c) div b = m div b + n div b + (if b \<le> s then 1 else 0)"
proof -
  have eq: "m + n + c = s + (m div b + n div b) * b"
    unfolding s_def by (simp add: algebra_simps)
  have lt: "s < 2 * b" using assms mod_less_divisor[of b m] mod_less_divisor[of b n] unfolding s_def by linarith
  have sd: "s div b = (if b \<le> s then 1 else 0)" "s mod b = (if b \<le> s then s - b else s)"
    using lt assms(1) by (auto simp: div_nat_eqI le_mod_geq not_le)
  show "(m + n + c) mod b = (if b \<le> s then s - b else s)" unfolding eq by (simp add: sd)
  show "(m + n + c) div b = m div b + n div b + (if b \<le> s then 1 else 0)"
    unfolding eq using assms(1) by (simp add: sd)
qed

text \<open>\<open>at_thread bd L t\<close>: \<open>t\<close> is the index of thread \<open>L\<close> of a block of dimensions \<open>bd\<close>, x fastest.\<close>

definition at_thread :: "dim3 \<Rightarrow> nat \<Rightarrow> dim3 \<Rightarrow> bool" where
  "at_thread bd L t \<longleftrightarrow> nx t = L mod nx bd \<and> ny t = (L div nx bd) mod ny bd \<and> nz t = L div (nx bd * ny bd)"

text \<open>The warp step the runtime derives from the block dimensions and the warp width.\<close>

definition step_matches :: "nat \<Rightarrow> dim3 \<Rightarrow> dim3 \<Rightarrow> bool" where
  "step_matches nt bd ws \<longleftrightarrow> nx ws = nt mod nx bd \<and> ny ws = (nt div nx bd) mod ny bd
     \<and> nz ws = (nt div (nx bd * ny bd)) mod nz bd"

lemma u32_sum:
  fixes a b :: u32
  assumes "unat a + unat b < 2 ^ 32"
  shows "unat (a + b) = unat a + unat b"
  by (rule unat_plus_no_wrap) (use assms in simp)

lemma next_thread_idx_ok:
  assumes pos: "0 < nx bd" "0 < ny bd" and sm: "step_matches nt bd ws" and at: "at_thread bd L t"
    and lt: "L + nt < nx bd * ny bd * nz bd" "L + nt < 2 ^ 32"
  shows "at_thread bd (L + nt) (next_thread_idx ws bd t)"
proof -
  let ?bx = "nx bd" and ?by = "ny bd"
  define cx where "cx = (if ?bx \<le> L mod ?bx + nt mod ?bx then 1 else 0 :: nat)"
  define sy where "sy = (L div ?bx) mod ?by + (nt div ?bx) mod ?by + cx"
  define cy where "cy = (if ?by \<le> sy then 1 else 0 :: nat)"
  have c1: "cx \<le> 1" "cy \<le> 1" by (simp_all add: cx_def cy_def)
  have dx: "(L + nt) mod ?bx = L mod ?bx + nt mod ?bx - cx * ?bx" "(L + nt) div ?bx = L div ?bx + nt div ?bx + cx"
    using digit_add[OF pos(1), of 0 L nt] by (simp_all add: cx_def)
  have dy: "((L + nt) div ?bx) mod ?by = sy - cy * ?by"
    "((L + nt) div ?bx) div ?by = (L div ?bx) div ?by + (nt div ?bx) div ?by + cy"
    using digit_add[OF pos(2) c1(1), of "L div ?bx" "nt div ?bx"] by (simp_all add: dx cy_def sy_def)
  have ntz: "(nt div (?bx * ?by)) mod nz bd = nt div (?bx * ?by)"
    using lt(1) pos by (simp add: less_mult_imp_div_less mult.commute)
  have t: "nx t = L mod ?bx" "ny t = (L div ?bx) mod ?by" "nz t = L div (?bx * ?by)"
    and w: "nx ws = nt mod ?bx" "ny ws = (nt div ?bx) mod ?by" "nz ws = nt div (?bx * ?by)"
    using at sm ntz by (simp_all add: at_thread_def step_matches_def)
  have le: "L mod ?bx \<le> L" "nt mod ?bx \<le> nt" "(L div ?bx) mod ?by \<le> L div ?bx" "(nt div ?bx) mod ?by \<le> nt div ?bx" by simp_all
  have q: "L div ?bx + nt div ?bx + cx \<le> L + nt" "(L + nt) div (?bx * ?by) \<le> L + nt"
    using dx(2) by (metis div_le_dividend)+
  have X: "unat (dim_x t + dim_x ws) = L mod ?bx + nt mod ?bx"
  proof -
    have "L mod ?bx + nt mod ?bx < 2 ^ 32" using le(1,2) lt(2) by linarith
    then show ?thesis using u32_sum[of "dim_x t" "dim_x ws"] by (simp add: t w)
  qed
  have wrap: "dim_x t + dim_x ws \<ge> dim_x bd \<longleftrightarrow> cx = 1" by (simp add: word_le_nat_alt X cx_def)
  have sy_le: "sy \<le> L + nt" using le q(1) unfolding sy_def by linarith
  have Y0: "unat (dim_y t + dim_y ws) = (L div ?bx) mod ?by + (nt div ?bx) mod ?by"
    using sy_le lt(2) by (subst u32_sum) (simp_all add: t w sy_def)
  have Y: "unat (dim_y t + dim_y ws + (if cx = 1 then 1 else 0)) = sy"
    using c1(1) sy_le lt(2) by (subst u32_sum) (auto simp: Y0 sy_def)
  have wrapy: "dim_y t + dim_y ws + (if cx = 1 then 1 else 0) \<ge> dim_y bd \<longleftrightarrow> cy = 1"
    unfolding word_le_nat_alt Y by (simp add: cy_def)
  have zsum: "L div (?bx * ?by) + nt div (?bx * ?by) + cy = (L + nt) div (?bx * ?by)"
    using dy(2) by (simp add: div_mult2_eq)
  have Z0: "unat (dim_z t + dim_z ws) = L div (?bx * ?by) + nt div (?bx * ?by)"
  proof -
    have "L div (?bx * ?by) + nt div (?bx * ?by) < 2 ^ 32" using zsum q(2) lt(2) by linarith
    then show ?thesis using u32_sum[of "dim_z t" "dim_z ws"] by (simp add: t w)
  qed
  have Z: "unat (dim_z t + dim_z ws + (if cy = 1 then 1 else 0)) = (L + nt) div (?bx * ?by)"
  proof -
    have "(L + nt) div (?bx * ?by) < 2 ^ 32" using q(2) lt(2) by linarith
    then show ?thesis using c1(2) zsum u32_sum[of "dim_z t + dim_z ws" 1] by (auto simp: Z0 le_Suc_eq)
  qed
  define yw where "yw = dim_y t + dim_y ws + (if cx = 1 then 1 else 0)"
  have Xr: "unat (if cx = 1 then dim_x t + dim_x ws - dim_x bd else dim_x t + dim_x ws) = (L + nt) mod ?bx"
    using c1(1) wrap X dx(1) by (auto simp: unat_minus_no_wrap le_Suc_eq)
  have Yr: "unat (if cy = 1 then yw - dim_y bd else yw) = ((L + nt) div ?bx) mod ?by"
    using c1(2) wrapy Y dy(1) unfolding yw_def[symmetric] by (auto simp: unat_minus_no_wrap le_Suc_eq)
  show ?thesis
    unfolding at_thread_def next_thread_idx_def Let_def wrap yw_def[symmetric] wrapy[folded yw_def] mk_dim3_def
    using Xr Yr Z by simp
qed

section \<open>Launching the warps of a CTA\<close>

definition req_threads :: "kmu_req_t \<Rightarrow> nat" where
  "req_threads r = unat (req_block_size r)"

text \<open>A descriptor whose block size and warp step agree with its block dimensions.\<close>

definition shape_ok :: "disp_cfg \<Rightarrow> kmu_req_t \<Rightarrow> bool" where
  "shape_ok cfg r \<longleftrightarrow> nx (req_block_dim r) * ny (req_block_dim r) * nz (req_block_dim r) = req_threads r
     \<and> step_matches (NT cfg) (req_block_dim r) (req_warp_step r)"

text \<open>The progress of the CTA in flight: what is left and where its next warp starts.\<close>

definition slot_addr :: "disp_cfg \<Rightarrow> kmu_req_t \<Rightarrow> u32 \<Rightarrow> u64" where
  "slot_addr cfg r slot = cfg_lmem_base cfg + ucast slot * ucast (slot_stride cfg (req_lmem_size r))"

definition emit_ok :: "disp_cfg \<Rightarrow> 'w::len cta_dispatcher \<Rightarrow> bool" where
  "emit_ok cfg d \<longleftrightarrow> (has_cta d \<longrightarrow> block_fits cfg (req_block_size (cta d))
     \<and> unat (cta_size d) = warps_of cfg (req_block_size (cta d))
     \<and> unat (block_size_rem d) = req_threads (cta d) - unat (cta_rank d) * NT cfg
     \<and> unat (cta_rank d) * NT cfg < req_threads (cta d)
     \<and> unat (cur_slot d) < slots_for cfg (cta d) \<and> lmem_addr d = slot_addr cfg (cta d) (cur_slot d)
     \<and> (shape_ok cfg (cta d) \<longrightarrow> at_thread (req_block_dim (cta d)) (unat (cta_rank d) * NT cfg) (thread_idx d)))"

text \<open>The launch record of warp \<open>rank\<close> of a request.\<close>

definition record_ok :: "disp_cfg \<Rightarrow> kmu_req_t \<Rightarrow> 'w::len cta_warp_record_t \<Rightarrow> bool" where
  "record_ok cfg r rec \<longleftrightarrow> rec_block_idx rec = req_block_idx r \<and> rec_block_dim rec = req_block_dim r
     \<and> rec_grid_dim rec = req_grid_dim r \<and> rec_PC rec = ucast (req_PC r)
     \<and> rec_entry rec = ucast (req_entry r) \<and> rec_param rec = req_param r
     \<and> unat (rec_cta_rank rec) < warps_of cfg (req_block_size r)
     \<and> unat (rec_cta_id rec) < slots_for cfg r \<and> rec_lmem_addr rec = slot_addr cfg r (rec_cta_id rec)
     \<and> bv_ok (rec_tmask rec) \<and> bv_size (rec_tmask rec) = NT cfg
     \<and> bv_bits (rec_tmask rec) = {t. t < NT cfg \<and> unat (rec_cta_rank rec) * NT cfg + t < req_threads r}
     \<and> (shape_ok cfg r \<longrightarrow> at_thread (req_block_dim r) (unat (rec_cta_rank rec) * NT cfg) (rec_thread_idx rec))"

lemma warps_of_bound:
  assumes "cfg_ok cfg"
  shows "q < warps_of cfg B \<longleftrightarrow> q * NT cfg < unat B"
proof -
  have nt: "0 < NT cfg" using assms by (simp add: cfg_ok_def word_gt_0 unat_gt_0)
  have "q < warps_of cfg B \<longleftrightarrow> Suc q * NT cfg \<le> unat B + NT cfg - 1"
    unfolding warps_of_def using nt by (simp add: less_eq_div_iff_mult_less_eq flip: Suc_le_eq)
  also have "\<dots> \<longleftrightarrow> q * NT cfg < unat B" using nt by auto
  finally show ?thesis .
qed

lemma accepted_emit_ok:
  assumes "cfg_ok cfg" "accepted cfg d r base d'" "block_fits cfg (req_block_size r)"
  shows "emit_ok cfg d'"
proof -
  have "0 < req_threads r" using assms(3) by (simp add: block_fits_def req_threads_def word_gt_0 unat_gt_0)
  moreover have "lmem_addr d' = slot_addr cfg r (cur_slot d')"
    using assms(2) of_nat_unat[of "cur_slot d'", where ?'a = "64 word"] by (auto simp: accepted_def slot_addr_def)
  ultimately show ?thesis
    using assms by (auto simp: emit_ok_def accepted_def at_thread_def mk_dim3_def req_threads_def)
qed

lemma next_warp_ok:
  assumes cfg: "cfg_ok cfg" and has: "has_cta d" and em: "emit_ok cfg d"
  obtains rec d' where "next_warp cfg di d = Some (Some rec, d')" "record_ok cfg (cta d) rec" "emit_ok cfg d'"
    "rec_cta_rank rec = cta_rank d" "rec_cta_id rec = cur_slot d" "rec_do_init rec = di"
    "rec_lmem_addr rec = lmem_addr d"
    "\<exists>t b. d' = d\<lparr>thread_idx := t, block_size_rem := b, cta_rank := cta_rank d + 1, has_cta := cta_rank d + 1 < cta_size d\<rparr>"
proof -
  let ?r = "cta d" and ?q = "unat (cta_rank d)" and ?n = "NT cfg"
  define active where "active = active_lanes cfg (block_size_rem d)"
  have B: "block_fits cfg (req_block_size ?r)" and size: "unat (cta_size d) = warps_of cfg (req_block_size ?r)"
    and rem: "unat (block_size_rem d) = req_threads ?r - ?q * ?n" and lt: "?q * ?n < req_threads ?r"
    and slot: "unat (cur_slot d) < slots_for cfg ?r" "lmem_addr d = slot_addr cfg ?r (cur_slot d)"
    and at: "shape_ok cfg ?r \<Longrightarrow> at_thread (req_block_dim ?r) (?q * ?n) (thread_idx d)"
    using em has by (auto simp: emit_ok_def)
  have nt: "0 < ?n" using cfg by (simp add: cfg_ok_def word_gt_0 unat_gt_0)
  have act: "unat active = min ?n (unat (block_size_rem d))"
    by (auto simp: active_def active_lanes_def word_le_nat_alt min_def)
  obtain tm where tm: "warp_tmask ?n (unat active) = Some (tm :: 'a bitvector)" "bv_ok tm" "bv_size tm = ?n" "bv_bits tm = {..<unat active}"
    by (rule warp_tmask_ok[of "unat active" ?n]) (use act in auto)
  have rank: "?q < unat (cta_size d)" using size lt warps_of_bound[OF cfg] by (simp add: req_threads_def)
  have q1: "unat (cta_rank d + 1) = ?q + 1"
    using rank u32_bound[of "cta_size d"] by (subst unat_plus_no_wrap) simp_all
  have rem1: "unat (block_size_rem d - active) = req_threads ?r - (?q + 1) * ?n"
    using act rem by (subst unat_minus_no_wrap) (auto simp: word_le_nat_alt min_def)
  define t where "t = next_thread_idx (req_warp_step ?r) (req_block_dim ?r) (thread_idx d)"
  define d' where "d' = d\<lparr>thread_idx := t, block_size_rem := block_size_rem d - active, cta_rank := cta_rank d + 1,
      has_cta := cta_rank d + 1 < cta_size d\<rparr>"
  define rec :: "'a cta_warp_record_t" where "rec = \<lparr>rec_do_init = di, rec_PC = ucast (req_PC ?r), rec_entry = ucast (req_entry ?r),
                rec_tmask = tm, rec_mscratch = ucast (req_param ?r), rec_cta_id = cur_slot d,
                rec_cta_rank = cta_rank d, rec_cta_size = cta_size d, rec_thread_idx = thread_idx d,
                rec_block_idx = req_block_idx ?r, rec_block_dim = req_block_dim ?r,
                rec_grid_dim = req_grid_dim ?r, rec_param = req_param ?r, rec_lmem_addr = lmem_addr d,
                rec_cluster_size = cluster_volume ?r\<rparr>"
  have run: "next_warp cfg di d = Some (Some rec, d')"
    using has tm(1) unfolding next_warp_def Let_def active_def[symmetric] t_def[symmetric]
    by (simp add: rec_def d'_def not_le)
  have "{..<unat active} = {i. i < ?n \<and> ?q * ?n + i < req_threads ?r}" using act rem by (auto simp: min_def)
  then have rok: "record_ok cfg ?r rec"
    using tm rank size at slot unfolding record_ok_def rec_def by simp
  have em': "emit_ok cfg d'"
  proof (cases "cta_rank d + 1 < cta_size d")
    case True
    then have lt1: "(?q + 1) * ?n < req_threads ?r"
      using warps_of_bound[OF cfg, of "?q + 1"] by (simp add: word_less_nat_alt q1 size req_threads_def)
    have "at_thread (req_block_dim ?r) ((?q + 1) * ?n) t" if sh: "shape_ok cfg ?r"
    proof -
      have v: "nx (req_block_dim ?r) * ny (req_block_dim ?r) * nz (req_block_dim ?r) = req_threads ?r"
        using sh by (simp add: shape_ok_def)
      then have "0 < nx (req_block_dim ?r)" "0 < ny (req_block_dim ?r)" using lt by (auto intro!: Nat.gr0I)
      then have "at_thread (req_block_dim ?r) (?q * ?n + ?n) t"
        unfolding t_def using sh at[OF sh] lt1 v u32_bound[of "req_block_size ?r"]
        by (intro next_thread_idx_ok) (auto simp: shape_ok_def req_threads_def add.commute)
      then show ?thesis by (simp add: add.commute)
    qed
    then show ?thesis using B size rem1 lt1 q1 slot by (simp add: emit_ok_def d'_def)
  qed (simp add: emit_ok_def d'_def)
  show thesis by (rule that[OF run rok em']) (auto simp: rec_def d'_def)
qed

section \<open>One step of a core\<close>

text \<open>
  The warps a core still has to launch, each a pair of a block index and a rank.
\<close>

definition ranks_from :: "kmu_req_t \<Rightarrow> nat \<Rightarrow> nat \<Rightarrow> (dim3 \<times> nat) multiset" where
  "ranks_from r i n = mset (map (\<lambda>q. (req_block_idx r, q)) [i..<n])"

definition work :: "disp_cfg \<Rightarrow> kmu_req_t \<Rightarrow> (dim3 \<times> nat) multiset" where
  "work cfg r = ranks_from r 0 (warps_of cfg (req_block_size r))"

definition outstanding :: "disp_cfg \<Rightarrow> 'w::len cta_dispatcher \<Rightarrow> (dim3 \<times> nat) multiset" where
  "outstanding cfg d = (if has_cta d then ranks_from (cta d) (unat (cta_rank d)) (unat (cta_size d)) else {#})
     + (if has_pending d then work cfg (pending_cta d) else {#})"

definition tag_of :: "'w::len cta_warp_record_t \<Rightarrow> dim3 \<times> nat" where
  "tag_of rec = (rec_block_idx rec, unat (rec_cta_rank rec))"

definition reqs_sat :: "(kmu_req_t \<Rightarrow> bool) \<Rightarrow> 'w::len cta_dispatcher \<Rightarrow> bool" where
  "reqs_sat P d \<longleftrightarrow> (has_cta d \<longrightarrow> P (cta d)) \<and> (has_pending d \<longrightarrow> P (pending_cta d))"

text \<open>A warp that holds a slot is active.\<close>

definition assigned_active :: "disp_cfg \<Rightarrow> warp_mask \<Rightarrow> 'w::len cta_dispatcher \<Rightarrow> bool" where
  "assigned_active cfg A d \<longleftrightarrow> (\<forall>w < NW cfg. unat (wid_to_slot d ! w) < NW cfg \<longrightarrow> w \<in> A)"

definition core_ok :: "disp_cfg \<Rightarrow> (kmu_req_t \<Rightarrow> bool) \<Rightarrow> warp_mask \<Rightarrow> 'w::len cta_dispatcher \<Rightarrow> bool" where
  "core_ok cfg P A d \<longleftrightarrow> disp_ok cfg d \<and> emit_ok cfg d \<and> assigned_active cfg A d \<and> reqs_sat P d"

text \<open>Either the walk did not move, or it gave one CTA whose warps are added.\<close>

definition moved :: "disp_cfg \<Rightarrow> kmu \<Rightarrow> (dim3 \<times> nat) multiset \<Rightarrow> kmu \<Rightarrow> (dim3 \<times> nat) multiset \<Rightarrow> bool" where
  "moved cfg k m k' m' \<longleftrightarrow> (k' = k \<and> m' = m)
     \<or> (kmu_running k \<and> k' = kmu_advance k \<and> m' = m + work cfg (kmu_request k))"

lemma ranks_from_Suc: "i < n \<Longrightarrow> ranks_from r i n = add_mset (req_block_idx r, i) (ranks_from r (i + 1) n)"
  by (simp add: ranks_from_def upt_conv_Cons)

lemma ranks_from_empty [simp]: "n \<le> i \<Longrightarrow> ranks_from r i n = {#}"
  by (simp add: ranks_from_def)

lemma accepted_disp_ok:
  assumes cfg: "cfg_ok cfg" and ok: "disp_ok cfg d" and no: "\<not> has_cta d" and acc: "accepted cfg d r base d'"
    and base: "base < NW cfg" "slot_rem_warps d ! base = 0" and B: "block_fits cfg (req_block_size r)"
  shows "disp_ok cfg d'"
proof -
  have size: "0 < unat (cta_size d')" using acc cta_size_value(2)[OF cfg B] by (simp add: accepted_def)
  have cnt: "unat (slot_rem_warps d ! s) = card (holders (wid_to_slot d) s)" if "s < NW cfg" for s
    using ok no that by (auto simp: disp_ok_def to_launch_def)
  have sl: "slot_rem_warps d' = (slot_rem_warps d)[base := cta_size d']" "length (slot_rem_warps d) = NW cfg"
    using acc ok by (simp_all add: accepted_def disp_ok_def)
  have "unat (slot_rem_warps d' ! s) = card (holders (wid_to_slot d) s) + to_launch d' s" if "s < NW cfg" for s
    using cnt[OF that] acc base that sl by (cases "s = base") (auto simp: to_launch_def accepted_def)
  then show ?thesis using ok acc size base by (simp add: disp_ok_def accepted_def word_less_nat_alt)
qed

lemma load_step:
  assumes cfg: "cfg_ok cfg" and core: "core_ok cfg P A d" and no: "\<not> has_cta d"
    and P: "kmu_running k \<Longrightarrow> P (kmu_request k)" "\<And>r. P r \<Longrightarrow> req_fits cfg r"
  shows "\<exists>b k' d'. load_cta cfg k d = Some (b, k', d') \<and> core_ok cfg P A d' \<and> (b \<longrightarrow> has_cta d')
     \<and> moved cfg k (outstanding cfg d) k' (outstanding cfg d')"
proof (cases "fetch_cta k d")
  case None
  then have "load_cta cfg k d = Some (False, k, d)" by (simp add: load_cta_def)
  then show ?thesis using core by (auto simp: moved_def)
next
  case (Some p)
  then obtain k1 d1 where f: "fetch_cta k d = Some (k1, d1)" by (cases p) auto
  have ok: "disp_ok cfg d" using core by (simp add: core_ok_def)
  have d1: "disp_ok cfg d1" "emit_ok cfg d1" "assigned_active cfg A d1" "has_pending d1" "\<not> has_cta d1" "P (pending_cta d1)"
      "wid_to_slot d1 = wid_to_slot d" "moved cfg k (outstanding cfg d) k1 (outstanding cfg d1)"
    using core no f P(1)
    by (cases rule: fetch_cta_cases[of k d]; force simp: core_ok_def disp_ok_def to_launch_def emit_ok_def
        assigned_active_def reqs_sat_def moved_def outstanding_def)+
  have fit: "req_fits cfg (pending_cta d1)" using d1(6) P(2) by blast
  show ?thesis
  proof (cases rule: load_cta_cases[OF cfg ok f fit])
    case (1 t j)
    have "core_ok cfg P A (d1\<lparr>tail_slot := t\<rparr>)"
      using d1 by (simp add: core_ok_def disp_ok_def to_launch_def emit_ok_def assigned_active_def reqs_sat_def)
    moreover have "outstanding cfg (d1\<lparr>tail_slot := t\<rparr>) = outstanding cfg d1" by (simp add: outstanding_def)
    ultimately show ?thesis using 1 d1 by auto
  next
    case (2 d')
    let ?r = "pending_cta d1" and ?b = "window_base cfg d (pending_cta d1)"
    have b: "?b < NW cfg"
      using window_base_bound[OF cfg, of d ?r] window_of_pos[OF cfg, of ?r] slots_for_bounds[OF cfg, of ?r] by linarith
    have free: "slot_rem_warps d ! ?b = 0" using 2(3) window_of_pos[OF cfg, of ?r] by (metis add.right_neutral)
    have B: "block_fits cfg (req_block_size ?r)" using fit by (simp add: req_fits_def)
    have "disp_ok cfg d'" by (rule accepted_disp_ok[OF cfg ok no 2(2) b free B])
    moreover have "emit_ok cfg d'" by (rule accepted_emit_ok[OF cfg 2(2) B])
    moreover have "assigned_active cfg A d'" "reqs_sat P d'" "has_cta d'"
      using 2(2) d1 by (auto simp: accepted_def assigned_active_def reqs_sat_def)
    moreover have "outstanding cfg d' = outstanding cfg d1"
      using 2(2) d1 by (simp add: accepted_def outstanding_def work_def)
    ultimately show ?thesis using 2(1) d1(8) by (auto simp: core_ok_def)
  qed
qed

lemma launch_disp_ok:
  assumes ok: "disp_ok cfg d" and has: "has_cta d" and w: "w < NW cfg" "NW cfg \<le> unat (wid_to_slot d ! w)"
    and im: "length im = NW cfg"
  shows "disp_ok cfg (d\<lparr>thread_idx := t, block_size_rem := b, cta_rank := cta_rank d + 1,
     has_cta := cta_rank d + 1 < cta_size d, warp_init_mask := im, wid_to_slot := (wid_to_slot d)[w := cur_slot d]\<rparr>)"
proof -
  let ?q = "unat (cta_rank d)" and ?n = "unat (cta_size d)" and ?ws = "(wid_to_slot d)[w := cur_slot d]"
  have q: "?q < ?n" "unat (cur_slot d) < NW cfg" using ok has by (simp_all add: disp_ok_def word_less_nat_alt)
  have q1: "unat (cta_rank d + 1) = ?q + 1"
    using q u32_bound[of "cta_size d"] by (subst unat_plus_no_wrap) simp_all
  have len: "length (wid_to_slot d) = NW cfg" using ok by (simp add: disp_ok_def)
  have h: "card (holders ?ws s) = card (holders (wid_to_slot d) s) + (if unat (cur_slot d) = s then 1 else 0)" if "s < NW cfg" for s
  proof -
    have "w \<notin> holders (wid_to_slot d) s" using w that by (simp add: holders_def)
    then show ?thesis using w len by (simp add: holders_update)
  qed
  have "unat (slot_rem_warps d ! s) = card (holders (wid_to_slot d) s) + to_launch d s" if "s < NW cfg" for s
    using ok that by (simp add: disp_ok_def)
  then show ?thesis
    using ok has im q q1 len by (auto simp: disp_ok_def h to_launch_def word_less_nat_alt)
qed

lemma free_wid_Some: "free_wid cfg A = Some w \<Longrightarrow> w < NW cfg \<and> w \<notin> A"
  unfolding free_wid_def find_Some_iff by auto

lemma free_wid_None: "free_wid cfg A = None \<longleftrightarrow> {..<NW cfg} \<subseteq> A"
  unfolding free_wid_def find_None_iff by auto

text \<open>The second half of a step: a CTA is in flight, so a free warp is launched with its next rank.\<close>

definition launch_half :: "disp_cfg \<Rightarrow> warp_mask \<Rightarrow> kmu \<Rightarrow> 'w::len cta_dispatcher
    \<Rightarrow> ((nat \<times> 'w cta_warp_record_t) option \<times> kmu \<times> 'w cta_dispatcher) option" where
  "launch_half cfg A k1 d1 = (case free_wid cfg A of
               None \<Rightarrow> Some (None, k1, d1)
             | Some wid \<Rightarrow>
                 do {
                   inited \<leftarrow> vec_get (warp_init_mask d1) wid;
                   (out, d2) \<leftarrow> next_warp cfg (\<not> inited) d1;
                   (case out of
                      None \<Rightarrow> Some (None, k1, d2)
                    | Some rec \<Rightarrow>
                        do {
                          im \<leftarrow> vec_put (warp_init_mask d2) wid True;
                          ws \<leftarrow> vec_put (wid_to_slot d2) wid (cur_slot d2);
                          Some (Some (wid, rec), k1, d2\<lparr>warp_init_mask := im, wid_to_slot := ws\<rparr>)
                        })
                 })"

lemma dispatcher_step_split:
  "dispatcher_step cfg A k d = do {
     (ok, k1, d1) \<leftarrow> (if has_cta d then Some (True, k, d) else load_cta cfg k d);
     if \<not> ok then Some (None, k1, d1) else launch_half cfg A k1 d1 }"
  unfolding dispatcher_step_def launch_half_def ..

lemma launch_half_ok:
  assumes cfg: "cfg_ok cfg" and core: "core_ok cfg P A d" and has: "has_cta d" and w: "free_wid cfg A = Some w"
  obtains rec d' where "launch_half cfg A k d = Some (Some (w, rec), k, d')" "core_ok cfg P (insert w A) d'"
    "record_ok cfg (cta d) rec" "add_mset (tag_of rec) (outstanding cfg d') = outstanding cfg d"
    "unat (rec_cta_id rec) < NW cfg" "wid_to_slot d' ! w = rec_cta_id rec"
proof -
  have ok: "disp_ok cfg d" and em: "emit_ok cfg d" and aa: "assigned_active cfg A d" and rs: "reqs_sat P d"
    using core by (simp_all add: core_ok_def)
  have wl: "w < NW cfg" "w \<notin> A" using free_wid_Some[OF w] by auto
  then have wf: "NW cfg \<le> unat (wid_to_slot d ! w)" using aa by (auto simp: assigned_active_def not_less)
  have len: "length (warp_init_mask d) = NW cfg" "length (wid_to_slot d) = NW cfg" using ok by (simp_all add: disp_ok_def)
  let ?im = "(warp_init_mask d)[w := True]" and ?ws = "(wid_to_slot d)[w := cur_slot d]"
  obtain rec d1 where nw: "next_warp cfg (\<not> warp_init_mask d ! w) d = Some (Some rec, d1)" "record_ok cfg (cta d) rec" "emit_ok cfg d1"
    "rec_cta_rank rec = cta_rank d" "rec_cta_id rec = cur_slot d"
    "\<exists>t b. d1 = d\<lparr>thread_idx := t, block_size_rem := b, cta_rank := cta_rank d + 1, has_cta := cta_rank d + 1 < cta_size d\<rparr>"
    by (rule next_warp_ok[OF cfg has em])
  from nw(6) obtain t b where d1: "d1 = d\<lparr>thread_idx := t, block_size_rem := b, cta_rank := cta_rank d + 1,
      has_cta := cta_rank d + 1 < cta_size d\<rparr>" by blast
  define d' where "d' = d1\<lparr>warp_init_mask := ?im, wid_to_slot := ?ws\<rparr>"
  have run: "launch_half cfg A k d = Some (Some (w, rec), k, d')"
    using wl len by (simp add: launch_half_def w vec_in_range nw(1) d'_def d1)
  have "disp_ok cfg d'" unfolding d'_def d1 using launch_disp_ok[OF ok has wl(1) wf, of ?im] len by simp
  moreover have "emit_ok cfg d'" using nw(3) by (simp add: emit_ok_def d'_def)
  moreover have "assigned_active cfg (insert w A) d'"
    using aa unfolding assigned_active_def d'_def d1 by simp (metis nth_list_update_neq)
  moreover have "reqs_sat P d'" using rs has by (simp add: reqs_sat_def d'_def d1)
  ultimately have core': "core_ok cfg P (insert w A) d'" by (simp add: core_ok_def)
  have q: "cta_rank d < cta_size d" "unat (cur_slot d) < NW cfg" using ok has by (simp_all add: disp_ok_def)
  have q1: "unat (cta_rank d + 1) = unat (cta_rank d) + 1"
    using q u32_bound[of "cta_size d"] by (subst unat_plus_no_wrap) (simp_all add: word_less_nat_alt)
  have out: "add_mset (tag_of rec) (outstanding cfg d') = outstanding cfg d"
    using has q q1 nw(2,4) ranks_from_Suc[of "unat (cta_rank d)" "unat (cta_size d)" "cta d"]
    by (auto simp: outstanding_def d'_def d1 tag_of_def record_ok_def word_less_nat_alt)
  show thesis by (rule that[OF run core' nw(2) out]) (use q nw(5) wl len in \<open>simp_all add: d'_def\<close>)
qed

definition core_step_ok :: "disp_cfg \<Rightarrow> (kmu_req_t \<Rightarrow> bool) \<Rightarrow> warp_mask \<Rightarrow> kmu \<Rightarrow> 'w::len cta_dispatcher
    \<Rightarrow> (nat \<times> 'w cta_warp_record_t) option \<Rightarrow> kmu \<Rightarrow> 'w cta_dispatcher \<Rightarrow> bool" where
  "core_step_ok cfg P A k d out k' d' \<longleftrightarrow> (case out of
       None \<Rightarrow> core_ok cfg P A d' \<and> moved cfg k (outstanding cfg d) k' (outstanding cfg d')
     | Some (w, rec) \<Rightarrow> core_ok cfg P (insert w A) d' \<and> w < NW cfg \<and> w \<notin> A
         \<and> (\<exists>r. P r \<and> record_ok cfg r rec)
         \<and> moved cfg k (outstanding cfg d) k' (add_mset (tag_of rec) (outstanding cfg d')))"

lemma dispatcher_step_ok:
  assumes cfg: "cfg_ok cfg" and core: "core_ok cfg P A d"
    and P: "kmu_running k \<Longrightarrow> P (kmu_request k)" "\<And>r. P r \<Longrightarrow> req_fits cfg r"
  shows "\<exists>out k' d'. dispatcher_step cfg A k d = Some (out, k', d') \<and> core_step_ok cfg P A k d out k' d'"
proof -
  obtain b k1 d1 where l: "(if has_cta d then Some (True, k, d) else load_cta cfg k d) = Some (b, k1, d1)"
    "core_ok cfg P A d1" "b \<longrightarrow> has_cta d1" "moved cfg k (outstanding cfg d) k1 (outstanding cfg d1)"
    using load_step[OF cfg core _ P] core by (cases "has_cta d") (auto simp: moved_def)
  have s: "dispatcher_step cfg A k d = (if \<not> b then Some (None, k1, d1) else launch_half cfg A k1 d1)"
    unfolding dispatcher_step_split l(1) by simp
  show ?thesis
  proof (cases "b \<and> free_wid cfg A \<noteq> None")
    case False
    then have "dispatcher_step cfg A k d = Some (None, k1, d1)" unfolding s by (auto simp: launch_half_def)
    then show ?thesis using l by (auto simp: core_step_ok_def)
  next
    case True
    then obtain w where w: "free_wid cfg A = Some w" and hc: "has_cta d1" using l(3) by auto
    obtain rec d' where r: "launch_half cfg A k1 d1 = Some (Some (w, rec), k1, d')" "core_ok cfg P (insert w A) d'"
      "record_ok cfg (cta d1) rec" "add_mset (tag_of rec) (outstanding cfg d') = outstanding cfg d1"
      by (rule launch_half_ok[OF cfg l(2) hc w])
    have "P (cta d1)" using l(2) hc by (simp add: core_ok_def reqs_sat_def)
    then have "core_step_ok cfg P A k d (Some (w, rec)) k1 d'"
      using r l(4) free_wid_Some[OF w] by (auto simp: core_step_ok_def)
    then show ?thesis using True r(1) by (auto simp: s)
  qed
qed

lemma warp_done_core_ok:
  assumes "core_ok cfg P A d" "w < NW cfg"
  shows "\<exists>d'. warp_done cfg d w = Some d' \<and> core_ok cfg P (A - {w}) d' \<and> outstanding cfg d' = outstanding cfg d"
proof -
  obtain ws sr where d': "warp_done cfg d w = Some (d\<lparr>wid_to_slot := ws, slot_rem_warps := sr\<rparr>)"
    "disp_ok cfg (d\<lparr>wid_to_slot := ws, slot_rem_warps := sr\<rparr>)"
    "NW cfg \<le> unat (ws ! w)" "\<forall>v. v \<noteq> w \<longrightarrow> ws ! v = wid_to_slot d ! v"
    using warp_done_ok[of cfg d w] assms by (auto simp: core_ok_def)
  have "assigned_active cfg (A - {w}) (d\<lparr>wid_to_slot := ws, slot_rem_warps := sr\<rparr>)"
    using assms(1) d'(3,4) unfolding core_ok_def assigned_active_def
    by simp (metis not_less)
  then have "core_ok cfg P (A - {w}) (d\<lparr>wid_to_slot := ws, slot_rem_warps := sr\<rparr>)"
    using assms d'(2) by (simp add: core_ok_def reqs_sat_def emit_ok_def)
  then show ?thesis using d'(1) by (auto simp: outstanding_def)
qed

section \<open>All cores of a processor\<close>

text \<open>
  Every core has its own dispatcher and all of them draw from one grid walk.  A state is the walk,
  the active warps and the dispatcher of each core, and the records launched so far; a step is one
  \<open>step\<close> of some core, the exit of an active warp (\<open>warp_done\<close>), or the activation of a warp by
  \<open>wspawn\<close>, which bypasses the dispatcher.
\<close>

type_synonym 'w grid_state = "kmu \<times> (warp_mask \<times> 'w cta_dispatcher) list \<times> 'w cta_warp_record_t list"

inductive grid_step :: "disp_cfg \<Rightarrow> 'w::len grid_state \<Rightarrow> 'w grid_state \<Rightarrow> bool" for cfg where
  idle: "i < length cs \<Longrightarrow> cs ! i = (A, d) \<Longrightarrow> dispatcher_step cfg A k d = Some (None, k', d')
     \<Longrightarrow> grid_step cfg (k, cs, log) (k', cs[i := (A, d')], log)"
| launch: "i < length cs \<Longrightarrow> cs ! i = (A, d) \<Longrightarrow> dispatcher_step cfg A k d = Some (Some (w, rec), k', d')
     \<Longrightarrow> grid_step cfg (k, cs, log) (k', cs[i := (insert w A, d')], log @ [rec])"
| exit: "i < length cs \<Longrightarrow> cs ! i = (A, d) \<Longrightarrow> w \<in> A \<Longrightarrow> w < NW cfg \<Longrightarrow> warp_done cfg d w = Some d'
     \<Longrightarrow> grid_step cfg (k, cs, log) (k, cs[i := (A - {w}, d')], log)"
| spawn: "i < length cs \<Longrightarrow> cs ! i = (A, d) \<Longrightarrow> w < NW cfg
     \<Longrightarrow> grid_step cfg (k, cs, log) (k, cs[i := (insert w A, d)], log)"

inductive grid_reach :: "disp_cfg \<Rightarrow> nat \<Rightarrow> kmu \<Rightarrow> 'w::len grid_state \<Rightarrow> bool" for cfg n k where
  start: "grid_reach cfg n k (kmu_start k, replicate n ({}, dispatcher_init cfg), [])"
| step: "grid_reach cfg n k s \<Longrightarrow> grid_step cfg s s' \<Longrightarrow> grid_reach cfg n k s'"

inductive_cases grid_stepE: "grid_step cfg s s'"

text \<open>The requests of one launch differ only in the block they are for.\<close>

definition same_launch :: "kmu \<Rightarrow> kmu_req_t \<Rightarrow> bool" where
  "same_launch k r \<longleftrightarrow> req_PC r = kmu_PC k \<and> req_entry r = kmu_entry k \<and> req_param r = kmu_param k
     \<and> req_block_dim r = kmu_block_dim k \<and> req_grid_dim r = kmu_grid_dim k
     \<and> req_lmem_size r = kmu_lmem_size k \<and> req_block_size r = kmu_block_size k
     \<and> req_warp_step r = kmu_warp_step k \<and> req_cluster_dim r = kmu_cluster_dim k"

definition same_regs :: "kmu \<Rightarrow> kmu \<Rightarrow> bool" where
  "same_regs k k' \<longleftrightarrow> kmu_PC k' = kmu_PC k \<and> kmu_entry k' = kmu_entry k \<and> kmu_param k' = kmu_param k
     \<and> kmu_block_dim k' = kmu_block_dim k \<and> kmu_grid_dim k' = kmu_grid_dim k
     \<and> kmu_lmem_size k' = kmu_lmem_size k \<and> kmu_block_size k' = kmu_block_size k
     \<and> kmu_warp_step k' = kmu_warp_step k \<and> kmu_cluster_dim k' = kmu_cluster_dim k"

lemma same_regs_advance: "same_regs k (kmu_advance k)"
  by (auto simp: same_regs_def kmu_advance_def advance_group_def Let_def)

lemma same_regs_start: "same_regs k (kmu_start k)"
  by (auto simp: same_regs_def kmu_start_def Let_def)

lemma same_regs_trans: "same_regs a b \<Longrightarrow> same_regs b c \<Longrightarrow> same_regs a c"
  by (simp add: same_regs_def)

lemma same_regs_request: "same_regs k k' \<Longrightarrow> same_launch k (kmu_request k')"
  by (simp add: same_regs_def same_launch_def kmu_request_def)

text \<open>
  What a launch descriptor needs: its block is not empty, its warps and its cluster are counted
  without overflow.
\<close>

definition launch_fits :: "disp_cfg \<Rightarrow> kmu \<Rightarrow> bool" where
  "launch_fits cfg k \<longleftrightarrow> block_fits cfg (kmu_block_size k)
     \<and> NW cfg + unat (dim_x (kmu_cluster_dim k) * dim_y (kmu_cluster_dim k) * dim_z (kmu_cluster_dim k)) < 2 ^ 32"

lemma same_launch_fits: "launch_fits cfg k \<Longrightarrow> same_launch k r \<Longrightarrow> req_fits cfg r"
  by (simp add: launch_fits_def same_launch_def req_fits_def cluster_fits_def cluster_volume_def)

text \<open>
  The warps of the launch are conserved: those launched, those the cores still have to launch and
  those of the blocks the walk has not given out are together the warps of the whole grid.
\<close>

definition grid_inv :: "disp_cfg \<Rightarrow> kmu \<Rightarrow> 'w::len grid_state \<Rightarrow> bool" where
  "grid_inv cfg k0 s \<longleftrightarrow> (case s of (k, cs, log) \<Rightarrow>
     same_regs k0 k \<and> list_all (\<lambda>(A, d). core_ok cfg (same_launch k0) A d) cs
     \<and> list_all (\<lambda>rec. \<exists>r. same_launch k0 r \<and> record_ok cfg r rec) log
     \<and> (\<exists>n. \<not> kmu_running (snd (kmu_run n k)) \<and>
          mset (map tag_of log) + sum_list (map (\<lambda>(A, d). outstanding cfg d) cs)
            + sum_list (map (work cfg) (fst (kmu_run n k)))
          = sum_list (map (work cfg) (fst (kmu_run (grid_blocks (kmu_grid_dim k0)) (kmu_start k0))))))"

lemma list_all_update: "list_all P xs \<Longrightarrow> P x \<Longrightarrow> list_all P (xs[i := x])"
  by (auto simp: list_all_iff dest!: set_update_subset_insert[THEN subsetD])

lemma sum_list_update_mset:
  fixes f :: "'a \<Rightarrow> 'b multiset"
  assumes "i < length xs"
  shows "sum_list (map f (xs[i := x])) + f (xs ! i) = sum_list (map f xs) + f x"
  using assms by (induction xs arbitrary: i) (auto split: nat.splits simp: ac_simps)

lemma balance:
  fixes a b :: "'a multiset"
  assumes "S' + p = S + p'" "p + W = b + p' + W'"
  shows "(a + b) + S' + W' = a + S + W"
proof -
  have "((a + b) + S' + W') + p = a + b + W' + (S' + p)" by (simp add: ac_simps)
  also have "\<dots> = a + S + (b + p' + W')" by (simp add: assms(1) ac_simps)
  also have "\<dots> = (a + S + W) + p" unfolding assms(2)[symmetric] by (simp add: ac_simps)
  finally show ?thesis by simp
qed

text \<open>One core moves, everything else stays.\<close>

lemma conserve_step:
  assumes inv: "grid_inv cfg k0 (k, cs, log)" and i: "i < length cs" "cs ! i = (A, d)"
    and core: "core_ok cfg (same_launch k0) A' d'"
    and log: "list_all (\<lambda>rec. \<exists>r. same_launch k0 r \<and> record_ok cfg r rec) new"
    and mv: "moved cfg k (outstanding cfg d) k' (mset (map tag_of new) + outstanding cfg d')"
  shows "grid_inv cfg k0 (k', cs[i := (A', d')], log @ new)"
proof -
  let ?f = "\<lambda>(A :: warp_mask, d). outstanding cfg d"
  obtain n where n: "\<not> kmu_running (snd (kmu_run n k))"
    "mset (map tag_of log) + sum_list (map ?f cs) + sum_list (map (work cfg) (fst (kmu_run n k)))
      = sum_list (map (work cfg) (fst (kmu_run (grid_blocks (kmu_grid_dim k0)) (kmu_start k0))))"
    using inv unfolding grid_inv_def prod.case by blast
  have upd: "sum_list (map ?f (cs[i := (A', d')])) + outstanding cfg d = sum_list (map ?f cs) + outstanding cfg d'"
    using sum_list_update_mset[OF i(1), of ?f "(A', d')"] i(2) by simp
  have regs: "same_regs k0 k'"
    using inv mv same_regs_trans[OF _ same_regs_advance, of k0 k]
    unfolding grid_inv_def moved_def prod.case by blast
  have rest: "list_all (\<lambda>(A, d). core_ok cfg (same_launch k0) A d) (cs[i := (A', d')])"
    "list_all (\<lambda>rec. \<exists>r. same_launch k0 r \<and> record_ok cfg r rec) (log @ new)"
    using inv core log unfolding grid_inv_def prod.case by (simp_all add: list_all_update)
  have "\<exists>n'. \<not> kmu_running (snd (kmu_run n' k')) \<and>
      outstanding cfg d + sum_list (map (work cfg) (fst (kmu_run n k)))
      = mset (map tag_of new) + outstanding cfg d' + sum_list (map (work cfg) (fst (kmu_run n' k')))"
  proof (cases "k' = k \<and> mset (map tag_of new) + outstanding cfg d' = outstanding cfg d")
    case True
    then show ?thesis using n(1) by (intro exI[of _ n]) simp
  next
    case False
    then have m: "kmu_running k" "k' = kmu_advance k"
      "mset (map tag_of new) + outstanding cfg d' = outstanding cfg d + work cfg (kmu_request k)"
      using mv by (auto simp: moved_def)
    then obtain n' where n': "n = Suc n'" using n(1) by (cases n) auto
    have "fst (kmu_run n k) = kmu_request k # fst (kmu_run n' k')" "snd (kmu_run n k) = snd (kmu_run n' k')"
      using m by (simp_all add: n' kmu_step_def split: prod.splits)
    then show ?thesis using n(1) m(3) by (intro exI[of _ n']) (simp add: ac_simps)
  qed
  then obtain n' where n': "\<not> kmu_running (snd (kmu_run n' k'))"
    "outstanding cfg d + sum_list (map (work cfg) (fst (kmu_run n k)))
      = mset (map tag_of new) + outstanding cfg d' + sum_list (map (work cfg) (fst (kmu_run n' k')))" by blast
  have "mset (map tag_of (log @ new)) + sum_list (map ?f (cs[i := (A', d')])) + sum_list (map (work cfg) (fst (kmu_run n' k')))
     = mset (map tag_of log) + sum_list (map ?f cs) + sum_list (map (work cfg) (fst (kmu_run n k)))"
    using balance[OF upd n'(2)] by simp
  note total = trans[OF this n(2)]
  show ?thesis unfolding grid_inv_def prod.case
    by (intro conjI exI[of _ n'] regs rest n'(1) total)
qed

lemma grid_inv_core:
  assumes "grid_inv cfg k0 (k, cs, log)" "i < length cs" "cs ! i = (A, d)"
  shows "core_ok cfg (same_launch k0) A d" "same_regs k0 k"
  using assms by (auto simp: grid_inv_def list_all_length)

lemma grid_inv_step:
  assumes cfg: "cfg_ok cfg" and fits: "launch_fits cfg k0" and inv: "grid_inv cfg k0 s" and st: "grid_step cfg s s'"
  shows "grid_inv cfg k0 s'"
  using st
proof (cases rule: grid_step.cases)
  case (idle i cs A d k k' d' log)
  note core = grid_inv_core[OF inv[unfolded idle(1)] idle(3,4)]
  have "core_step_ok cfg (same_launch k0) A k d None k' d'"
    using dispatcher_step_ok[OF cfg core(1), of k] same_regs_request[OF core(2)] same_launch_fits[OF fits] idle(5) by auto
  then show ?thesis
    using conserve_step[OF inv[unfolded idle(1)] idle(3,4), of A d' "[]" k'] by (simp add: core_step_ok_def idle(2))
next
  case (launch i cs A d k w rec k' d' log)
  note core = grid_inv_core[OF inv[unfolded launch(1)] launch(3,4)]
  have "core_step_ok cfg (same_launch k0) A k d (Some (w, rec)) k' d'"
    using dispatcher_step_ok[OF cfg core(1), of k] same_regs_request[OF core(2)] same_launch_fits[OF fits] launch(5) by auto
  then show ?thesis
    using conserve_step[OF inv[unfolded launch(1)] launch(3,4), of "insert w A" d' "[rec]" k']
    by (simp add: core_step_ok_def launch(2))
next
  case (exit i cs A d w d' k log)
  note core = grid_inv_core[OF inv[unfolded exit(1)] exit(3,4)]
  have "core_ok cfg (same_launch k0) (A - {w}) d'" "outstanding cfg d' = outstanding cfg d"
    using warp_done_core_ok[OF core(1) exit(6)] exit(7) by auto
  then show ?thesis
    using conserve_step[OF inv[unfolded exit(1)] exit(3,4), of "A - {w}" d' "[]" k] by (simp add: moved_def exit(2))
next
  case (spawn i cs A d w k log)
  note core = grid_inv_core[OF inv[unfolded spawn(1)] spawn(3,4)]
  have "core_ok cfg (same_launch k0) (insert w A) d" using core(1) by (auto simp: core_ok_def assigned_active_def)
  then show ?thesis
    using conserve_step[OF inv[unfolded spawn(1)] spawn(3,4), of "insert w A" d "[]" k] by (simp add: moved_def spawn(2))
qed

lemma dispatcher_init_core_ok: "core_ok cfg P {} (dispatcher_init cfg)"
  unfolding core_ok_def by (simp add: disp_ok_reset) (simp add: emit_ok_def assigned_active_def reqs_sat_def dispatcher_init_def)

lemma grid_reach_inv:
  assumes cfg: "cfg_ok cfg" and fits: "launch_fits cfg k"
    and run: "kmu_running (kmu_start k)" "cluster_divides (kmu_cluster_dim k) (kmu_grid_dim k)"
    and reach: "grid_reach cfg n k s"
  shows "grid_inv cfg k s"
  using reach
proof induction
  case start
  let ?N = "grid_blocks (kmu_grid_dim k)"
  have "\<not> kmu_running (snd (kmu_run ?N (kmu_start k)))"
    using kmu_run_ranks[OF kmu_start_walk_ok(1)[OF run] run(1), of ?N] kmu_start_walk_ok[OF run] by simp
  moreover have "outstanding cfg (dispatcher_init cfg) = {#}" by (simp add: outstanding_def dispatcher_init_def)
  moreover have "sum_list (map f (replicate n x)) = {#}" if "f x = {#}" for f :: "'b \<Rightarrow> 'c multiset" and x
    using that by (induction n) auto
  ultimately show ?case
    unfolding grid_inv_def prod.case
    by (intro conjI exI[of _ ?N]) (simp_all add: same_regs_start list_all_length dispatcher_init_core_ok)
next
  case (step s s')
  then show ?case using grid_inv_step[OF cfg fits] by blast
qed

section \<open>Every thread once\<close>

text \<open>The threads of a grid and those a launch record starts, as pairs of a block and a thread number.\<close>

definition grid_threads :: "kmu \<Rightarrow> (dim3 \<times> nat) set" where
  "grid_threads k = {(b, j). in_grid (kmu_grid_dim k) b \<and> j < unat (kmu_block_size k)}"

definition threads_of :: "disp_cfg \<Rightarrow> 'w::len cta_warp_record_t \<Rightarrow> (dim3 \<times> nat) set" where
  "threads_of cfg rec = (\<lambda>t. (rec_block_idx rec, unat (rec_cta_rank rec) * NT cfg + t)) ` bv_bits (rec_tmask rec)"

lemma threads_of_record:
  assumes "cfg_ok cfg" "same_launch k r" "record_ok cfg r rec"
  shows "threads_of cfg rec = {(b, j). b = fst (tag_of rec) \<and> j div NT cfg = snd (tag_of rec) \<and> j < unat (kmu_block_size k)}"
proof -
  have nt: "0 < NT cfg" using assms(1) by (simp add: cfg_ok_def word_gt_0 unat_gt_0)
  have bits: "bv_bits (rec_tmask rec) = {t. t < NT cfg \<and> unat (rec_cta_rank rec) * NT cfg + t < unat (kmu_block_size k)}"
    using assms by (auto simp: record_ok_def same_launch_def req_threads_def)
  have "j \<in> (\<lambda>t. q * NT cfg + t) ` {t. t < NT cfg \<and> q * NT cfg + t < B} \<longleftrightarrow> j div NT cfg = q \<and> j < B" for j q B
  proof
    assume "j div NT cfg = q \<and> j < B"
    then have "j = q * NT cfg + j mod NT cfg" "j < B" by auto
    then show "j \<in> (\<lambda>t. q * NT cfg + t) ` {t. t < NT cfg \<and> q * NT cfg + t < B}" using nt by force
  qed (use nt in auto)
  moreover have "threads_of cfg rec = Pair (rec_block_idx rec) ` ((\<lambda>t. unat (rec_cta_rank rec) * NT cfg + t) ` bv_bits (rec_tmask rec))"
    unfolding threads_of_def image_image ..
  ultimately show ?thesis unfolding bits tag_of_def by auto
qed

lemma sum_work:
  assumes "\<forall>r \<in> set rs. req_block_size r = B"
  shows "sum_list (map (work cfg) rs) = mset (List.product (map req_block_idx rs) [0..<warps_of cfg B])"
  using assms by (induction rs) (simp_all add: work_def ranks_from_def)

lemma kmu_run_same_regs: "same_regs k0 k \<Longrightarrow> r \<in> set (fst (kmu_run n k)) \<Longrightarrow> same_launch k0 r"
proof (induction n arbitrary: k)
  case (Suc n)
  then show ?case
    using same_regs_request[of k0 k] Suc.IH[OF same_regs_trans[OF Suc.prems(1) same_regs_advance]]
    by (auto simp: kmu_step_def split: if_splits prod.splits)
qed simp

lemma grid_total:
  assumes run: "kmu_running (kmu_start k)" "cluster_divides (kmu_cluster_dim k) (kmu_grid_dim k)"
  obtains L where "sum_list (map (work cfg) (fst (kmu_run (grid_blocks (kmu_grid_dim k)) (kmu_start k)))) = mset L"
    "distinct L" "set L = {(b, q). in_grid (kmu_grid_dim k) b \<and> q < warps_of cfg (kmu_block_size k)}"
proof -
  let ?rs = "fst (kmu_run (grid_blocks (kmu_grid_dim k)) (kmu_start k))"
  have B: "\<forall>r \<in> set ?rs. req_block_size r = kmu_block_size k"
    using kmu_run_same_regs[OF same_regs_start] by (auto simp: same_launch_def)
  have w: "distinct (map req_block_idx ?rs)" "req_block_idx ` set ?rs = {b. in_grid (kmu_grid_dim k) b}"
    using kmu_walk_complete[OF run order.refl] by simp_all
  show thesis
    by (rule that[OF sum_work[OF B]]) (use w in \<open>auto simp: distinct_product\<close>)
qed

lemma grid_inv_log:
  assumes "grid_inv cfg k0 (k, cs, log)" "rec \<in> set log"
  obtains r where "same_launch k0 r" "record_ok cfg r rec"
proof -
  have "list_all (\<lambda>rec. \<exists>r. same_launch k0 r \<and> record_ok cfg r rec) log"
    using assms(1) by (simp add: grid_inv_def)
  then show thesis using assms(2) that by (auto simp: list_all_iff)
qed

lemma grid_quiet_outstanding:
  assumes "grid_inv cfg k0 (k, cs, log)" "\<forall>c \<in> set cs. \<not> dispatcher_running k (snd c)" "cs \<noteq> []"
  shows "mset (map tag_of log) = sum_list (map (work cfg) (fst (kmu_run (grid_blocks (kmu_grid_dim k0)) (kmu_start k0))))"
proof -
  obtain n where n: "mset (map tag_of log) + sum_list (map (\<lambda>(A, d). outstanding cfg d) cs)
      + sum_list (map (work cfg) (fst (kmu_run n k)))
      = sum_list (map (work cfg) (fst (kmu_run (grid_blocks (kmu_grid_dim k0)) (kmu_start k0))))"
    using assms(1) unfolding grid_inv_def prod.case by blast
  have "\<not> kmu_running k" using assms(2,3) by (cases cs) (auto simp: dispatcher_running_def)
  then have k: "fst (kmu_run n k) = []" by (cases n) (simp_all add: kmu_step_def)
  have "sum_list (map (\<lambda>(A, d). outstanding cfg d) cs) = {#}"
    using assms(2) by (induction cs) (auto simp: dispatcher_running_def outstanding_def)
  then show ?thesis using n k by simp
qed

lemma distinct_submset:
  assumes "mset xs \<subseteq># mset ys" "distinct ys"
  shows "distinct xs"
proof -
  have "count (mset xs) a = (if a \<in> set xs then 1 else 0)" for a
  proof -
    have "count (mset xs) a \<le> count (mset ys) a" using assms(1) by (rule mset_subset_eq_count)
    also have "\<dots> \<le> 1" using assms(2) by (simp add: distinct_count_atmost_1)
    finally have "count (mset xs) a \<le> 1" .
    moreover have "a \<in> set xs \<longleftrightarrow> count (mset xs) a \<noteq> 0" using count_eq_zero_iff[of "mset xs" a] by simp
    ultimately show ?thesis by (cases "count (mset xs) a") simp_all
  qed
  then show ?thesis by (simp add: distinct_count_atmost_1)
qed

lemma grid_launched_once:
  assumes cfg: "cfg_ok cfg" and fits: "launch_fits cfg k"
    and run: "kmu_running (kmu_start k)" "cluster_divides (kmu_cluster_dim k) (kmu_grid_dim k)"
    and reach: "grid_reach cfg n k (k', cs, log)"
  shows "(\<forall>i j. i < j \<and> j < length log \<longrightarrow> threads_of cfg (log ! i) \<inter> threads_of cfg (log ! j) = {})
    \<and> (\<Union> (threads_of cfg ` set log)) \<subseteq> grid_threads k
    \<and> (cs \<noteq> [] \<and> (\<forall>c \<in> set cs. \<not> dispatcher_running k' (snd c)) \<longrightarrow> (\<Union> (threads_of cfg ` set log)) = grid_threads k)"
proof -
  have inv: "grid_inv cfg k (k', cs, log)" by (rule grid_reach_inv[OF cfg fits run reach])
  obtain L where L: "sum_list (map (work cfg) (fst (kmu_run (grid_blocks (kmu_grid_dim k)) (kmu_start k)))) = mset L"
    "distinct L" "set L = {(b, q). in_grid (kmu_grid_dim k) b \<and> q < warps_of cfg (kmu_block_size k)}"
    by (rule grid_total[OF run])
  obtain M where "mset (map tag_of log) + M = mset L"
    using inv unfolding grid_inv_def prod.case L(1) add.assoc by blast
  then have sub: "mset (map tag_of log) \<subseteq># mset L" by (metis mset_subset_eq_add_left)
  then have dist: "distinct (map tag_of log)" using L(2) by (rule distinct_submset)
  have mem: "(b, j) \<in> threads_of cfg rec \<longleftrightarrow> tag_of rec = (b, j div NT cfg) \<and> j < unat (kmu_block_size k)"
    if "rec \<in> set log" for rec b j
  proof -
    obtain r where r: "same_launch k r" "record_ok cfg r rec"
      by (rule grid_inv_log[OF inv \<open>rec \<in> set log\<close>])
    show ?thesis unfolding threads_of_record[OF cfg r] by (auto simp: prod_eq_iff)
  qed
  have tags: "tag_of ` set log \<subseteq> set L" using set_mset_mono[OF sub] by simp
  have disj: "threads_of cfg (log ! i) \<inter> threads_of cfg (log ! j) = {}" if "i < j" "j < length log" for i j
  proof -
    have "tag_of (log ! i) \<noteq> tag_of (log ! j)" using dist that by (simp add: distinct_conv_nth)
    then show ?thesis using mem[of "log ! i"] mem[of "log ! j"] that by fastforce
  qed
  have cover: "(\<Union> (threads_of cfg ` set log)) = {(b, j). (b, j div NT cfg) \<in> tag_of ` set log \<and> j < unat (kmu_block_size k)}"
  proof (rule set_eqI)
    fix x :: "dim3 \<times> nat"
    obtain b j where x: "x = (b, j)" by (cases x)
    have "x \<in> (\<Union> (threads_of cfg ` set log)) \<longleftrightarrow> (\<exists>rec \<in> set log. tag_of rec = (b, j div NT cfg) \<and> j < unat (kmu_block_size k))"
      unfolding x using mem by blast
    also have "\<dots> \<longleftrightarrow> (b, j div NT cfg) \<in> tag_of ` set log \<and> j < unat (kmu_block_size k)"
      unfolding image_iff by (metis)
    finally show "x \<in> (\<Union> (threads_of cfg ` set log)) \<longleftrightarrow> x \<in> {(b, j). (b, j div NT cfg) \<in> tag_of ` set log \<and> j < unat (kmu_block_size k)}"
      by (simp add: x)
  qed
  have L': "(b, j div NT cfg) \<in> set L \<longleftrightarrow> in_grid (kmu_grid_dim k) b" if "j < unat (kmu_block_size k)" for b j
  proof -
    have "j div NT cfg * NT cfg \<le> j" by simp
    then have "j div NT cfg < warps_of cfg (kmu_block_size k)"
      unfolding warps_of_bound[OF cfg] using that by linarith
    then show ?thesis unfolding L(3) by simp
  qed
  have "(\<Union> (threads_of cfg ` set log)) = grid_threads k"
    if "cs \<noteq> []" "\<forall>c \<in> set cs. \<not> dispatcher_running k' (snd c)"
  proof -
    have "tag_of ` set log = set L"
      using grid_quiet_outstanding[OF inv that(2,1)] unfolding L(1) by (metis list.set_map set_mset_mset)
    then show ?thesis unfolding cover grid_threads_def using L' by auto
  qed
  moreover have "(\<Union> (threads_of cfg ` set log)) \<subseteq> grid_threads k"
    unfolding cover grid_threads_def using L' tags by auto
  ultimately show ?thesis using disj by (intro conjI) simp_all
qed

section \<open>Safety and progress\<close>

lemma grid_reach_core:
  assumes "cfg_ok cfg" "launch_fits cfg k" "kmu_running (kmu_start k)"
    "cluster_divides (kmu_cluster_dim k) (kmu_grid_dim k)" "grid_reach cfg n k (k', cs, log)"
    "i < length cs" "cs ! i = (A, d)"
  shows "core_ok cfg (same_launch k) A d" "kmu_running k' \<Longrightarrow> same_launch k (kmu_request k')"
proof -
  note inv = grid_reach_inv[OF assms(1-5)]
  show "core_ok cfg (same_launch k) A d" by (rule grid_inv_core(1)[OF inv assms(6,7)])
  show "same_launch k (kmu_request k')" by (rule same_regs_request[OF grid_inv_core(2)[OF inv assms(6,7)]])
qed

lemma idle_core_free:
  assumes "disp_ok cfg d" "assigned_active cfg {} d" "\<not> has_cta d" "s < NW cfg"
  shows "slot_rem_warps d ! s = 0"
proof -
  have "holders (wid_to_slot d) s = {}" using assms by (auto simp: holders_def assigned_active_def disp_ok_def)
  then have "unat (slot_rem_warps d ! s) = 0" using assms by (auto simp: disp_ok_def to_launch_def)
  then show ?thesis by (simp add: unat_eq_0)
qed

lemma idle_core_launches:
  assumes cfg: "cfg_ok cfg" and core: "core_ok cfg P {} d"
    and P: "kmu_running k \<Longrightarrow> P (kmu_request k)" "\<And>r. P r \<Longrightarrow> req_fits cfg r" and run: "dispatcher_running k d"
  shows "\<exists>w rec k' d'. dispatcher_step cfg {} k d = Some (Some (w, rec), k', d')"
proof -
  have nw: "0 < NW cfg" using cfg by (simp add: cfg_ok_def word_gt_0 unat_gt_0)
  then obtain w where w: "free_wid cfg {} = Some w" using free_wid_None[of cfg "{}"] by auto
  have launch: "\<exists>w rec k' d'. dispatcher_step cfg {} k d = Some (Some (w, rec), k', d')"
    if "(if has_cta d then Some (True, k, d) else load_cta cfg k d) = Some (True, k1, d1)" "core_ok cfg P {} d1" "has_cta d1" for k1 d1
  proof -
    note h = launch_half_ok[OF cfg that(2,3) w]
    obtain rec d' where "launch_half cfg {} k1 d1 = Some (Some (w, rec), k1, d')" by (rule h)
    then show ?thesis unfolding dispatcher_step_split that(1) by auto
  qed
  show ?thesis
  proof (cases "has_cta d")
    case True
    then show ?thesis using launch core by simp
  next
    case False
    then have "fetch_cta k d \<noteq> None"
      using run by (auto simp: dispatcher_running_def fetch_cta_def kmu_step_def split: if_splits)
    then obtain k1 d1 where f: "fetch_cta k d = Some (k1, d1)" by auto
    have "P (pending_cta d1)"
      using f P(1) core by (auto simp: fetch_cta_def kmu_step_def core_ok_def reqs_sat_def split: if_splits)
    then have fit: "req_fits cfg (pending_cta d1)" by (rule P(2))
    have ok: "disp_ok cfg d" and aa: "assigned_active cfg {} d" using core by (simp_all add: core_ok_def)
    obtain b k2 d2 where l: "load_cta cfg k d = Some (b, k2, d2)" "core_ok cfg P {} d2" "b \<longrightarrow> has_cta d2"
      using load_step[OF cfg core False P] by blast
    have b
    proof (cases rule: load_cta_cases[OF cfg ok f fit])
      case (1 t j)
      have "window_base cfg d (pending_cta d1) + j < NW cfg"
        using window_base_bound[OF cfg, of d "pending_cta d1"] slots_for_bounds[OF cfg, of "pending_cta d1"] 1(2) by linarith
      then show ?thesis using idle_core_free[OF ok aa False] 1(3) by blast
    qed (use l in simp)
    then show ?thesis using launch[of k2 d2] l False by simp
  qed
qed

section \<open>Properties\<close>

text \<open>
  C2.  Every thread of a launched grid is started exactly once.  Whatever number of cores draws
  from the grid walk, and however their steps, the exits of warps and spawned warps interleave, no
  two launch records start the same thread of the same block, only threads of the grid are started,
  and when every dispatcher has stopped running all of them have been.
\<close>

theorem grid_threads_started_once:
  assumes "cfg_ok cfg" "launch_fits cfg k" "kmu_running (kmu_start k)"
    "cluster_divides (kmu_cluster_dim k) (kmu_grid_dim k)" "grid_reach cfg n k (k', cs, log)"
  shows "(\<forall>i j. i < j \<and> j < length log \<longrightarrow> threads_of cfg (log ! i) \<inter> threads_of cfg (log ! j) = {})
    \<and> (\<Union> (threads_of cfg ` set log)) \<subseteq> grid_threads k
    \<and> (cs \<noteq> [] \<and> (\<forall>c \<in> set cs. \<not> dispatcher_running k' (snd c)) \<longrightarrow> (\<Union> (threads_of cfg ` set log)) = grid_threads k)"
  by (rule grid_launched_once[OF assms])

text \<open>The witness: one block of two threads, launched by one core in one step.\<close>

definition demo_cfg :: disp_cfg where
  "demo_cfg = \<lparr>cfg_num_threads = 4, cfg_num_warps = 4, cfg_lmem_base = 0xFFFF0000, cfg_lmem_capacity = 0x4000,
     cfg_mem_block_size = 64\<rparr>"

definition demo_kernel :: kmu where
  "demo_kernel = kmu_init\<lparr>kmu_PC := 0x80000000, kmu_block_size := 2, kmu_block_dim := mk_dim3 2 1 1,
     kmu_warp_step := mk_dim3 0 0 0\<rparr>"

definition launched_and_quiet :: "((nat \<times> 32 cta_warp_record_t) option \<times> kmu \<times> 32 cta_dispatcher) option \<Rightarrow> bool" where
  "launched_and_quiet r = (case r of Some (Some (w, rec), k', d') \<Rightarrow> \<not> dispatcher_running k' d' | _ \<Rightarrow> False)"

lemma demo_step: "launched_and_quiet (dispatcher_step demo_cfg {} (kmu_start demo_kernel) (dispatcher_init demo_cfg))"
  by code_simp

lemma demo_launch_ok: "cfg_ok demo_cfg \<and> launch_fits demo_cfg demo_kernel \<and> kmu_running (kmu_start demo_kernel)
    \<and> cluster_divides (kmu_cluster_dim demo_kernel) (kmu_grid_dim demo_kernel)"
  by (simp add: cfg_ok_def launch_fits_def block_fits_def cluster_divides_def demo_cfg_def demo_kernel_def
      kmu_start_def kmu_init_def mk_dim3_def)

theorem grid_threads_started_once_witness:
  "\<exists>k' cs log. grid_reach demo_cfg 1 demo_kernel (k', cs, log :: 32 cta_warp_record_t list)
     \<and> (\<Union> (threads_of demo_cfg ` set log)) = grid_threads demo_kernel"
proof -
  let ?d = "dispatcher_init demo_cfg :: 32 cta_dispatcher"
  obtain w rec k' d' where st: "dispatcher_step demo_cfg {} (kmu_start demo_kernel) ?d = Some (Some (w, rec), k', d')"
    and q: "\<not> dispatcher_running k' d'"
    using demo_step by (auto simp: launched_and_quiet_def split: option.splits prod.splits)
  have "grid_step demo_cfg (kmu_start demo_kernel, [({}, ?d)], []) (k', [({}, ?d)][0 := (insert w {}, d')], [] @ [rec])"
    using st by (intro grid_step.launch) simp_all
  then have r: "grid_reach demo_cfg 1 demo_kernel (k', [({w}, d')], [rec])"
    using grid_reach.step[OF grid_reach.start[of demo_cfg 1 demo_kernel]] by simp
  have "(\<Union> (threads_of demo_cfg ` set [rec])) = grid_threads demo_kernel"
    using grid_threads_started_once[OF _ _ _ _ r] demo_launch_ok q by simp
  then show ?thesis using r by blast
qed

text \<open>
  C3.  The dispatcher never leaves its tables and its assertion never fails: in every reachable
  state each core's \<open>step\<close> and the \<open>warp_done\<close> of any warp are defined, and every slot counts exactly
  the warps that hold it plus those its CTA has still to launch.
\<close>

theorem dispatcher_slots_exact:
  assumes "cfg_ok cfg" "launch_fits cfg k" "kmu_running (kmu_start k)"
    "cluster_divides (kmu_cluster_dim k) (kmu_grid_dim k)" "grid_reach cfg n k (k', cs, log)"
    "i < length cs" "cs ! i = (A, d)" "w < unat (cfg_num_warps cfg)"
  shows "dispatcher_step cfg A k' d \<noteq> None \<and> warp_done cfg d w \<noteq> None
    \<and> (\<forall>s < unat (cfg_num_warps cfg). unat (slot_rem_warps d ! s) = card (holders (wid_to_slot d) s) + to_launch d s)"
proof -
  note core = grid_reach_core[OF assms(1-7)]
  have "dispatcher_step cfg A k' d \<noteq> None"
    using dispatcher_step_ok[OF assms(1) core(1), of k'] core(2) same_launch_fits[OF assms(2)] by auto
  moreover have "warp_done cfg d w \<noteq> None" using warp_done_core_ok[OF core(1) assms(8)] by auto
  ultimately show ?thesis using core(1) by (simp add: core_ok_def disp_ok_def)
qed

lemma demo_cfg_sizes: "unat (cfg_num_warps demo_cfg) = 4" "unat (cfg_num_threads demo_cfg) = 4"
  by (simp_all add: demo_cfg_def)

theorem dispatcher_slots_exact_witness:
  "dispatcher_step demo_cfg {} (kmu_start demo_kernel) (dispatcher_init demo_cfg :: 32 cta_dispatcher) \<noteq> None"
  using dispatcher_slots_exact[OF _ _ _ _ grid_reach.start[of demo_cfg 1 demo_kernel], of 0 "{}" "dispatcher_init demo_cfg :: 32 cta_dispatcher" 0]
    demo_launch_ok by (simp add: demo_cfg_sizes)

text \<open>
  C4.  No deadlock: a core without active warps that still has something to dispatch launches a
  warp in its next step, because every slot of its local memory is free by then.
\<close>

theorem dispatcher_progress:
  assumes "cfg_ok cfg" "launch_fits cfg k" "kmu_running (kmu_start k)"
    "cluster_divides (kmu_cluster_dim k) (kmu_grid_dim k)" "grid_reach cfg n k (k', cs, log)"
    "i < length cs" "cs ! i = ({}, d)" "dispatcher_running k' d"
  shows "\<exists>w rec k'' d'. dispatcher_step cfg {} k' d = Some (Some (w, rec), k'', d')"
proof -
  note core = grid_reach_core[OF assms(1-7)]
  show ?thesis by (rule idle_core_launches[OF assms(1) core(1) core(2) same_launch_fits[OF assms(2)] assms(8)])
qed

theorem dispatcher_progress_witness:
  "\<exists>w rec k'' d'. dispatcher_step demo_cfg {} (kmu_start demo_kernel) (dispatcher_init demo_cfg :: 32 cta_dispatcher)
     = Some (Some (w, rec), k'', d')"
  using dispatcher_progress[OF _ _ _ _ grid_reach.start[of demo_cfg 1 demo_kernel], of 0 "dispatcher_init demo_cfg :: 32 cta_dispatcher"]
    demo_launch_ok by (simp add: dispatcher_running_def)

text \<open>
  C6.  The warps carry the right thread coordinates.  If the block size is the volume of the block
  dimensions and the warp step is their mixed-radix expansion of the warp width, then each launched
  warp starts at the coordinates of its first thread, x running fastest, although the dispatcher
  only ever adds the step with carries.
\<close>

theorem warp_thread_index:
  assumes "cfg_ok cfg" "launch_fits cfg k" "kmu_running (kmu_start k)"
    "cluster_divides (kmu_cluster_dim k) (kmu_grid_dim k)" "grid_reach cfg n k (k', cs, log)" "rec \<in> set log"
    "nx (kmu_block_dim k) * ny (kmu_block_dim k) * nz (kmu_block_dim k) = unat (kmu_block_size k)"
    "step_matches (unat (cfg_num_threads cfg)) (kmu_block_dim k) (kmu_warp_step k)"
  shows "at_thread (rec_block_dim rec) (unat (rec_cta_rank rec) * unat (cfg_num_threads cfg)) (rec_thread_idx rec)"
proof -
  obtain r where r: "same_launch k r" "record_ok cfg r rec" by (rule grid_inv_log[OF grid_reach_inv[OF assms(1-5)] assms(6)])
  then have "shape_ok cfg r" using assms(7,8) by (simp add: shape_ok_def same_launch_def req_threads_def)
  then show ?thesis using r(2) by (simp add: record_ok_def)
qed

theorem warp_thread_index_witness:
  "\<exists>k' cs rec. grid_reach demo_cfg 1 demo_kernel (k', cs, [rec :: 32 cta_warp_record_t])
     \<and> at_thread (rec_block_dim rec) (unat (rec_cta_rank rec) * 4) (rec_thread_idx rec)"
proof -
  let ?d = "dispatcher_init demo_cfg :: 32 cta_dispatcher"
  obtain w rec k' d' where st: "dispatcher_step demo_cfg {} (kmu_start demo_kernel) ?d = Some (Some (w, rec), k', d')"
    using demo_step by (auto simp: launched_and_quiet_def split: option.splits prod.splits)
  have "grid_step demo_cfg (kmu_start demo_kernel, [({}, ?d)], []) (k', [({}, ?d)][0 := (insert w {}, d')], [] @ [rec])"
    using st by (intro grid_step.launch) simp_all
  then have r: "grid_reach demo_cfg 1 demo_kernel (k', [({w}, d')], [rec])"
    using grid_reach.step[OF grid_reach.start[of demo_cfg 1 demo_kernel]] by simp
  have "step_matches 4 (mk_dim3 2 1 1) (mk_dim3 0 0 0)" by (simp add: step_matches_def mk_dim3_def)
  then have "at_thread (rec_block_dim rec) (unat (rec_cta_rank rec) * 4) (rec_thread_idx rec)"
    using warp_thread_index[OF _ _ _ _ r, of rec] demo_launch_ok
    by (simp add: demo_kernel_def demo_cfg_sizes mk_dim3_def)
  then show ?thesis using r by blast
qed

text \<open>Local memory of the slots.\<close>

lemma usable_slots_fit:
  assumes "stride \<noteq> 0" "stride \<le> cfg_lmem_capacity cfg" "s < unat (usable_slots cfg stride)"
  shows "(s + 1) * unat stride \<le> unat (cfg_lmem_capacity cfg)"
proof -
  have "unat (usable_slots cfg stride) \<le> max 1 (unat (cfg_lmem_capacity cfg) div unat stride)"
    using assms(1) by (auto simp: usable_slots_def Let_def unat_div[symmetric] word_less_nat_alt)
  moreover have "1 \<le> unat (cfg_lmem_capacity cfg) div unat stride"
    using assms(1,2) by (simp add: word_le_nat_alt div_greater_zero_iff Suc_le_eq unat_gt_0)
  ultimately have "s + 1 \<le> unat (cfg_lmem_capacity cfg) div unat stride" using assms(3) by (simp add: max_def)
  then show ?thesis using assms(1) by (metis div_times_less_eq_dividend mult_le_mono1 order_trans)
qed

text \<open>The stride of the slots is the requested size rounded up to whole memory blocks.\<close>

lemma slot_stride_value:
  assumes "cfg_mem_block_size cfg = 2 ^ b" "b < 32" "unat lmem + 2 ^ b \<le> 2 ^ 32"
  shows "unat (slot_stride cfg lmem) = (unat lmem + 2 ^ b - 1) div 2 ^ b * 2 ^ b" "unat lmem \<le> unat (slot_stride cfg lmem)"
    "2 ^ b dvd unat (slot_stride cfg lmem)" "unat (slot_stride cfg lmem) < unat lmem + 2 ^ b"
proof -
  have p: "unat (2 ^ b :: u32) = 2 ^ b" using assms(2) unat_power2[of b, where 'a = 32] by simp
  have o: "unat (2 ^ b - 1 :: u32) = 2 ^ b - 1"
    using p by (subst unat_sub) (simp_all add: word_le_nat_alt)
  have "unat (lmem + (2 ^ b - 1)) = unat lmem + (2 ^ b - 1)"
    using assms(3) o by (subst unat_plus_no_wrap) (auto simp: less_eq_Suc_le)
  then have x: "unat (lmem + 2 ^ b - 1) = unat lmem + 2 ^ b - 1" by (simp add: add_diff_eq)
  show v: "unat (slot_stride cfg lmem) = (unat lmem + 2 ^ b - 1) div 2 ^ b * 2 ^ b"
    unfolding slot_stride_def assms(1) mask_eq_exp_minus_1[symmetric] unat_clear_low x ..
  have "(unat lmem + 2 ^ b - 1) mod 2 ^ b < 2 ^ b" by simp
  then show "unat lmem \<le> unat (slot_stride cfg lmem)" unfolding v
    using div_mult_mod_eq[of "unat lmem + 2 ^ b - 1" "2 ^ b"] by linarith
  show "2 ^ b dvd unat (slot_stride cfg lmem)" unfolding v by simp
  have "(unat lmem + 2 ^ b - 1) div 2 ^ b * 2 ^ b \<le> unat lmem + 2 ^ b - 1" by simp
  then show "unat (slot_stride cfg lmem) < unat lmem + 2 ^ b" unfolding v by (rule le_less_trans) simp
qed

lemma dvd_gap: "(d :: nat) dvd a \<Longrightarrow> d dvd c \<Longrightarrow> a < c \<Longrightarrow> a + d \<le> c"
  using dvd_imp_le[of d "c - a"] by (simp add: dvd_diff_nat)

lemma slot_stride_fits:
  assumes b: "cfg_mem_block_size cfg = 2 ^ b" "b < 32" and cap: "2 ^ b dvd unat (cfg_lmem_capacity cfg)"
    and lmem: "lmem \<noteq> 0" "lmem \<le> cfg_lmem_capacity cfg"
  shows "slot_stride cfg lmem \<noteq> 0" "slot_stride cfg lmem \<le> cfg_lmem_capacity cfg" "unat lmem \<le> unat (slot_stride cfg lmem)"
    "2 ^ b dvd unat (slot_stride cfg lmem)"
proof -
  have "(2 :: nat) ^ b dvd 2 ^ 32" using b(2) by (intro le_imp_power_dvd) simp
  then have "unat (cfg_lmem_capacity cfg) + 2 ^ b \<le> 2 ^ 32" using cap u32_bound[of "cfg_lmem_capacity cfg"] by (intro dvd_gap) simp_all
  then have w: "unat lmem + 2 ^ b \<le> 2 ^ 32" using lmem(2) by (simp add: word_le_nat_alt)
  note v = slot_stride_value[OF b w]
  show "unat lmem \<le> unat (slot_stride cfg lmem)" "2 ^ b dvd unat (slot_stride cfg lmem)" by (rule v)+
  show "slot_stride cfg lmem \<noteq> 0" using v(2) lmem(1) by (auto simp: word_unat_eq_iff)
  show "slot_stride cfg lmem \<le> cfg_lmem_capacity cfg"
  proof (rule ccontr)
    assume "\<not> slot_stride cfg lmem \<le> cfg_lmem_capacity cfg"
    then have "unat (cfg_lmem_capacity cfg) + 2 ^ b \<le> unat (slot_stride cfg lmem)"
      using cap v(3) by (intro dvd_gap) (simp_all add: word_le_nat_alt)
    then show False using v(4) lmem(2) by (simp add: word_le_nat_alt)
  qed
qed

text \<open>
  C7.  Local memory is partitioned.  Let the memory block size be a power of two that divides the capacity, as the
  build makes it, and let the requested size be positive and at most the capacity.  Then the parts of local memory, of
  the requested size, that warps of CTAs in different slots are given do not overlap, every part lies inside the
  local memory, and it starts at a block boundary.
\<close>

theorem lmem_slots_disjoint:
  assumes "cfg_ok cfg" "launch_fits cfg k" "kmu_running (kmu_start k)"
    "cluster_divides (kmu_cluster_dim k) (kmu_grid_dim k)" "grid_reach cfg n k (k', cs, log)"
    "rec \<in> set log" "rec' \<in> set log" "rec_cta_id rec \<noteq> rec_cta_id rec'"
    and block: "cfg_mem_block_size cfg = 2 ^ b" "b < 32" "2 ^ b dvd unat (cfg_lmem_capacity cfg)"
    and lmem: "kmu_lmem_size k \<noteq> 0" "kmu_lmem_size k \<le> cfg_lmem_capacity cfg"
    and base: "unat (cfg_lmem_base cfg) + unat (cfg_lmem_capacity cfg) < 2 ^ 64"
  shows "(unat (rec_lmem_addr rec) + unat (kmu_lmem_size k) \<le> unat (rec_lmem_addr rec')
       \<or> unat (rec_lmem_addr rec') + unat (kmu_lmem_size k) \<le> unat (rec_lmem_addr rec))
     \<and> unat (cfg_lmem_base cfg) \<le> unat (rec_lmem_addr rec)
     \<and> unat (rec_lmem_addr rec) + unat (kmu_lmem_size k) \<le> unat (cfg_lmem_base cfg) + unat (cfg_lmem_capacity cfg)
     \<and> 2 ^ b dvd unat (rec_lmem_addr rec) - unat (cfg_lmem_base cfg)"
proof -
  define stride where "stride = slot_stride cfg (kmu_lmem_size k)"
  have stride: "stride \<noteq> 0" "stride \<le> cfg_lmem_capacity cfg" "unat (kmu_lmem_size k) \<le> unat stride" "2 ^ b dvd unat stride"
    using slot_stride_fits[OF block lmem] by (simp_all add: stride_def)
  note inv = grid_reach_inv[OF assms(1-5)]
  have addr: "unat (rec_lmem_addr c) = unat (cfg_lmem_base cfg) + unat (rec_cta_id c) * unat stride
      \<and> (unat (rec_cta_id c) + 1) * unat stride \<le> unat (cfg_lmem_capacity cfg)" if "c \<in> set log" for c
  proof -
    obtain r where r: "same_launch k r" "record_ok cfg r c" by (rule grid_inv_log[OF inv \<open>c \<in> set log\<close>])
    have st: "slot_stride cfg (req_lmem_size r) = stride" using r(1) by (simp add: same_launch_def stride_def)
    have fit: "(unat (rec_cta_id c) + 1) * unat stride \<le> unat (cfg_lmem_capacity cfg)"
      using r(2) stride by (intro usable_slots_fit) (simp_all add: record_ok_def slots_for_def st)
    have u: "unat (ucast x :: u64) = unat (x :: u32)" for x using u32_bound[of x] by (simp add: unsigned_ucast_eq take_bit_nat_eq_self)
    have m: "unat (ucast (rec_cta_id c) * ucast stride :: u64) = unat (rec_cta_id c) * unat stride"
      using fit u32_bound[of "cfg_lmem_capacity cfg"] by (subst unat_mult_lem[THEN iffD1]) (simp_all add: u)
    have "unat (slot_addr cfg r (rec_cta_id c)) = unat (cfg_lmem_base cfg) + unat (rec_cta_id c) * unat stride"
      unfolding slot_addr_def st using fit base by (subst unat_plus_no_wrap) (simp_all add: m)
    then show ?thesis using r(2) fit by (simp add: record_ok_def)
  qed
  have sep: "a * c + c \<le> d * c" if "a < d" for a d c :: nat
    using mult_le_mono1[of "Suc a" d c] that by simp
  have "unat (rec_cta_id rec) < unat (rec_cta_id rec') \<or> unat (rec_cta_id rec') < unat (rec_cta_id rec)"
    using assms(8) by (auto simp: word_unat_eq_iff nat_neq_iff)
  then show ?thesis
    using addr[OF assms(6)] addr[OF assms(7)] stride(3,4) sep[of "unat (rec_cta_id rec)" "unat (rec_cta_id rec')" "unat stride"]
      sep[of "unat (rec_cta_id rec')" "unat (rec_cta_id rec)" "unat stride"] by auto
qed

text \<open>The witness: two blocks of one warp each, with 100 bytes of local memory.\<close>

definition demo_kernel2 :: kmu where
  "demo_kernel2 = demo_kernel\<lparr>kmu_grid_dim := mk_dim3 2 1 1, kmu_lmem_size := 100\<rparr>"

definition other_slot :: "u32 \<Rightarrow> ((nat \<times> 32 cta_warp_record_t) option \<times> kmu \<times> 32 cta_dispatcher) option \<Rightarrow> bool" where
  "other_slot slot r = (case r of Some (Some (w, rec), k', d') \<Rightarrow> slot \<noteq> rec_cta_id rec | _ \<Rightarrow> False)"

definition two_slots :: "((nat \<times> 32 cta_warp_record_t) option \<times> kmu \<times> 32 cta_dispatcher) option \<Rightarrow> bool" where
  "two_slots r = (case r of Some (Some (w, rec), k', d') \<Rightarrow>
      other_slot (rec_cta_id rec) (dispatcher_step demo_cfg {w} k' d') | _ \<Rightarrow> False)"

lemma demo_two_steps: "two_slots (dispatcher_step demo_cfg {} (kmu_start demo_kernel2) (dispatcher_init demo_cfg))"
  by code_simp

theorem lmem_slots_disjoint_witness:
  "\<exists>k' cs rec rec'. grid_reach demo_cfg 1 demo_kernel2 (k', cs, [rec, rec' :: 32 cta_warp_record_t])
     \<and> (unat (rec_lmem_addr rec) + 100 \<le> unat (rec_lmem_addr rec') \<or> unat (rec_lmem_addr rec') + 100 \<le> unat (rec_lmem_addr rec))"
proof -
  let ?d = "dispatcher_init demo_cfg :: 32 cta_dispatcher" and ?k = "kmu_start demo_kernel2"
  obtain w rec k1 d1 where st1: "dispatcher_step demo_cfg {} ?k ?d = Some (Some (w, rec), k1, d1)"
    and o: "other_slot (rec_cta_id rec) (dispatcher_step demo_cfg {w} k1 d1)"
    using demo_two_steps by (auto simp: two_slots_def split: option.splits prod.splits)
  obtain w' rec' k2 d2 where st2: "dispatcher_step demo_cfg {w} k1 d1 = Some (Some (w', rec'), k2, d2)"
    and ne: "rec_cta_id rec \<noteq> rec_cta_id rec'"
    using o by (auto simp: other_slot_def split: option.splits prod.splits)
  note st = st1 st2
  have "grid_step demo_cfg (?k, [({}, ?d)], []) (k1, [({}, ?d)][0 := (insert w {}, d1)], [] @ [rec])"
    using st by (intro grid_step.launch) simp_all
  moreover have "grid_step demo_cfg (k1, [({w}, d1)], [rec]) (k2, [({w}, d1)][0 := (insert w' {w}, d2)], [rec] @ [rec'])"
    using st by (intro grid_step.launch) simp_all
  ultimately have r: "grid_reach demo_cfg 1 demo_kernel2 (k2, [({w', w}, d2)], [rec, rec'])"
    using grid_reach.step[OF grid_reach.step[OF grid_reach.start[of demo_cfg 1 demo_kernel2]]] by simp
  have ok: "cfg_ok demo_cfg" "launch_fits demo_cfg demo_kernel2" "kmu_running (kmu_start demo_kernel2)"
    "cluster_divides (kmu_cluster_dim demo_kernel2) (kmu_grid_dim demo_kernel2)"
    by (simp_all add: cfg_ok_def launch_fits_def block_fits_def cluster_divides_def demo_cfg_def demo_kernel2_def
      demo_kernel_def kmu_start_def kmu_init_def mk_dim3_def)
  have "cfg_mem_block_size demo_cfg = 2 ^ 6" "(2 :: nat) ^ 6 dvd unat (cfg_lmem_capacity demo_cfg)"
    "kmu_lmem_size demo_kernel2 \<noteq> 0" "kmu_lmem_size demo_kernel2 \<le> cfg_lmem_capacity demo_cfg"
    by (simp_all add: demo_cfg_def demo_kernel2_def)
  then show ?thesis
    using lmem_slots_disjoint[OF ok r, of rec rec' 6] ne r by (auto simp: demo_cfg_def demo_kernel2_def)
qed

text \<open>
  C8.  The grid walk is shared by all cores and a CTA goes to whichever core asks next, so the
  members of a cluster are not kept on one core: when two cores without a pending CTA fetch one
  after the other, and the first of them was handed the first CTA of a cluster of more than one CTA
  along x, the second core is handed the next member of the same cluster.
\<close>

theorem cluster_split_across_cores:
  assumes "kmu_running k" "intra_offset k = mk_dim3 0 0 0" "dim_x (kmu_cluster_dim k) \<noteq> 1"
    "\<not> has_pending d" "\<not> has_pending e"
  shows "\<exists>k1 k2 d1 e1. fetch_cta k d = Some (k1, d1) \<and> req_is_first_of_cluster (pending_cta d1)
     \<and> fetch_cta k1 e = Some (k2, e1) \<and> \<not> req_is_first_of_cluster (pending_cta e1)
     \<and> req_block_idx (pending_cta d1) = group_origin k
     \<and> req_block_idx (pending_cta e1) = (group_origin k)\<lparr>dim_x := dim_x (group_origin k) + 1\<rparr>"
  using assms
  by (simp add: fetch_cta_def kmu_step_def kmu_advance_def Let_def kmu_request_def kmu_block_idx_def mk_dim3_def)

theorem cluster_split_across_cores_witness:
  "\<exists>k1 k2 d1 e1. fetch_cta (kmu_start (demo_kernel\<lparr>kmu_grid_dim := mk_dim3 2 1 1, kmu_cluster_dim := mk_dim3 2 1 1\<rparr>))
       (dispatcher_init demo_cfg :: 32 cta_dispatcher) = Some (k1, d1)
     \<and> fetch_cta k1 (dispatcher_init demo_cfg :: 32 cta_dispatcher) = Some (k2, e1)
     \<and> \<not> req_is_first_of_cluster (pending_cta e1)"
proof -
  let ?k = "kmu_start (demo_kernel\<lparr>kmu_grid_dim := mk_dim3 2 1 1, kmu_cluster_dim := mk_dim3 2 1 1\<rparr>)"
  have "kmu_running ?k" "intra_offset ?k = mk_dim3 0 0 0" "dim_x (kmu_cluster_dim ?k) \<noteq> 1"
    by (simp_all add: kmu_start_def demo_kernel_def kmu_init_def mk_dim3_def)
  moreover have "\<not> has_pending (dispatcher_init demo_cfg :: 32 cta_dispatcher)" by (simp add: dispatcher_init_def)
  ultimately show ?thesis
    using cluster_split_across_cores[of ?k "dispatcher_init demo_cfg :: 32 cta_dispatcher" "dispatcher_init demo_cfg :: 32 cta_dispatcher"]
    by blast
qed

end
