(* ===== verification/Launch.thy ===== *)
theory Launch
  imports Cta_Dispatcher
begin

text \<open>
  Kernel launches in the runtime, \<open>src/vortex/sw/runtime/common/queue.cpp\<close>: the validation of a
  \<open>vx_launch_info_t\<close>, the derivation of the kernel descriptor (block size and warp step) and its two
  ways to the device, a sequence of register writes (\<open>enqueue_launch\<close>) and a packed descriptor that
  the command processor replays (\<open>cmd_stage_qmds\<close>).  A division by zero, which stops the process, is
  \<open>None\<close>; the address of the staged argument block comes from the device's slot pool and is an
  argument.

  The lemmas show that both ways write the same registers, that the packed form replays to what was
  packed, and that after the writes the kernel management unit holds the launch that was asked for.
\<close>

section \<open>Data\<close>

datatype vx_error = VX_ERR_INVALID_INFO | VX_ERR_INVALID_VALUE

record kernel_t =
  kernel_pc :: u64
  module_base :: u64

record launch_info =
  li_struct_size :: u64
  li_kernel :: "kernel_t option"
  li_args_host :: "u8 list option"
  li_args_size :: u64
  li_ndim :: u32
  li_grid_dim :: dim3
  li_block_dim :: dim3
  li_lmem_size :: u32
  li_cluster_dim :: dim3

datatype vx_command = COMMAND_DCR_WRITE u32 u32 | COMMAND_LAUNCH "launch_info option" | COMMAND_OTHER u32

record launch_rec =
  lr_kernel :: "kernel_t option"
  lr_args :: "u8 list"
  lr_ndim :: u32
  lr_lmem_size :: u32
  lr_grid :: dim3
  lr_block :: dim3
  lr_cluster :: dim3

datatype cmd_rec = REC_DCR u32 u32 | REC_LAUNCH launch_rec

section \<open>Validation\<close>

text \<open>\<open>for (i = 0; i < ndim; ++i) a[i] = v[i]\<close> on an array that holds 1s.\<close>

definition upto_ndim :: "u32 \<Rightarrow> dim3 \<Rightarrow> dim3" where
  "upto_ndim ndim v = mk_dim3 (if 0 < ndim then dim_x v else 1) (if 1 < ndim then dim_y v else 1)
     (if 2 < ndim then dim_z v else 1)"

definition cluster_axis :: "u32 \<Rightarrow> u32 \<Rightarrow> vx_error + u32" where
  "cluster_axis grid lg0 =
     (let lg = (if lg0 = 0 then 1 else lg0)
      in if grid mod lg \<noteq> 0 then Inl VX_ERR_INVALID_VALUE else Inr lg)"

definition cluster_shape :: "u32 \<Rightarrow> dim3 \<Rightarrow> dim3 \<Rightarrow> vx_error + dim3" where
  "cluster_shape ndim grid cl =
     (case (if 0 < ndim then cluster_axis (dim_x grid) (dim_x cl) else Inr 1) of Inl e \<Rightarrow> Inl e | Inr x \<Rightarrow>
      case (if 1 < ndim then cluster_axis (dim_y grid) (dim_y cl) else Inr 1) of Inl e \<Rightarrow> Inl e | Inr y \<Rightarrow>
      case (if 2 < ndim then cluster_axis (dim_z grid) (dim_z cl) else Inr 1) of Inl e \<Rightarrow> Inl e | Inr z \<Rightarrow>
        Inr (mk_dim3 x y z))"

text \<open>The checks of \<open>Queue::enqueue_launch\<close>; \<open>sz\<close> is \<open>sizeof(vx_launch_info_t)\<close>.\<close>

definition enqueue_launch_check :: "u64 \<Rightarrow> launch_info option \<Rightarrow> vx_error + launch_rec" where
  "enqueue_launch_check sz info_ptr =
     (case info_ptr of None \<Rightarrow> Inl VX_ERR_INVALID_VALUE
      | Some info \<Rightarrow>
          if li_struct_size info < sz then Inl VX_ERR_INVALID_INFO
          else if li_ndim info > 3 then Inl VX_ERR_INVALID_VALUE
          else if li_args_size info \<noteq> 0 \<and> li_args_host info = None then Inl VX_ERR_INVALID_VALUE
          else
            let args_blob = (case li_args_host info of None \<Rightarrow> []
                  | Some p \<Rightarrow> if li_args_size info > 0 then take (unat (li_args_size info)) p else []);
                grid_in = upto_ndim (li_ndim info) (li_grid_dim info);
                block_in = upto_ndim (li_ndim info) (li_block_dim info)
            in case cluster_shape (li_ndim info) grid_in (li_cluster_dim info) of
                 Inl e \<Rightarrow> Inl e
               | Inr lg_in \<Rightarrow> Inr \<lparr>lr_kernel = li_kernel info, lr_args = args_blob, lr_ndim = li_ndim info,
                    lr_lmem_size = li_lmem_size info, lr_grid = grid_in, lr_block = block_in, lr_cluster = lg_in\<rparr>)"

text \<open>
  The same checks in \<open>cmd_build_recs\<close>, for every command of a batch.  A failure releases the kernels
  retained so far, so nothing is left of the batch.
\<close>

definition cmd_build_rec :: "u64 \<Rightarrow> vx_command \<Rightarrow> vx_error + cmd_rec" where
  "cmd_build_rec sz c =
     (case c of
        COMMAND_DCR_WRITE addr value \<Rightarrow> Inr (REC_DCR addr value)
      | COMMAND_LAUNCH None \<Rightarrow> Inl VX_ERR_INVALID_VALUE
      | COMMAND_LAUNCH (Some info) \<Rightarrow>
          if li_struct_size info < sz then Inl VX_ERR_INVALID_INFO
          else if li_ndim info > 3 then Inl VX_ERR_INVALID_VALUE
          else if li_args_size info \<noteq> 0 \<and> li_args_host info = None then Inl VX_ERR_INVALID_VALUE
          else
            let args = (if li_args_host info \<noteq> None \<and> li_args_size info > 0
                        then take (unat (li_args_size info)) (the (li_args_host info)) else []);
                grid = upto_ndim (li_ndim info) (li_grid_dim info)
            in (case cluster_shape (li_ndim info) grid (li_cluster_dim info) of
                  Inl e \<Rightarrow> Inl e
                | Inr cl \<Rightarrow> Inr (REC_LAUNCH \<lparr>lr_kernel = li_kernel info, lr_args = args,
                    lr_ndim = li_ndim info, lr_lmem_size = li_lmem_size info, lr_grid = grid,
                    lr_block = upto_ndim (li_ndim info) (li_block_dim info), lr_cluster = cl\<rparr>))
      | COMMAND_OTHER ty \<Rightarrow> Inl VX_ERR_INVALID_VALUE)"

fun cmd_build_recs :: "u64 \<Rightarrow> vx_command list \<Rightarrow> vx_error + cmd_rec list" where
  "cmd_build_recs sz [] = Inr []"
| "cmd_build_recs sz (c # cs) =
     (case cmd_build_rec sz c of Inl e \<Rightarrow> Inl e
      | Inr r \<Rightarrow> (case cmd_build_recs sz cs of Inl e \<Rightarrow> Inl e | Inr rs \<Rightarrow> Inr (r # rs)))"

section \<open>The kernel descriptor\<close>

definition udiv :: "u32 \<Rightarrow> u32 \<Rightarrow> u32 option" where
  "udiv a b = (if b = 0 then None else Some (a div b))"

text \<open>\<open>block_size\<close>: the product of the in-use axes, in 32 bits.\<close>

definition block_volume :: "u32 \<Rightarrow> dim3 \<Rightarrow> u32" where
  "block_volume ndim eff_block = 1 * (if 0 < ndim then dim_x eff_block else 1)
     * (if 1 < ndim then dim_y eff_block else 1) * (if 2 < ndim then dim_z eff_block else 1)"

definition warp_step :: "u32 \<Rightarrow> u32 \<Rightarrow> dim3 \<Rightarrow> dim3 option" where
  "warp_step tpw ndim eff_block = do {
     let ws_x = (if ndim \<ge> 1 \<and> dim_x eff_block \<noteq> 0 then tpw mod dim_x eff_block else 0);
     ws_y \<leftarrow> (if ndim \<ge> 2 \<and> dim_y eff_block \<noteq> 0
              then do { q \<leftarrow> udiv tpw (dim_x eff_block); Some (q mod dim_y eff_block) } else Some 0);
     ws_z \<leftarrow> (if ndim \<ge> 3 \<and> dim_z eff_block \<noteq> 0
              then do { q \<leftarrow> udiv tpw (dim_x eff_block * dim_y eff_block); Some (q mod dim_z eff_block) } else Some 0);
     Some (mk_dim3 ws_x ws_y ws_z)
   }"

definition lo32 :: "u64 \<Rightarrow> u32" where "lo32 x = ucast (x AND 0xffffffff)"
definition hi32 :: "u64 \<Rightarrow> u32" where "hi32 x = ucast (drop_bit 32 x)"

text \<open>The register writes of \<open>enqueue_launch\<close>, in order (the \<open>WR\<close> macro).\<close>

definition enqueue_launch_writes :: "u32 \<Rightarrow> u64 option \<Rightarrow> launch_rec \<Rightarrow> (u32 \<times> u32) list option" where
  "enqueue_launch_writes tpw0 args_addr r = do {
     let tpw = (if lr_ndim r > 0 then tpw0 else 0);
     let eff_block = upto_ndim (lr_ndim r) (lr_block r);
     let block_size = block_volume (lr_ndim r) eff_block;
     ws \<leftarrow> warp_step tpw (lr_ndim r) eff_block;
     Some ((case lr_kernel r of None \<Rightarrow> []
            | Some k \<Rightarrow> [(0x010, lo32 (module_base k)), (0x011, hi32 (module_base k)),
                         (0x012, lo32 (kernel_pc k)), (0x013, hi32 (kernel_pc k))])
         @ (case args_addr of None \<Rightarrow> [] | Some a \<Rightarrow> [(0x014, lo32 a), (0x015, hi32 a)])
         @ (if lr_ndim r > 0 then
              [(0x016, dim_x eff_block), (0x017, dim_y eff_block), (0x018, dim_z eff_block),
               (0x019, dim_x (lr_grid r)), (0x01A, if lr_ndim r \<ge> 2 then dim_y (lr_grid r) else 1),
               (0x01B, if lr_ndim r \<ge> 3 then dim_z (lr_grid r) else 1),
               (0x01C, lr_lmem_size r), (0x01D, block_size),
               (0x01E, dim_x ws), (0x01F, dim_y ws), (0x020, dim_z ws),
               (0x021, dim_x (lr_cluster r)), (0x022, dim_y (lr_cluster r)), (0x023, dim_z (lr_cluster r))]
            else []))
   }"

text \<open>\<open>cmd_stage_qmds\<close>: the packed descriptor, a count followed by address and value pairs.\<close>

definition put :: "u32 \<Rightarrow> u32 \<Rightarrow> u32 list \<Rightarrow> u32 list" where
  "put addr val qmd = qmd @ [addr, val]"

definition stage_qmd :: "u32 \<Rightarrow> u64 option \<Rightarrow> launch_rec \<Rightarrow> u32 list option" where
  "stage_qmd tpw args_addr r = do {
     let eff_block = upto_ndim (lr_ndim r) (lr_block r);
     let block_size = block_volume (lr_ndim r) eff_block;
     ws \<leftarrow> warp_step tpw (lr_ndim r) eff_block;
     let q0 = [0];
     let q1 = (case lr_kernel r of None \<Rightarrow> q0
               | Some k \<Rightarrow> put 0x013 (hi32 (kernel_pc k)) (put 0x012 (lo32 (kernel_pc k))
                            (put 0x011 (hi32 (module_base k)) (put 0x010 (lo32 (module_base k)) q0))));
     let q2 = (case args_addr of None \<Rightarrow> q1 | Some a \<Rightarrow> put 0x015 (hi32 a) (put 0x014 (lo32 a) q1));
     let q3 = (if lr_ndim r > 0 then
                 put 0x023 (dim_z (lr_cluster r)) (put 0x022 (dim_y (lr_cluster r)) (put 0x021 (dim_x (lr_cluster r))
                (put 0x020 (dim_z ws) (put 0x01F (dim_y ws) (put 0x01E (dim_x ws)
                (put 0x01D block_size (put 0x01C (lr_lmem_size r)
                (put 0x01B (if lr_ndim r \<ge> 3 then dim_z (lr_grid r) else 1)
                (put 0x01A (if lr_ndim r \<ge> 2 then dim_y (lr_grid r) else 1) (put 0x019 (dim_x (lr_grid r))
                (put 0x018 (dim_z eff_block) (put 0x017 (dim_y eff_block) (put 0x016 (dim_x eff_block) q2)))))))))))))
               else q2);
     Some (q3[0 := of_nat ((length q3 - 1) div 2)])
   }"

text \<open>\<open>cmd_submit_launch\<close> without a descriptor decoder: the pairs are replayed one by one.\<close>

definition replay_qmd :: "u32 list \<Rightarrow> (u32 \<times> u32) list" where
  "replay_qmd qmd = (let count = (if qmd = [] then 0 else unat (qmd ! 0))
     in map (\<lambda>k. (qmd ! (1 + 2 * k), qmd ! (2 + 2 * k))) [0..<count])"

definition program_kmu :: "kmu \<Rightarrow> (u32 \<times> u32) list \<Rightarrow> kmu" where
  "program_kmu k ws = fold (\<lambda>(addr, value) k. kmu_dcr_write k addr value) ws k"

section \<open>The two ways to program a launch\<close>

definition flat :: "(u32 \<times> u32) list \<Rightarrow> u32 list" where
  "flat ps = concat (map (\<lambda>(a, v). [a, v]) ps)"

definition pack :: "(u32 \<times> u32) list \<Rightarrow> u32 list" where
  "pack ps = of_nat (length ps) # flat ps"

lemma put_flat: "put a v (c # flat ps) = c # flat (ps @ [(a, v)])"
  by (simp add: put_def flat_def)

lemma flat_length [simp]: "length (flat ps) = 2 * length ps"
  by (induction ps) (auto simp: flat_def)

lemma pack_nth:
  assumes "k < length ps"
  shows "flat ps ! (2 * k) = fst (ps ! k)"
    "flat ps ! (2 * k + 1) = snd (ps ! k)"
  using assms
proof (induction ps arbitrary: k)
  case (Cons p ps)
  { case 1 then show ?case using Cons.IH by (cases k) (auto simp: flat_def split: prod.splits) }
  { case 2 then show ?case using Cons.IH by (cases k) (auto simp: flat_def split: prod.splits) }
qed simp_all

lemma replay_pack:
  assumes "length ps < 2 ^ 32"
  shows "replay_qmd (pack ps) = ps"
proof -
  have n: "unat (of_nat (length ps) :: u32) = length ps" using assms by (simp add: unat_of_nat)
  have "replay_qmd (pack ps) = map (\<lambda>k. ps ! k) [0..<length ps]"
    unfolding replay_qmd_def pack_def Let_def by (auto simp: n pack_nth pack_nth(2)[simplified] prod_eq_iff)
  then show ?thesis by (simp add: map_nth)
qed

lemma stage_qmd_pack: "stage_qmd tpw a r = map_option pack (enqueue_launch_writes tpw a r)"
proof -
  have w: "warp_step (if lr_ndim r > 0 then tpw else 0) (lr_ndim r) e = warp_step tpw (lr_ndim r) e" for e
    by (cases "lr_ndim r = 0") (simp_all add: warp_step_def word_gt_0)
  have nil: "[0] = 0 # flat []" by (simp add: flat_def)
  have fin: "(0 # flat ps)[0 := of_nat ((length (0 # flat ps) - 1) div 2)] = pack ps" for ps
    by (simp add: pack_def)
  show ?thesis
    unfolding stage_qmd_def enqueue_launch_writes_def Let_def w nil
    by (cases "warp_step tpw (lr_ndim r) (upto_ndim (lr_ndim r) (lr_block r))"; cases "lr_kernel r"; cases a;
        cases "lr_ndim r > 0";
        simp only: put_flat fin option.case if_True if_False bind.simps option.map append.simps append_Nil2 append_assoc)
qed

lemma writes_length: "enqueue_launch_writes tpw a r = Some ws \<Longrightarrow> length ws < 2 ^ 32"
  by (auto simp: enqueue_launch_writes_def Let_def split: option.splits bind_splits)

section \<open>What the kernel management unit holds afterwards\<close>

lemma dcr_writes [simp]:
  "kmu_dcr_write k 0x010 v = k\<lparr>kmu_PC := set_lo32 (kmu_PC k) v\<rparr>"
  "kmu_dcr_write k 0x011 v = k\<lparr>kmu_PC := set_hi32 (kmu_PC k) v\<rparr>"
  "kmu_dcr_write k 0x012 v = k\<lparr>kmu_entry := set_lo32 (kmu_entry k) v\<rparr>"
  "kmu_dcr_write k 0x013 v = k\<lparr>kmu_entry := set_hi32 (kmu_entry k) v\<rparr>"
  "kmu_dcr_write k 0x014 v = k\<lparr>kmu_param := set_lo32 (kmu_param k) v\<rparr>"
  "kmu_dcr_write k 0x015 v = k\<lparr>kmu_param := set_hi32 (kmu_param k) v\<rparr>"
  "kmu_dcr_write k 0x016 v = k\<lparr>kmu_block_dim := (kmu_block_dim k)\<lparr>dim_x := v\<rparr>\<rparr>"
  "kmu_dcr_write k 0x017 v = k\<lparr>kmu_block_dim := (kmu_block_dim k)\<lparr>dim_y := v\<rparr>\<rparr>"
  "kmu_dcr_write k 0x018 v = k\<lparr>kmu_block_dim := (kmu_block_dim k)\<lparr>dim_z := v\<rparr>\<rparr>"
  "kmu_dcr_write k 0x019 v = k\<lparr>kmu_grid_dim := (kmu_grid_dim k)\<lparr>dim_x := v\<rparr>\<rparr>"
  "kmu_dcr_write k 0x01A v = k\<lparr>kmu_grid_dim := (kmu_grid_dim k)\<lparr>dim_y := v\<rparr>\<rparr>"
  "kmu_dcr_write k 0x01B v = k\<lparr>kmu_grid_dim := (kmu_grid_dim k)\<lparr>dim_z := v\<rparr>\<rparr>"
  "kmu_dcr_write k 0x01C v = k\<lparr>kmu_lmem_size := v\<rparr>"
  "kmu_dcr_write k 0x01D v = k\<lparr>kmu_block_size := v\<rparr>"
  "kmu_dcr_write k 0x01E v = k\<lparr>kmu_warp_step := (kmu_warp_step k)\<lparr>dim_x := v\<rparr>\<rparr>"
  "kmu_dcr_write k 0x01F v = k\<lparr>kmu_warp_step := (kmu_warp_step k)\<lparr>dim_y := v\<rparr>\<rparr>"
  "kmu_dcr_write k 0x020 v = k\<lparr>kmu_warp_step := (kmu_warp_step k)\<lparr>dim_z := v\<rparr>\<rparr>"
  "kmu_dcr_write k 0x021 v = k\<lparr>kmu_cluster_dim := (kmu_cluster_dim k)\<lparr>dim_x := v\<rparr>\<rparr>"
  "kmu_dcr_write k 0x022 v = k\<lparr>kmu_cluster_dim := (kmu_cluster_dim k)\<lparr>dim_y := v\<rparr>\<rparr>"
  "kmu_dcr_write k 0x023 v = k\<lparr>kmu_cluster_dim := (kmu_cluster_dim k)\<lparr>dim_z := v\<rparr>\<rparr>"
  by (simp_all add: kmu_dcr_write_def)

lemma set_lo_hi: "set_hi32 (set_lo32 x (lo32 v)) (hi32 v) = v"
proof (rule word_eq_by_bits)
  fix n assume n: "n < LENGTH(64)"
  have m: "(0xFFFFFFFF :: u64) = mask 32" by (simp add: mask_eq_exp_minus_1)
  have "n = 32 + (n - 32)" if "32 \<le> n" using that by simp
  then show "bit (set_hi32 (set_lo32 x (lo32 v)) (hi32 v)) n = bit v n"
    using n unfolding set_hi32_def set_lo32_def lo32_def hi32_def m
    by (cases "32 \<le> n") (auto simp: bit_and_iff bit_or_iff bit_push_bit_iff bit_ucast_iff bit_drop_bit_eq bit_not_iff bit_mask_iff)
qed

lemma program_append: "program_kmu k (as @ bs) = program_kmu (program_kmu k as) bs"
  by (simp add: program_kmu_def)

lemma program_Cons: "program_kmu k ((a, v) # ws) = program_kmu (kmu_dcr_write k a v) ws" "program_kmu k [] = k"
  by (simp_all add: program_kmu_def)

definition holds_launch :: "kmu \<Rightarrow> launch_rec \<Rightarrow> u64 option \<Rightarrow> dim3 \<Rightarrow> bool" where
  "holds_launch k r args ws \<longleftrightarrow> kmu_block_dim k = upto_ndim (lr_ndim r) (lr_block r)
     \<and> kmu_grid_dim k = upto_ndim (lr_ndim r) (lr_grid r) \<and> kmu_cluster_dim k = lr_cluster r
     \<and> kmu_lmem_size k = lr_lmem_size r \<and> kmu_warp_step k = ws
     \<and> kmu_block_size k = block_volume (lr_ndim r) (upto_ndim (lr_ndim r) (lr_block r))
     \<and> (\<forall>kn. lr_kernel r = Some kn \<longrightarrow> kmu_PC k = module_base kn \<and> kmu_entry k = kernel_pc kn)
     \<and> (\<forall>a. args = Some a \<longrightarrow> kmu_param k = a)"

lemma ndim_ge: "2 \<le> (n :: u32) \<longleftrightarrow> 1 < n" "3 \<le> n \<longleftrightarrow> 2 < n" "1 \<le> n \<longleftrightarrow> 0 < n"
  by (auto simp: word_le_nat_alt word_less_nat_alt)

lemma dim3_set: "d\<lparr>dim_x := dim_x e, dim_y := dim_y e, dim_z := dim_z e\<rparr> = (e :: dim3)"
  by simp

lemma dim3_surj: "dim_x d = a \<Longrightarrow> dim_y d = b \<Longrightarrow> dim_z d = c \<Longrightarrow> d = mk_dim3 a b c"
  by (simp add: mk_dim3_def)

lemma program_writes:
  assumes "enqueue_launch_writes tpw args r = Some out" "0 < lr_ndim r"
    "warp_step tpw (lr_ndim r) (upto_ndim (lr_ndim r) (lr_block r)) = Some ws"
  shows "holds_launch (program_kmu k out) r args ws"
proof -
  let ?e = "upto_ndim (lr_ndim r) (lr_block r)"
  define k1 where "k1 = program_kmu k (case lr_kernel r of None \<Rightarrow> []
            | Some k \<Rightarrow> [(0x010, lo32 (module_base k)), (0x011, hi32 (module_base k)),
                         (0x012, lo32 (kernel_pc k)), (0x013, hi32 (kernel_pc k))])"
  define k2 where "k2 = program_kmu k1 (case args of None \<Rightarrow> [] | Some a \<Rightarrow> [(0x014, lo32 a), (0x015, hi32 a)])"
  have k1: "lr_kernel r = Some kn \<longrightarrow> kmu_PC k1 = module_base kn \<and> kmu_entry k1 = kernel_pc kn" for kn
    by (auto simp: k1_def program_Cons set_lo_hi)
  have k2: "lr_kernel r = Some kn \<longrightarrow> kmu_PC k2 = module_base kn \<and> kmu_entry k2 = kernel_pc kn" "args = Some a \<longrightarrow> kmu_param k2 = a" for kn a
    using k1 by (cases args; simp add: k2_def program_Cons set_lo_hi)+
  have out: "program_kmu k out = program_kmu k2
              [(0x016, dim_x ?e), (0x017, dim_y ?e), (0x018, dim_z ?e),
               (0x019, dim_x (lr_grid r)), (0x01A, if lr_ndim r \<ge> 2 then dim_y (lr_grid r) else 1),
               (0x01B, if lr_ndim r \<ge> 3 then dim_z (lr_grid r) else 1),
               (0x01C, lr_lmem_size r), (0x01D, block_volume (lr_ndim r) ?e),
               (0x01E, dim_x ws), (0x01F, dim_y ws), (0x020, dim_z ws),
               (0x021, dim_x (lr_cluster r)), (0x022, dim_y (lr_cluster r)), (0x023, dim_z (lr_cluster r))]"
    using assms unfolding enqueue_launch_writes_def Let_def
    by (simp only: if_True bind.simps option.inject k1_def k2_def program_append[symmetric] append_assoc)
  have grid: "(if lr_ndim r \<ge> 2 then dim_y (lr_grid r) else 1) = dim_y (upto_ndim (lr_ndim r) (lr_grid r))"
    "(if lr_ndim r \<ge> 3 then dim_z (lr_grid r) else 1) = dim_z (upto_ndim (lr_ndim r) (lr_grid r))"
    "dim_x (lr_grid r) = dim_x (upto_ndim (lr_ndim r) (lr_grid r))"
    using assms(2) by (simp_all add: upto_ndim_def mk_dim3_def ndim_ge)
  define b where "b = block_volume (lr_ndim r) ?e"
  define g where "g = upto_ndim (lr_ndim r) (lr_grid r)"
  define e where "e = ?e"
  define k3 where "k3 = k2\<lparr>kmu_block_dim := e, kmu_grid_dim := g, kmu_lmem_size := lr_lmem_size r, kmu_block_size := b,
      kmu_warp_step := ws, kmu_cluster_dim := lr_cluster r\<rparr>"
  have "program_kmu k out = k3"
    unfolding out grid program_Cons dcr_writes b_def[symmetric] g_def[symmetric] e_def[symmetric] k3_def by (simp add: dim3_set b_def[folded e_def])
  then show ?thesis using k2 unfolding holds_launch_def k3_def b_def g_def e_def by simp
qed

section \<open>Accepted launches\<close>

lemma cluster_axis_ok:
  assumes "cluster_axis g lg0 = Inr lg"
  shows "0 < unat lg" "unat lg dvd unat g"
proof -
  have lg: "lg \<noteq> 0" "g mod lg = 0" using assms by (auto simp: cluster_axis_def Let_def split: if_splits)
  show "0 < unat lg" using lg(1) by (simp add: unat_gt_0)
  have "unat (g mod lg) = 0" using lg(2) by simp
  then show "unat lg dvd unat g" by (simp add: unat_mod dvd_eq_mod_eq_0)
qed

lemma cluster_shape_ok:
  assumes "cluster_shape n (upto_ndim n g) cl = Inr c"
  shows "cluster_divides c (upto_ndim n g)"
proof -
  have "0 < unat (dim_x c) \<and> unat (dim_x c) dvd unat (dim_x (upto_ndim n g))"
    "0 < unat (dim_y c) \<and> unat (dim_y c) dvd unat (dim_y (upto_ndim n g))"
    "0 < unat (dim_z c) \<and> unat (dim_z c) dvd unat (dim_z (upto_ndim n g))"
    using assms by (auto simp: cluster_shape_def mk_dim3_def split: sum.splits if_splits dest: cluster_axis_ok)
  then show ?thesis by (simp add: cluster_divides_def)
qed

lemma check_fields:
  assumes "enqueue_launch_check sz (Some info) = Inr r"
  shows "lr_ndim r = li_ndim info" "lr_grid r = upto_ndim (li_ndim info) (li_grid_dim info)"
    "lr_block r = upto_ndim (li_ndim info) (li_block_dim info)" "lr_kernel r = li_kernel info"
    "lr_lmem_size r = li_lmem_size info" "cluster_divides (lr_cluster r) (lr_grid r)"
  using assms by (auto simp: enqueue_launch_check_def Let_def cluster_shape_ok split: if_splits sum.splits option.splits)

lemma upto_ndim_idem [simp]: "upto_ndim n (upto_ndim n v) = upto_ndim n v"
  by (simp add: upto_ndim_def mk_dim3_def)

text \<open>The block size and the warp step, when the volume of the block fits 32 bits.\<close>

lemma block_volume_value:
  assumes "nx b * ny b * nz b < 2 ^ 32" "b = upto_ndim n v" "0 < nx b" "0 < ny b" "0 < nz b"
  shows "unat (block_volume n b) = nx b * ny b * nz b" "unat (dim_x b * dim_y b) = nx b * ny b"
proof -
  have "nx b * ny b * 1 \<le> nx b * ny b * nz b" using assms(5) by (intro mult_le_mono2) simp
  then have xy: "nx b * ny b < 2 ^ 32" using assms(1) unfolding mult_1_right by (rule order.strict_trans1)
  show p: "unat (dim_x b * dim_y b) = nx b * ny b" using xy by (simp add: unat_word_ariths)
  have one: "\<not> 0 < n \<Longrightarrow> dim_x b = 1" "\<not> 1 < n \<Longrightarrow> dim_y b = 1" "\<not> 2 < n \<Longrightarrow> dim_z b = 1"
    using assms(2) by (simp_all add: upto_ndim_def mk_dim3_def)
  have "block_volume n b = dim_x b * dim_y b * dim_z b"
    unfolding block_volume_def using one by (auto simp: mult.assoc)
  then show "unat (block_volume n b) = nx b * ny b * nz b"
    using p assms(1) by (simp add: unat_word_ariths)
qed

lemma warp_step_value:
  assumes "nx b * ny b * nz b < 2 ^ 32" "b = upto_ndim n v" "0 < nx b" "0 < ny b" "0 < nz b" "0 < n"
  shows "\<exists>ws. warp_step tpw n b = Some ws \<and> step_matches (unat tpw) b ws"
proof -
  note xy = block_volume_value(2)[OF assms(1-5)]
  have nz: "dim_x b \<noteq> 0" "dim_y b \<noteq> 0" "dim_z b \<noteq> 0" using assms(3-5) by auto
  have xy0: "dim_x b * dim_y b \<noteq> 0" using xy assms(3,4) by (metis mult_is_0 not_gr_zero unat_0)
  have one: "\<not> 1 < n \<Longrightarrow> dim_y b = 1" "\<not> 2 < n \<Longrightarrow> dim_z b = 1"
    using assms(2) by (simp_all add: upto_ndim_def mk_dim3_def)
  have "warp_step tpw n b = Some (mk_dim3 (tpw mod dim_x b) (tpw div dim_x b mod dim_y b)
      (tpw div (dim_x b * dim_y b) mod dim_z b))"
    using assms(6) nz xy0 one by (auto simp: warp_step_def ndim_ge udiv_def)
  then show ?thesis by (auto simp: step_matches_def mk_dim3_def unat_mod unat_div xy)
qed

lemma block_volume_product: "block_volume n (upto_ndim n v) = dim_x (upto_ndim n v) * dim_y (upto_ndim n v) * dim_z (upto_ndim n v)"
  by (simp add: block_volume_def upto_ndim_def mk_dim3_def)

lemma warp_step_digits:
  assumes "b = upto_ndim n v" "0 < n" "dim_x b \<noteq> 0" "dim_y b \<noteq> 0" "dim_z b \<noteq> 0" "dim_x b * dim_y b \<noteq> 0"
  shows "warp_step tpw n b = Some (mk_dim3 (tpw mod dim_x b) (tpw div dim_x b mod dim_y b) (tpw div (dim_x b * dim_y b) mod dim_z b))"
proof -
  have "\<not> 1 < n \<Longrightarrow> dim_y b = 1" "\<not> 2 < n \<Longrightarrow> dim_z b = 1" using assms(1) by (simp_all add: upto_ndim_def mk_dim3_def)
  then show ?thesis using assms(2-) by (auto simp: warp_step_def ndim_ge udiv_def)
qed

lemma check_cluster:
  assumes "enqueue_launch_check sz (Some info) = Inr r" "c = upto_ndim (li_ndim info) (li_cluster_dim info)"
  shows "lr_cluster r = mk_dim3 (max 1 (dim_x c)) (max 1 (dim_y c)) (max 1 (dim_z c))"
proof -
  have a: "cluster_axis g lg0 = Inr lg \<Longrightarrow> lg = max 1 lg0" for g lg0 lg :: u32
    by (auto simp: cluster_axis_def Let_def max_def word_le_nat_alt word_unat_eq_iff split: if_splits)
  show ?thesis using assms
    by (auto simp: enqueue_launch_check_def Let_def cluster_shape_def upto_ndim_def mk_dim3_def split: if_splits sum.splits option.splits dest: a)
qed

section \<open>Properties\<close>

text \<open>
  C9.  The two launch paths of the runtime are the same launch.  They accept and reject the same
  descriptors with the same error, and replaying the packed descriptor gives exactly the register
  writes of the direct path, in the same order, or stops at the same division by zero.
\<close>

theorem launch_paths_agree:
  "cmd_build_rec sz (COMMAND_LAUNCH info) = map_sum id REC_LAUNCH (enqueue_launch_check sz info)
   \<and> map_option replay_qmd (stage_qmd tpw args r) = enqueue_launch_writes tpw args r"
proof
  show "cmd_build_rec sz (COMMAND_LAUNCH info) = map_sum id REC_LAUNCH (enqueue_launch_check sz info)"
    by (auto simp: cmd_build_rec_def enqueue_launch_check_def Let_def split: option.splits sum.splits)
  show "map_option replay_qmd (stage_qmd tpw args r) = enqueue_launch_writes tpw args r"
    using writes_length[of tpw args r] by (cases "enqueue_launch_writes tpw args r") (simp_all add: stage_qmd_pack replay_pack)
qed

text \<open>
  C10.  An accepted launch with a grid is what the kernel management unit holds after the register
  writes, whatever it held before.  Its grid and block are those of the request with unused axes set
  to 1; its cluster is the requested one with unused and unset axes 1, and divides the grid; the block
  size is the product of the block axes, in 32 bits; the warp step is the number of threads of a warp
  written in the mixed radix of the block axes, where none of the divisors is 0; local memory size, kernel
  addresses and argument pointer are the request's.  It starts to run exactly when no grid axis is 0
  and the block size is not 0.
\<close>

theorem launch_programs_kmu:
  assumes "enqueue_launch_check sz (Some info) = Inr r" "0 < li_ndim info"
    "enqueue_launch_writes tpw args r = Some out"
    and b: "b = upto_ndim (li_ndim info) (li_block_dim info)" and cl: "c = upto_ndim (li_ndim info) (li_cluster_dim info)"
  shows "kmu_grid_dim (program_kmu k out) = upto_ndim (li_ndim info) (li_grid_dim info)
    \<and> kmu_block_dim (program_kmu k out) = b
    \<and> kmu_cluster_dim (program_kmu k out) = mk_dim3 (max 1 (dim_x c)) (max 1 (dim_y c)) (max 1 (dim_z c))
    \<and> kmu_block_size (program_kmu k out) = dim_x b * dim_y b * dim_z b
    \<and> (dim_x b \<noteq> 0 \<and> dim_y b \<noteq> 0 \<and> dim_z b \<noteq> 0 \<and> dim_x b * dim_y b \<noteq> 0 \<longrightarrow>
         kmu_warp_step (program_kmu k out) = mk_dim3 (tpw mod dim_x b) (tpw div dim_x b mod dim_y b) (tpw div (dim_x b * dim_y b) mod dim_z b))
    \<and> kmu_lmem_size (program_kmu k out) = li_lmem_size info
    \<and> (\<forall>kn. li_kernel info = Some kn \<longrightarrow> kmu_PC (program_kmu k out) = module_base kn \<and> kmu_entry (program_kmu k out) = kernel_pc kn)
    \<and> (\<forall>a. args = Some a \<longrightarrow> kmu_param (program_kmu k out) = a)
    \<and> cluster_divides (kmu_cluster_dim (program_kmu k out)) (kmu_grid_dim (program_kmu k out))
    \<and> (kmu_running (kmu_start (program_kmu k out)) \<longleftrightarrow> kmu_block_size (program_kmu k out) \<noteq> 0
         \<and> nx (kmu_grid_dim (program_kmu k out)) * ny (kmu_grid_dim (program_kmu k out)) * nz (kmu_grid_dim (program_kmu k out)) \<noteq> 0)"
proof -
  note c = check_fields[OF assms(1)]
  obtain ws where ws: "warp_step tpw (lr_ndim r) (upto_ndim (lr_ndim r) (lr_block r)) = Some ws"
    using assms(2,3) c(1) by (auto simp: enqueue_launch_writes_def Let_def split: bind_splits)
  have h: "holds_launch (program_kmu k out) r args ws" using program_writes[OF assms(3) _ ws] assms(2) c(1) by simp
  have d: "cluster_divides (kmu_cluster_dim (program_kmu k out)) (kmu_grid_dim (program_kmu k out))"
    using h c by (simp add: holds_launch_def)
  then have "kmu_running (kmu_start (program_kmu k out)) \<longleftrightarrow> kmu_block_size (program_kmu k out) \<noteq> 0
         \<and> nx (kmu_grid_dim (program_kmu k out)) * ny (kmu_grid_dim (program_kmu k out)) * nz (kmu_grid_dim (program_kmu k out)) \<noteq> 0"
    by (auto simp: kmu_start_def Let_def word_gt_0 cluster_divides_def unat_eq_0)
  moreover have "dim_x b \<noteq> 0 \<and> dim_y b \<noteq> 0 \<and> dim_z b \<noteq> 0 \<and> dim_x b * dim_y b \<noteq> 0 \<longrightarrow>
      ws = mk_dim3 (tpw mod dim_x b) (tpw div dim_x b mod dim_y b) (tpw div (dim_x b * dim_y b) mod dim_z b)"
    using ws c(1,3) warp_step_digits[OF b assms(2), of tpw] by (auto simp: b)
  ultimately show ?thesis
    using h c d check_cluster[OF assms(1) cl] unfolding holds_launch_def by (simp add: b block_volume_product)
qed

definition demo_info :: launch_info where
  "demo_info = \<lparr>li_struct_size = 100, li_kernel = Some \<lparr>kernel_pc = 0x80000100, module_base = 0x80000000\<rparr>,
     li_args_host = None, li_args_size = 0, li_ndim = 2, li_grid_dim = mk_dim3 4 6 0, li_block_dim = mk_dim3 3 2 0,
     li_lmem_size = 64, li_cluster_dim = mk_dim3 2 0 0\<rparr>"

definition demo_rec :: launch_rec where
  "demo_rec = \<lparr>lr_kernel = li_kernel demo_info, lr_args = [], lr_ndim = 2, lr_lmem_size = 64,
     lr_grid = mk_dim3 4 6 1, lr_block = mk_dim3 3 2 1, lr_cluster = mk_dim3 2 1 1\<rparr>"

lemma demo_check: "enqueue_launch_check 100 (Some demo_info) = Inr demo_rec"
  by (simp add: enqueue_launch_check_def demo_info_def demo_rec_def upto_ndim_def mk_dim3_def cluster_shape_def cluster_axis_def)

lemma demo_writes: "\<exists>out. enqueue_launch_writes 4 None demo_rec = Some out"
  by (simp add: enqueue_launch_writes_def demo_rec_def upto_ndim_def mk_dim3_def warp_step_def udiv_def)

theorem launch_programs_kmu_witness:
  "\<exists>out. enqueue_launch_writes 4 None demo_rec = Some out
     \<and> kmu_grid_dim (program_kmu kmu_init out) = mk_dim3 4 6 1 \<and> kmu_PC (program_kmu kmu_init out) = 0x80000000
     \<and> kmu_block_size (program_kmu kmu_init out) = 6 \<and> kmu_warp_step (program_kmu kmu_init out) = mk_dim3 1 1 0
     \<and> kmu_cluster_dim (program_kmu kmu_init out) = mk_dim3 2 1 1"
proof -
  obtain out where out: "enqueue_launch_writes 4 None demo_rec = Some out" using demo_writes by blast
  show ?thesis using launch_programs_kmu[OF demo_check _ out refl refl, of kmu_init] out
    by (simp add: demo_info_def upto_ndim_def mk_dim3_def)
qed

text \<open>
  The runtime does not check for empty block axes before it divides by them: computing the
  warp step stops the process exactly when a later axis in use is not 0 while the product, in 32
  bits, of the earlier ones is.
\<close>

theorem warp_step_crash:
  "warp_step tpw n b = None \<longleftrightarrow> (1 < n \<and> dim_y b \<noteq> 0 \<and> dim_x b = 0)
     \<or> (2 < n \<and> dim_z b \<noteq> 0 \<and> dim_x b * dim_y b = 0)"
  by (auto simp: warp_step_def udiv_def ndim_ge)

end
