(* ===== verification/Acl.thy ===== *)
theory Acl
  imports Prelude
begin

text \<open>
  Access control of the simulated memory, \<open>ACLManager\<close> in \<open>src/vortex/sim/common/mem.cpp\<close>: an ordered
  map from the start of an address range to its end and its permission flags.  The \<open>std::map\<close> is the
  list of its entries in key order; an iterator is the suffix of the list it points to.

  The lemmas show that \<open>set\<close> is the update of a function from addresses to flags and that \<open>check\<close>
  asks that function for every address of the range.
\<close>

section \<open>The ordered map\<close>

type_synonym acl_entry = "u64 \<times> u64 \<times> u32"
type_synonym acl_map = "acl_entry list"

fun acl_put :: "u64 \<Rightarrow> u64 \<Rightarrow> u32 \<Rightarrow> acl_map \<Rightarrow> acl_map" where
  "acl_put k e f [] = [(k, e, f)]"
| "acl_put k e f ((k', e', f') # m) =
     (if k < k' then (k, e, f) # (k', e', f') # m
      else if k = k' then (k, e, f) # m
      else (k', e', f') # acl_put k e f m)"

text \<open>\<open>emplace\<close> leaves an entry that has the key already.\<close>

definition acl_emplace :: "u64 \<Rightarrow> u64 \<Rightarrow> u32 \<Rightarrow> acl_map \<Rightarrow> acl_map" where
  "acl_emplace k e f m = (if k \<in> fst ` set m then m else acl_put k e f m)"

fun acl_erase :: "u64 \<Rightarrow> acl_map \<Rightarrow> acl_map" where
  "acl_erase k [] = []"
| "acl_erase k ((k', v) # m) = (if k = k' then m else (k', v) # acl_erase k m)"

text \<open>
  The start of the walk in \<open>set\<close> and \<open>check\<close>: \<open>lower_bound(addr)\<close>, one step back when there is an
  entry before it that does not end before \<open>addr\<close>.
\<close>

fun acl_from :: "u64 \<Rightarrow> acl_map \<Rightarrow> acl_map" where
  "acl_from addr [] = []"
| "acl_from addr [(k, e, f)] = (if addr \<le> k then [(k, e, f)] else if e < addr then [] else [(k, e, f)])"
| "acl_from addr ((k, e, f) # (k', e', f') # m) =
     (if addr \<le> k then (k, e, f) # (k', e', f') # m
      else if addr \<le> k' then (if e < addr then (k', e', f') # m else (k, e, f) # (k', e', f') # m)
      else acl_from addr ((k', e', f') # m))"

section \<open>Operations\<close>

text \<open>The loop that cuts the entries overlapping \<open>[addr, stop)\<close>; it walks the entries seen from the iterator.\<close>

fun acl_cut :: "u64 \<Rightarrow> u64 \<Rightarrow> acl_map \<Rightarrow> acl_map \<Rightarrow> acl_map" where
  "acl_cut addr stop [] m = m"
| "acl_cut addr stop ((k, e, f) # rest) m =
     (if \<not> k < stop then m
      else if e \<le> addr then acl_cut addr stop rest m
      else
        let m1 = (if e > stop then acl_put stop e f m else m)
        in acl_cut addr stop rest (if k < addr then acl_put k addr f m1 else acl_erase k m1))"

fun acl_merge :: "u64 \<Rightarrow> u32 \<Rightarrow> acl_map \<Rightarrow> acl_map" where
  "acl_merge addr flags [] = []"
| "acl_merge addr flags [x] = [x]"
| "acl_merge addr flags ((k, e, f) # (k', e', f') # m) =
     (if k' = addr \<and> e = addr \<and> f = flags then
        \<comment> \<open>the new entry joins its predecessor, then its successor\<close>
        (case m of [] \<Rightarrow> [(k, e', f)]
         | (k'', e'', f'') # m' \<Rightarrow>
             if e' = k'' \<and> f = f'' then (k, e'', f) # m' else (k, e', f) # m)
      else if k = addr then
        (if e = k' \<and> f = f' then (k, e', f) # m else (k, e, f) # (k', e', f') # m)
      else (k, e, f) # acl_merge addr flags ((k', e', f') # m))"

definition acl_set :: "acl_map \<Rightarrow> u64 \<Rightarrow> u64 \<Rightarrow> u32 \<Rightarrow> acl_map" where
  "acl_set m addr sz flags =
     (if sz = 0 then m
      else let stop = addr + sz;
               m1 = acl_cut addr stop (acl_from addr m) m
           in if flags \<noteq> 0 then acl_merge addr flags (acl_emplace addr stop flags m1) else m1)"

fun acl_scan :: "u64 \<Rightarrow> u64 \<Rightarrow> u32 \<Rightarrow> acl_map \<Rightarrow> bool" where
  "acl_scan addr stop flags [] = True"
| "acl_scan addr stop flags ((k, e, f) # rest) =
     (if \<not> k < stop then True
      else if e > addr then
        (if f AND flags \<noteq> flags then False else acl_scan e stop flags rest)
      else acl_scan addr stop flags rest)"

definition acl_check :: "acl_map \<Rightarrow> u64 \<Rightarrow> u64 \<Rightarrow> u32 \<Rightarrow> bool" where
  "acl_check m addr sz flags = acl_scan addr (addr + sz) flags (acl_from addr m)"

section \<open>The permission function\<close>

definition acl_at :: "acl_map \<Rightarrow> u64 \<Rightarrow> u32 option" where
  "acl_at m x = map_option (\<lambda>(k, e, f). f) (List.find (\<lambda>(k, e, f). k \<le> x \<and> x < e) m)"

text \<open>Ranges are not empty, carry flags, and follow each other without overlap.\<close>

fun acl_ok :: "acl_map \<Rightarrow> bool" where
  "acl_ok [] \<longleftrightarrow> True"
| "acl_ok ((k, e, f) # m) \<longleftrightarrow> k < e \<and> f \<noteq> 0 \<and> (\<forall>(k', e', f') \<in> set m. e \<le> k') \<and> acl_ok m"

section \<open>Lemmas\<close>

abbreviation covers :: "acl_map \<Rightarrow> u64 \<Rightarrow> u32 \<Rightarrow> bool" where
  "covers m x f \<equiv> \<exists>k e. (k, e, f) \<in> set m \<and> k \<le> x \<and> x < e"

lemma acl_ok_append:
  "acl_ok (xs @ ys) \<longleftrightarrow> acl_ok xs \<and> acl_ok ys \<and> (\<forall>(k, e, f) \<in> set xs. \<forall>(k', e', f') \<in> set ys. e \<le> k')"
  by (induction xs rule: acl_ok.induct) auto

lemma acl_ok_entry: "acl_ok m \<Longrightarrow> (k, e, f) \<in> set m \<Longrightarrow> k < e \<and> f \<noteq> 0"
  by (induction m rule: acl_ok.induct) auto

lemma acl_at_iff:
  assumes "acl_ok m"
  shows "acl_at m x = Some f \<longleftrightarrow> covers m x f"
  using assms
proof (induction m rule: acl_ok.induct)
  case (2 k e g m)
  show ?case
  proof (cases "k \<le> x \<and> x < e")
    case True
    then have "\<not> k' \<le> x" if "(k', e', f') \<in> set m" for k' e' f' using 2(2) that by fastforce
    then show ?thesis using True by (auto simp: acl_at_def)
  next
    case False
    then have "acl_at ((k, e, g) # m) x = acl_at m x" by (auto simp: acl_at_def)
    then show ?thesis using False 2 by auto
  qed
qed (simp add: acl_at_def)

lemma acl_at_eqI:
  assumes "acl_ok a" "\<And>f. acl_at a x = Some f \<longleftrightarrow> p = Some f"
  shows "acl_at a x = p"
  using assms(2) by (cases p; cases "acl_at a x") auto

lemma acl_put_append:
  assumes "\<forall>(k', e', f') \<in> set xs. k' < k"
  shows "acl_put k e f (xs @ ys) = xs @ acl_put k e f ys"
  using assms by (induction xs) auto

lemma acl_erase_append:
  assumes "\<forall>(k', e', f') \<in> set xs. k' < k"
  shows "acl_erase k (xs @ ys) = xs @ acl_erase k ys"
  using assms by (induction xs) auto

lemma acl_put_front: "\<forall>(k', e', f') \<in> set ys. k < k' \<Longrightarrow> acl_put k e f ys = (k, e, f) # ys"
  by (cases ys) auto

text \<open>What is left of an entry outside \<open>[addr, stop)\<close>.\<close>

definition piece :: "u64 \<Rightarrow> u64 \<Rightarrow> acl_entry \<Rightarrow> acl_map" where
  "piece addr stop = (\<lambda>(k, e, f). (if k < addr then [(k, min e addr, f)] else [])
                                 @ (if stop < e then [(max k stop, e, f)] else []))"

definition outside :: "u64 \<Rightarrow> u64 \<Rightarrow> acl_map \<Rightarrow> acl_map" where
  "outside addr stop m = concat (map (piece addr stop) m)"

lemma outside_simps [simp]:
  "outside addr stop [] = []" "outside addr stop (x # m) = piece addr stop x @ outside addr stop m"
  by (simp_all add: outside_def)

lemma piece_before: "k < e \<Longrightarrow> e \<le> addr \<Longrightarrow> addr < stop \<Longrightarrow> piece addr stop (k, e, f) = [(k, e, f)]"
proof -
  assume "k < e" "e \<le> addr" "addr < stop"
  then have "k < addr" "\<not> stop < e" "min e addr = e" by (order, order, simp add: min_def)
  then show ?thesis by (simp add: piece_def)
qed

lemma piece_after: "k < e \<Longrightarrow> stop \<le> k \<Longrightarrow> addr < stop \<Longrightarrow> piece addr stop (k, e, f) = [(k, e, f)]"
  by (auto simp: piece_def max_def)

lemma outside_before:
  assumes "acl_ok m" "\<forall>(k, e, f) \<in> set m. e \<le> addr" "addr < stop"
  shows "outside addr stop m = m"
  using assms by (induction m rule: acl_ok.induct) (auto simp: piece_before)

lemma outside_after:
  assumes "acl_ok m" "\<forall>(k, e, f) \<in> set m. stop \<le> k" "addr < stop"
  shows "outside addr stop m = m"
  using assms by (induction m rule: acl_ok.induct) (auto simp: piece_after)

lemma acl_cut_outside:
  assumes "acl_ok suf" "\<forall>(k, e, f) \<in> set pre. \<forall>(k', e', f') \<in> set suf. k < k'" "addr < stop"
  shows "acl_cut addr stop suf (pre @ suf) = pre @ outside addr stop suf"
  using assms
proof (induction suf arbitrary: pre)
  case (Cons x rest)
  obtain k e f where x: "x = (k, e, f)" by (cases x)
  have ok: "k < e" "acl_ok rest" and next_key: "(k', e', f') \<in> set rest \<Longrightarrow> e \<le> k'" for k' e' f'
    using Cons.prems(1) by (auto simp: x)
  have pre: "\<forall>(k', e', f') \<in> set pre. k' < k" using Cons.prems(2) by (auto simp: x)
  have IH: "acl_cut addr stop rest (pre' @ rest) = pre' @ outside addr stop rest"
    if "\<forall>(k', e', f') \<in> set pre'. k' < e" for pre'
  proof (rule Cons.IH)
    show "\<forall>(k1, e1, f1) \<in> set pre'. \<forall>(k', e', f') \<in> set rest. k1 < k'"
      using that next_key by (auto intro: order.strict_trans2)
  qed (use ok Cons.prems(3) in auto)
  consider (right) "stop \<le> k" | (left) "k < stop" "e \<le> addr" | (over) "k < stop" "addr < e" by force
  then show ?case
  proof cases
    case right
    have "stop \<le> k'" if "(k', e', f') \<in> set rest" for k' e' f' using next_key[OF that] right ok(1) by order
    then have "outside addr stop (x # rest) = x # rest"
      by (intro outside_after) (use Cons.prems right in \<open>auto simp: x\<close>)
    then show ?thesis using right by (auto simp: x)
  next
    case left
    have "\<forall>(k', e', f') \<in> set (pre @ [x]). k' < e" using pre ok by (auto simp: x)
    from IH[OF this] show ?thesis using left ok Cons.prems(3) by (simp add: x piece_before)
  next
    case over
    have cut1: "(if e > stop then acl_put stop e f (pre @ x # rest) else pre @ x # rest)
       = pre @ x # (if stop < e then [(stop, e, f)] else []) @ rest"
    proof (cases "stop < e")
      case True
      have "acl_put stop e f (pre @ x # rest) = (pre @ [x]) @ acl_put stop e f rest"
        using acl_put_append[of "pre @ [x]" stop e f rest] pre over by (fastforce simp: x)
      moreover have "acl_put stop e f rest = (stop, e, f) # rest"
        by (rule acl_put_front) (use True next_key in \<open>auto intro: order.strict_trans2\<close>)
      ultimately show ?thesis using True by simp
    qed simp
    have mm: "min e addr = addr" "max k stop = stop" using over by (simp_all add: min.absorb4 max.absorb4)
    have cut2: "(if k < addr then acl_put k addr f m1 else acl_erase k m1) = pre @ piece addr stop x @ rest"
      if "m1 = pre @ x # (if stop < e then [(stop, e, f)] else []) @ rest" for m1
      by (simp add: that acl_put_append[OF pre] acl_erase_append[OF pre] x piece_def mm)
    have keys: "\<forall>(k', e', f') \<in> set (pre @ piece addr stop x). k' < e"
      using pre ok over by (auto simp: x piece_def max_def split: if_splits)
    have ne: "\<not> e \<le> addr" using over(2) by order
    define m1 where "m1 = (if e > stop then acl_put stop e f (pre @ x # rest) else pre @ x # rest)"
    have "acl_cut addr stop (x # rest) (pre @ x # rest)
        = acl_cut addr stop rest (if k < addr then acl_put k addr f m1 else acl_erase k m1)"
      unfolding m1_def using over(1) ne by (simp add: x Let_def)
    also have "\<dots> = acl_cut addr stop rest ((pre @ piece addr stop x) @ rest)"
      using cut2[OF m1_def[unfolded cut1]] by simp
    finally have "acl_cut addr stop (x # rest) (pre @ x # rest) = acl_cut addr stop rest ((pre @ piece addr stop x) @ rest)" .
    then show ?thesis using IH[OF keys] by simp
  qed
qed simp

lemma acl_from_split:
  assumes "acl_ok m"
  shows "\<exists>pre. m = pre @ acl_from addr m \<and> (\<forall>(k, e, f) \<in> set pre. e \<le> addr)"
  using assms
proof (induction addr m rule: acl_from.induct)
  case (3 addr k e f k' e' f' m)
  show ?case
  proof (cases "addr \<le> k'")
    case True
    then show ?thesis by (auto intro: exI[of _ "[(k, e, f)]"])
  next
    case False
    then have a: "\<not> addr \<le> k" "e \<le> addr" using "3.prems" by auto
    obtain pre where "(k', e', f') # m = pre @ acl_from addr ((k', e', f') # m)" "\<forall>(k, e, f) \<in> set pre. e \<le> addr"
      using "3.IH" "3.prems" a False by auto
    then show ?thesis using a False by (intro exI[of _ "(k, e, f) # pre"]) auto
  qed
qed (auto split: if_splits)

lemma acl_ok_cut:
  assumes "acl_ok m" "addr < stop"
  shows "acl_cut addr stop (acl_from addr m) m = outside addr stop m"
proof -
  obtain pre s where s: "acl_from addr m = s" "m = pre @ s" and le: "\<forall>(k, e, f) \<in> set pre. e \<le> addr"
    using acl_from_split[OF assms(1)] by blast
  have ok: "acl_ok pre" "acl_ok s" and gap: "\<forall>(k, e, f) \<in> set pre. \<forall>(k', e', f') \<in> set s. e \<le> k'"
    using assms(1) unfolding s(2) acl_ok_append by blast+
  have "k < k'" if "(k, e, f) \<in> set pre" "(k', e', f') \<in> set s" for k e f k' e' f'
  proof -
    have "k < e" "e \<le> k'" using acl_ok_entry[OF ok(1) that(1)] gap that by auto
    then show ?thesis by order
  qed
  then have "\<forall>(k, e, f) \<in> set pre. \<forall>(k', e', f') \<in> set s. k < k'" by blast
  from acl_cut_outside[OF ok(2) this assms(2)] have "acl_cut addr stop s m = pre @ outside addr stop s"
    unfolding s(2) .
  also have "\<dots> = outside addr stop m"
    using outside_before[OF ok(1) le assms(2)] by (simp add: outside_def s(2))
  finally show ?thesis by (simp add: s(1))
qed

lemma piece_entry:
  assumes "(k', e', f') \<in> set (piece addr stop (k, e, f))" "k < e" "addr < stop"
  shows "k \<le> k'" "e' \<le> e" "k' < e'" "f' = f" "e' \<le> addr \<or> stop \<le> k'"
  using assms by (auto simp: piece_def min_def max_def split: if_splits)

lemma outside_entry:
  assumes "(k', e', f) \<in> set (outside addr stop m)"
  obtains k e where "(k, e, f) \<in> set m" "(k', e', f) \<in> set (piece addr stop (k, e, f))"
  using assms by (fastforce simp: outside_def piece_def split: if_splits)

lemma piece_ok: "k < e \<Longrightarrow> f \<noteq> 0 \<Longrightarrow> addr < stop \<Longrightarrow> acl_ok (piece addr stop (k, e, f))"
  by (auto simp: piece_def min_def max_def)

lemma outside_ok:
  assumes "acl_ok m" "addr < stop"
  shows "acl_ok (outside addr stop m)"
  using assms
proof (induction m rule: acl_ok.induct)
  case (2 k e f m)
  have "e1 \<le> k2" if a: "(k1, e1, f1) \<in> set (piece addr stop (k, e, f))" and b: "(k2, e2, f2) \<in> set (outside addr stop m)" for k1 e1 f1 k2 e2 f2
  proof -
    obtain k3 e3 where m: "(k3, e3, f2) \<in> set m" "(k2, e2, f2) \<in> set (piece addr stop (k3, e3, f2))"
      by (rule outside_entry[OF b])
    have "k < e" "k3 < e3" "e \<le> k3" using 2 m(1) acl_ok_entry[of m k3 e3 f2] by auto
    then show ?thesis using piece_entry[OF a] piece_entry[OF m(2)] 2(3) by (meson order.trans)
  qed
  then show ?case using 2 piece_ok[of k e f addr stop] by (auto simp: acl_ok_append)
qed simp

lemma outside_covers:
  assumes "acl_ok m" "addr < stop"
  shows "covers (outside addr stop m) x f \<longleftrightarrow> \<not> (addr \<le> x \<and> x < stop) \<and> covers m x f"
proof
  assume "covers (outside addr stop m) x f"
  then obtain k' e' where a: "(k', e', f) \<in> set (outside addr stop m)" "k' \<le> x" "x < e'" by blast
  obtain k e where m: "(k, e, f) \<in> set m" "(k', e', f) \<in> set (piece addr stop (k, e, f))" by (rule outside_entry[OF a(1)])
  have "k < e" using acl_ok_entry[OF assms(1) m(1)] by simp
  note p = piece_entry[OF m(2) this assms(2)]
  have "\<not> (addr \<le> x \<and> x < stop)" using p(5) a assms(2) by auto
  moreover have "k \<le> x" "x < e" using p(1,2) a by auto
  ultimately show "\<not> (addr \<le> x \<and> x < stop) \<and> covers m x f" using m(1) by blast
next
  assume *: "\<not> (addr \<le> x \<and> x < stop) \<and> covers m x f"
  then obtain k e where m: "(k, e, f) \<in> set m" "k \<le> x" "x < e" by blast
  have "\<exists>k' e'. (k', e', f) \<in> set (piece addr stop (k, e, f)) \<and> k' \<le> x \<and> x < e'"
  proof (cases "x < addr")
    case True
    then have "(k, min e addr, f) \<in> set (piece addr stop (k, e, f))" using m by (auto simp: piece_def)
    then show ?thesis using m True by (intro exI[of _ k] exI[of _ "min e addr"]) simp
  next
    case False
    then have "stop \<le> x" using * by auto
    then have "(max k stop, e, f) \<in> set (piece addr stop (k, e, f))" using m by (auto simp: piece_def)
    then show ?thesis using m \<open>stop \<le> x\<close> by (intro exI[of _ "max k stop"] exI[of _ e]) simp
  qed
  then show "covers (outside addr stop m) x f" using m(1) by (auto simp: outside_def)
qed

lemma acl_put_ok:
  assumes "acl_ok m" "\<forall>(k, e, f) \<in> set m. e \<le> addr \<or> stop \<le> k" "addr < stop" "flags \<noteq> 0"
  shows "acl_ok (acl_put addr stop flags m) \<and> set (acl_put addr stop flags m) = insert (addr, stop, flags) (set m)"
  using assms
proof (induction m rule: acl_ok.induct)
  case (2 k e f m)
  have ke: "k < e" using 2(2) by simp
  show ?case
  proof (cases "e \<le> addr")
    case True
    then have "k < addr" using ke by order
    then have ne: "\<not> addr < k" "addr \<noteq> k" by order+
    have IH: "acl_ok (acl_put addr stop flags m)" "set (acl_put addr stop flags m) = insert (addr, stop, flags) (set m)"
      using 2 by auto
    show ?thesis using 2(2) IH ne True by auto
  next
    case False
    then have sk: "stop \<le> k" using 2(3) by auto
    then have lt: "addr < k" using 2(4) by order
    have "stop \<le> k'" if "(k', e', f') \<in> set m" for k' e' f'
    proof -
      have "e \<le> k'" using 2(2) that by auto
      then show ?thesis using sk ke by order
    qed
    then show ?thesis using 2(2,4,5) lt sk by auto
  qed
qed simp

text \<open>Two well-formed maps with the same contents.\<close>

definition acl_same :: "acl_map \<Rightarrow> acl_map \<Rightarrow> bool" where
  "acl_same m m' \<longleftrightarrow> acl_ok m \<and> acl_ok m' \<and> (\<forall>x f. covers m' x f \<longleftrightarrow> covers m x f)"

lemma acl_same_refl: "acl_ok m \<Longrightarrow> acl_same m m"
  by (simp add: acl_same_def)

lemma acl_same_trans: "acl_same a b \<Longrightarrow> acl_same b c \<Longrightarrow> acl_same a c"
  by (simp add: acl_same_def)

lemma acl_same_Cons:
  assumes "acl_ok ((k, e, f) # m)" "acl_same m m'"
  shows "acl_same ((k, e, f) # m) ((k, e, f) # m')"
proof -
  have ok: "acl_ok m'" and cov: "\<And>x g. covers m' x g \<longleftrightarrow> covers m x g" using assms(2) by (auto simp: acl_same_def)
  have "e \<le> k'" if "(k', e', f') \<in> set m'" for k' e' f'
  proof -
    have "covers m' k' f'" using acl_ok_entry[OF ok that] that by blast
    then obtain k0 e0 where "(k0, e0, f') \<in> set m" "k0 \<le> k'" using cov by blast
    moreover from this have "e \<le> k0" using assms(1) by auto
    ultimately show ?thesis by order
  qed
  then have "acl_ok ((k, e, f) # m')" using assms(1) ok by auto
  moreover have "covers ((k, e, f) # a) x g \<longleftrightarrow> (f = g \<and> k \<le> x \<and> x < e) \<or> covers a x g" for a x g by auto
  ultimately show ?thesis using assms(1) cov unfolding acl_same_def by presburger
qed

lemma acl_same_join:
  assumes "acl_ok ((k, e, f) # (e, e', f) # m)"
  shows "acl_same ((k, e, f) # (e, e', f) # m) ((k, e', f) # m)"
proof -
  have o: "k < e" "e < e'" "k < e'" using assms by auto
  have split: "k \<le> x \<and> x < e' \<longleftrightarrow> k \<le> x \<and> x < e \<or> e \<le> x \<and> x < e'" for x using o by (cases "x < e") auto
  have c: "covers ((k, e', f) # a) x g \<longleftrightarrow> (f = g \<and> k \<le> x \<and> x < e') \<or> covers a x g" for a k e' x g by auto
  have "covers ((k, e', f) # m) x g \<longleftrightarrow> covers ((k, e, f) # (e, e', f) # m) x g" for x g
    unfolding c split by blast
  moreover have "acl_ok ((k, e', f) # m)" using assms o by auto
  ultimately show ?thesis using assms unfolding acl_same_def by blast
qed

lemma acl_merge_ok:
  "acl_ok m \<Longrightarrow> \<forall>(k, e, f) \<in> set m. k = addr \<longrightarrow> f = flags \<Longrightarrow> acl_same m (acl_merge addr flags m)"
proof (induction addr flags m rule: acl_merge.induct)
  case (3 addr flags k e f k' e' f' m)
  show ?case
  proof (cases "k' = addr \<and> e = addr \<and> f = flags")
    case T: True
    then have True: "k' = addr" "e = addr" "f = flags" "f' = flags" using "3.prems"(2) by auto
    have s1: "acl_same ((k, e, f) # (k', e', f') # m) ((k, e', f) # m)"
      using acl_same_join[of k e f e' m] "3.prems"(1) True by simp
    show ?thesis
    proof (cases m)
      case (Cons y m')
      obtain k2 e2 f2 where y: "y = (k2, e2, f2)" by (cases y)
      have "acl_ok ((k, e', f) # m)" using s1 by (simp only: acl_same_def)
      then show ?thesis
        using s1 acl_same_trans[OF s1, of "(k, e2, f) # m'"] acl_same_join[of k e' f e2 m'] True by (auto simp: Cons y)
    qed (use s1 True in simp)
  next
    case F: False
    show ?thesis
    proof (cases "k = addr")
      case True
      then show ?thesis using F acl_same_join[of k e f e' m] acl_same_refl[OF "3.prems"(1)] "3.prems"(1) by auto
    next
      case N: False
      have "acl_ok ((k', e', f') # m)" "\<forall>(k, e, f) \<in> set ((k', e', f') # m). k = addr \<longrightarrow> f = flags" using "3.prems" by simp_all
      from acl_same_Cons[OF "3.prems"(1) "3.IH"[OF F N this]] show ?thesis using F N by auto
    qed
  qed
qed (simp_all add: acl_same_refl)

lemma acl_scan_iff:
  assumes "acl_ok m"
  shows "acl_scan addr stop flags m \<longleftrightarrow> (\<forall>(k, e, f) \<in> set m. k < stop \<and> addr < e \<longrightarrow> f AND flags = flags)"
  using assms
proof (induction m arbitrary: addr rule: acl_ok.induct)
  case (2 k e f m)
  have later: "e \<le> k'" "k' < e'" if "(k', e', f') \<in> set m" for k' e' f'
    using 2(2) that acl_ok_entry[of m k' e' f'] by auto
  show ?case
  proof (cases "k < stop")
    case False
    have "\<not> k' < stop" if "(k', e', f') \<in> set m" for k' e' f' using later[OF that] False 2(2) by fastforce
    then show ?thesis using False by auto
  next
    case True
    have "e < e'" "addr < e \<longrightarrow> addr < e'" if "(k', e', f') \<in> set m" for k' e' f'
      using later[OF that] by (order, auto)
    then show ?thesis using True 2 by auto
  qed
qed simp

lemma acl_set_covers:
  assumes "acl_ok m" "addr < addr + sz" "sz \<noteq> 0"
  shows "acl_ok (acl_set m addr sz flags)"
    "covers (acl_set m addr sz flags) x f \<longleftrightarrow>
       (if addr \<le> x \<and> x < addr + sz then flags = f \<and> f \<noteq> 0 else covers m x f)"
proof -
  define stop where "stop = addr + sz"
  have lt: "addr < stop" using assms by (simp add: stop_def)
  let ?o = "outside addr stop m"
  have gap: "\<forall>(k, e, g) \<in> set ?o. e \<le> addr \<or> stop \<le> k"
  proof (clarify)
    fix k e g assume "(k, e, g) \<in> set ?o" and n: "\<not> stop \<le> k"
    then obtain k0 e0 where "(k0, e0, g) \<in> set m" "(k, e, g) \<in> set (piece addr stop (k0, e0, g))"
      by (meson outside_entry)
    then show "e \<le> addr" using piece_entry(5)[of k e g addr stop k0 e0 g] acl_ok_entry[OF assms(1)] lt n by blast
  qed
  note oo = outside_ok[OF assms(1) lt] and oc = outside_covers[OF assms(1) lt]
  have eq: "acl_set m addr sz flags = (if flags \<noteq> 0 then acl_merge addr flags (acl_emplace addr stop flags ?o) else ?o)"
    using assms(3) acl_ok_cut[OF assms(1) lt] by (simp add: acl_set_def stop_def Let_def)
  have "acl_ok (acl_set m addr sz flags) \<and> (covers (acl_set m addr sz flags) x f \<longleftrightarrow>
     (if addr \<le> x \<and> x < stop then flags = f \<and> f \<noteq> 0 else covers m x f))"
  proof (cases "flags = 0")
    case True
    then show ?thesis using oo oc[where x = x and f = f] unfolding eq by auto
  next
    case False
    note p = acl_put_ok[OF oo gap lt False]
    have new: "\<forall>(k, e, g) \<in> set ?o. k \<noteq> addr"
    proof (clarify)
      fix e g assume "(addr, e, g) \<in> set ?o"
      then show False using gap lt acl_ok_entry[OF oo, of addr e g] by auto
    qed
    then have em: "acl_emplace addr stop flags ?o = acl_put addr stop flags ?o" by (auto simp: acl_emplace_def)
    have s: "acl_same (acl_put addr stop flags ?o) (acl_merge addr flags (acl_put addr stop flags ?o))"
      by (rule acl_merge_ok) (use p new in auto)
    have "covers (acl_put addr stop flags ?o) x f \<longleftrightarrow> (flags = f \<and> addr \<le> x \<and> x < stop) \<or> covers ?o x f"
      using p by auto
    then show ?thesis using s oc[where x = x and f = f] False unfolding eq em acl_same_def by auto
  qed
  then show "acl_ok (acl_set m addr sz flags)"
    "covers (acl_set m addr sz flags) x f \<longleftrightarrow>
       (if addr \<le> x \<and> x < addr + sz then flags = f \<and> f \<noteq> 0 else covers m x f)"
    by (auto simp: stop_def)
qed

lemma acl_check_iff:
  assumes "acl_ok m" "addr < addr + sz"
  shows "acl_check m addr sz flags \<longleftrightarrow>
    (\<forall>x f. addr \<le> x \<and> x < addr + sz \<and> acl_at m x = Some f \<longrightarrow> f AND flags = flags)"
proof -
  obtain pre s where s: "acl_from addr m = s" "m = pre @ s" and le: "\<forall>(k, e, f) \<in> set pre. e \<le> addr"
    using acl_from_split[OF assms(1)] by blast
  have ok: "acl_ok s" using assms(1) unfolding s(2) acl_ok_append by blast
  have "acl_check m addr sz flags \<longleftrightarrow> (\<forall>(k, e, f) \<in> set s. k < addr + sz \<and> addr < e \<longrightarrow> f AND flags = flags)"
    using acl_scan_iff[OF ok] by (simp add: acl_check_def s(1))
  also have "\<dots> \<longleftrightarrow> (\<forall>(k, e, f) \<in> set m. k < addr + sz \<and> addr < e \<longrightarrow> f AND flags = flags)"
    using le by (fastforce simp: s(2))
  also have "\<dots> \<longleftrightarrow> (\<forall>k e f. (k, e, f) \<in> set m \<and> k < addr + sz \<and> addr < e \<longrightarrow> f AND flags = flags)" by auto
  also have "\<dots> \<longleftrightarrow> (\<forall>x f. addr \<le> x \<and> x < addr + sz \<and> covers m x f \<longrightarrow> f AND flags = flags)"
  proof (intro iffI allI impI)
    fix x f assume a: "\<forall>k e f. (k, e, f) \<in> set m \<and> k < addr + sz \<and> addr < e \<longrightarrow> f AND flags = flags"
      and b: "addr \<le> x \<and> x < addr + sz \<and> covers m x f"
    then obtain k e where c: "(k, e, f) \<in> set m" "k \<le> x" "x < e" by blast
    have "k < addr + sz" "addr < e" using b c by (auto intro: order.strict_trans1 order.strict_trans2)
    then show "f AND flags = flags" using a c by blast
  next
    fix k e f assume a: "\<forall>x f. addr \<le> x \<and> x < addr + sz \<and> covers m x f \<longrightarrow> f AND flags = flags"
      and b: "(k, e, f) \<in> set m \<and> k < addr + sz \<and> addr < e"
    have "k < e" using acl_ok_entry[OF assms(1)] b by blast
    then have "addr \<le> max addr k" "max addr k < addr + sz" "k \<le> max addr k" "max addr k < e" using b assms(2) by auto
    then show "f AND flags = flags" using a b by blast
  qed
  finally show ?thesis using acl_at_iff[OF assms(1)] by simp
qed

section \<open>Properties\<close>

text \<open>
  C34. \<open>ACLManager::set\<close> and \<open>check\<close> implement a function from addresses to permission flags.  On a
  well-formed map and a non-empty range that does not wrap around, \<open>set\<close> changes the flags of exactly
  the addresses of the range (flags zero remove them) and keeps the map well formed, whatever entries
  it has to cut, drop or join; \<open>check\<close> succeeds when every address of its range that has flags has
  all the flags asked for, and so addresses without an entry are always accessible.
\<close>

theorem acl_refines_function:
  assumes "acl_ok m" "addr < addr + sz" "sz \<noteq> 0"
  shows "acl_ok (acl_set m addr sz flags)
    \<and> acl_at (acl_set m addr sz flags) =
        (\<lambda>x. if addr \<le> x \<and> x < addr + sz then (if flags = 0 then None else Some flags) else acl_at m x)
    \<and> (acl_check m addr sz flags \<longleftrightarrow>
        (\<forall>x f. addr \<le> x \<and> x < addr + sz \<and> acl_at m x = Some f \<longrightarrow> f AND flags = flags))"
proof (intro conjI ext)
  show ok: "acl_ok (acl_set m addr sz flags)" by (rule acl_set_covers(1)[OF assms])
  fix x
  show "acl_at (acl_set m addr sz flags) x =
      (if addr \<le> x \<and> x < addr + sz then (if flags = 0 then None else Some flags) else acl_at m x)"
  proof (rule acl_at_eqI[OF ok])
    fix f
    show "acl_at (acl_set m addr sz flags) x = Some f \<longleftrightarrow>
      (if addr \<le> x \<and> x < addr + sz then (if flags = 0 then None else Some flags) else acl_at m x) = Some f"
      unfolding acl_at_iff[OF ok] acl_set_covers(2)[OF assms] using acl_at_iff[OF assms(1), where x = x and f = f] by auto
  qed
qed (rule acl_check_iff[OF assms(1,2)])

theorem acl_refines_function_witness:
  "acl_at (acl_set [(0x1000, 0x3000, 3), (0x4000, 0x5000, 1)] 0x2000 0x2000 1) 0x2800 = Some 1
   \<and> acl_set [(0x1000, 0x3000, 3), (0x4000, 0x5000, 1)] 0x2000 0x2000 1 = [(0x1000, 0x2000, 3), (0x2000, 0x5000, 1)]"
proof
  have "acl_ok [(0x1000, 0x3000, 3), (0x4000, 0x5000, 1)]" "(0x2000 :: u64) < 0x2000 + 0x2000" "(0x2000 :: u64) \<noteq> 0"
    by code_simp+
  from acl_refines_function[OF this, of 1]
  have "acl_at (acl_set [(0x1000, 0x3000, 3), (0x4000, 0x5000, 1)] 0x2000 0x2000 1) 0x2800
    = (if (0x2000 :: u64) \<le> 0x2800 \<and> (0x2800 :: u64) < 0x2000 + 0x2000 then (if (1 :: u32) = 0 then None else Some 1)
       else acl_at [(0x1000, 0x3000, 3), (0x4000, 0x5000, 1)] 0x2800)" by presburger
  then show "acl_at (acl_set [(0x1000, 0x3000, 3), (0x4000, 0x5000, 1)] 0x2000 0x2000 1) 0x2800 = Some 1" by simp
qed code_simp

end
