(* ===== verification/Ram.thy ===== *)
theory Ram
  imports Acl Bitmanip
begin

text \<open>
  The simulated memory, class \<open>RAM\<close> of \<open>src/vortex/sim/common/mem.cpp\<close>: pages of bytes that are
  created by the first write, in a directory of chunks with a cache of the chunk used last, guarded
  by a capacity and by the access control of theory \<open>Acl\<close>.

  The lemmas show that, through all this, the memory is a function from addresses to bytes: reads
  return it and change nothing, writes and copies (also between overlapping ranges) update it.
\<close>

section \<open>State\<close>

text \<open>The exceptions of \<open>mem.h\<close>.\<close>

datatype mem_error = BadAddress | OutOfRange

text \<open>
  \<open>chunks\<close> is the \<open>unordered_map\<close> from chunk indices to arrays of page pointers, a null pointer
  being \<open>None\<close>.  A pointer to such an array is given by the index the map stores it under, so
  \<open>last_chunk\<close> is the index of the array it points to and \<open>last_chunk_index\<close> the tag compared on lookup.
\<close>

record ram =
  capacity :: u64
  page_bits :: nat
  chunks :: "(u64 \<times> u8 list option list) list"
  last_chunk :: "u64 option"
  last_chunk_index :: u64
  zero_page :: "u8 list"
  acl_mngr :: acl_map
  check_acl :: bool

definition CHUNK_BITS :: nat where
  "CHUNK_BITS = 10"

definition CHUNK_SIZE :: nat where
  "CHUNK_SIZE = 2 ^ CHUNK_BITS"

definition sentinel :: "nat \<Rightarrow> u8" where
  "sentinel i = ucast (drop_bit ((i mod 4) * 8) (0xbaadf00d :: u32) AND 0xff)"

definition page_fill :: "nat \<Rightarrow> u8 list" where
  "page_fill page_size = map sentinel [0..<page_size]"

definition ram_new :: "u64 \<Rightarrow> u32 \<Rightarrow> ram option" where
  "ram_new cap page_size =
     (if ispow2 page_size \<and> (cap \<noteq> 0 \<longrightarrow> ispow2 cap \<and> ucast page_size \<le> cap \<and> cap mod ucast page_size = 0)
      then Some \<lparr>capacity = cap, page_bits = log2ceil page_size, chunks = [], last_chunk = None,
                 last_chunk_index = 0, zero_page = page_fill (unat page_size), acl_mngr = [], check_acl = False\<rparr>
      else None)"

definition ram_clear :: "ram \<Rightarrow> ram" where
  "ram_clear r = r\<lparr>chunks := [], last_chunk := None\<rparr>"

definition ram_size :: "ram \<Rightarrow> u64" where
  "ram_size r =
     push_bit (page_bits r) (of_nat (sum_list (map (\<lambda>(ci, chunk). length (filter (\<lambda>p. p \<noteq> None) chunk)) (chunks r))))"

section \<open>Access to one byte\<close>

text \<open>The pointer \<open>get\<close> returns: into the shared page for unallocated memory, or into a page.\<close>

datatype ram_ptr = Zero_Page u32 | In_Page u64 u32 u32

definition page_size_of :: "ram \<Rightarrow> u32" where
  "page_size_of r = push_bit (page_bits r) 1"

definition page_offset :: "ram \<Rightarrow> u64 \<Rightarrow> u32" where
  "page_offset r address = ucast (address AND ucast (page_size_of r - 1))"

definition page_index :: "ram \<Rightarrow> u64 \<Rightarrow> u64" where
  "page_index r address = drop_bit (page_bits r) address"

definition chunk_index :: "ram \<Rightarrow> u64 \<Rightarrow> u64" where
  "chunk_index r address = drop_bit CHUNK_BITS (page_index r address)"

definition chunk_offset :: "ram \<Rightarrow> u64 \<Rightarrow> u32" where
  "chunk_offset r address = ucast (page_index r address AND (of_nat CHUNK_SIZE - 1))"

definition chunk_array :: "ram \<Rightarrow> u64 \<Rightarrow> u8 list option list" where
  "chunk_array r p = (case map_of (chunks r) p of Some c \<Rightarrow> c | None \<Rightarrow> [])"

fun chunk_write :: "u64 \<Rightarrow> (u8 list option list \<Rightarrow> u8 list option list) \<Rightarrow>
    (u64 \<times> u8 list option list) list \<Rightarrow> (u64 \<times> u8 list option list) list" where
  "chunk_write p g [] = []"
| "chunk_write p g ((k, c) # m) = (if k = p then (k, g c) # m else (k, c) # chunk_write p g m)"

definition find_chunk :: "ram \<Rightarrow> u64 \<Rightarrow> bool \<Rightarrow> u64 option \<times> ram" where
  "find_chunk r ci allocate =
     (if last_chunk r \<noteq> None \<and> last_chunk_index r = ci then (last_chunk r, r)
      else case map_of (chunks r) ci of
        Some _ \<Rightarrow> (Some ci, r\<lparr>last_chunk := Some ci, last_chunk_index := ci\<rparr>)
      | None \<Rightarrow>
          if \<not> allocate then (None, r)
          else (Some ci, r\<lparr>chunks := (ci, replicate CHUNK_SIZE None) # chunks r,
                           last_chunk := Some ci, last_chunk_index := ci\<rparr>))"

definition ram_get :: "ram \<Rightarrow> u64 \<Rightarrow> bool \<Rightarrow> (mem_error + ram_ptr) \<times> ram" where
  "ram_get r address allocate =
     (if capacity r \<noteq> 0 \<and> address \<ge> capacity r then (Inl OutOfRange, r)
      else
        let off = page_offset r address;
            co = chunk_offset r address
        in case find_chunk r (chunk_index r address) allocate of
             (None, r1) \<Rightarrow> (Inr (Zero_Page off), r1)
           | (Some p, r1) \<Rightarrow>
               (case chunk_array r1 p ! unat co of
                  Some _ \<Rightarrow> (Inr (In_Page p co off), r1)
                | None \<Rightarrow>
                    if \<not> allocate then (Inr (Zero_Page off), r1)
                    else (Inr (In_Page p co off),
                          r1\<lparr>chunks := chunk_write p (\<lambda>c. c[unat co := Some (page_fill (unat (page_size_of r)))])
                                         (chunks r1)\<rparr>)))"

text \<open>Reading and writing through the pointer; \<open>get(a, true)\<close> never points into the shared page.\<close>

fun ptr_load :: "ram \<Rightarrow> ram_ptr \<Rightarrow> u8" where
  "ptr_load r (Zero_Page off) = zero_page r ! unat off"
| "ptr_load r (In_Page p co off) = the (chunk_array r p ! unat co) ! unat off"

fun ptr_store :: "ram \<Rightarrow> ram_ptr \<Rightarrow> u8 \<Rightarrow> ram" where
  "ptr_store r (Zero_Page off) v = r\<lparr>zero_page := (zero_page r)[unat off := v]\<rparr>"
| "ptr_store r (In_Page p co off) v =
     r\<lparr>chunks := chunk_write p (\<lambda>c. c[unat co := map_option (\<lambda>pg. pg[unat off := v]) (c ! unat co)]) (chunks r)\<rparr>"

section \<open>Operations\<close>

text \<open>
  The loops over the bytes of a request, by the number of bytes left.  An exception leaves the
  bytes handled so far in place.
\<close>

fun read_bytes :: "ram \<Rightarrow> u64 \<Rightarrow> nat \<Rightarrow> (mem_error + u8 list) \<times> ram" where
  "read_bytes r addr 0 = (Inr [], r)"
| "read_bytes r addr (Suc n) =
     (case ram_get r addr False of
        (Inl e, r1) \<Rightarrow> (Inl e, r1)
      | (Inr p, r1) \<Rightarrow>
          (case read_bytes r1 (addr + 1) n of
             (Inl e, r2) \<Rightarrow> (Inl e, r2)
           | (Inr bs, r2) \<Rightarrow> (Inr (ptr_load r1 p # bs), r2)))"

definition ram_read :: "ram \<Rightarrow> u64 \<Rightarrow> u64 \<Rightarrow> (mem_error + u8 list) \<times> ram" where
  "ram_read r addr sz =
     (if check_acl r \<and> \<not> acl_check (acl_mngr r) addr sz 1 then (Inl BadAddress, r)
      else read_bytes r addr (unat sz))"

fun write_bytes :: "ram \<Rightarrow> u64 \<Rightarrow> u8 list \<Rightarrow> mem_error option \<times> ram" where
  "write_bytes r addr [] = (None, r)"
| "write_bytes r addr (v # vs) =
     (case ram_get r addr True of
        (Inl e, r1) \<Rightarrow> (Some e, r1)
      | (Inr p, r1) \<Rightarrow> write_bytes (ptr_store r1 p v) (addr + 1) vs)"

definition ram_write :: "ram \<Rightarrow> u64 \<Rightarrow> u8 list \<Rightarrow> mem_error option \<times> ram" where
  "ram_write r addr data =
     (if check_acl r \<and> \<not> acl_check (acl_mngr r) addr (of_nat (length data)) 2 then (Some BadAddress, r)
      else write_bytes r addr data)"

text \<open>
  One assignment of a copy loop.  Since C++17 the right operand of an assignment is evaluated first,
  so the source byte is read before the destination is located.
\<close>

definition copy_byte :: "ram \<Rightarrow> u64 \<Rightarrow> u64 \<Rightarrow> mem_error option \<times> ram" where
  "copy_byte r d s =
     (case ram_get r s False of
        (Inl e, r1) \<Rightarrow> (Some e, r1)
      | (Inr p, r1) \<Rightarrow>
          (case ram_get r1 d True of
             (Inl e, r2) \<Rightarrow> (Some e, r2)
           | (Inr q, r2) \<Rightarrow> (None, ptr_store r2 q (ptr_load r1 p))))"

fun copy_up :: "ram \<Rightarrow> u64 \<Rightarrow> u64 \<Rightarrow> nat \<Rightarrow> mem_error option \<times> ram" where
  "copy_up r d s 0 = (None, r)"
| "copy_up r d s (Suc n) =
     (case copy_byte r d s of (Some e, r1) \<Rightarrow> (Some e, r1) | (None, r1) \<Rightarrow> copy_up r1 (d + 1) (s + 1) n)"

fun copy_down :: "ram \<Rightarrow> u64 \<Rightarrow> u64 \<Rightarrow> nat \<Rightarrow> mem_error option \<times> ram" where
  "copy_down r d s 0 = (None, r)"
| "copy_down r d s (Suc n) =
     (case copy_byte r (d + of_nat n) (s + of_nat n) of
        (Some e, r1) \<Rightarrow> (Some e, r1) | (None, r1) \<Rightarrow> copy_down r1 d s n)"

definition ram_copy :: "ram \<Rightarrow> u64 \<Rightarrow> u64 \<Rightarrow> u64 \<Rightarrow> mem_error option \<times> ram" where
  "ram_copy r dest_addr src_addr sz =
     (if check_acl r \<and> (\<not> acl_check (acl_mngr r) src_addr sz 1 \<or> \<not> acl_check (acl_mngr r) dest_addr sz 2)
      then (Some BadAddress, r)
      else if dest_addr > src_addr then copy_down r dest_addr src_addr (unat sz)
      else if dest_addr < src_addr then copy_up r dest_addr src_addr (unat sz)
      else (None, r))"

definition ram_set_acl :: "ram \<Rightarrow> u64 \<Rightarrow> u64 \<Rightarrow> u32 \<Rightarrow> mem_error option \<times> ram" where
  "ram_set_acl r addr sz flags =
     (if capacity r \<noteq> 0 \<and> addr + sz > capacity r then (Some OutOfRange, r)
      else (None, r\<lparr>acl_mngr := acl_set (acl_mngr r) addr sz flags\<rparr>))"

definition ram_enable_acl :: "ram \<Rightarrow> bool \<Rightarrow> ram" where
  "ram_enable_acl r enable = r\<lparr>check_acl := enable\<rparr>"

section \<open>Loading images\<close>

text \<open>The contents of a file are given as the list of its bytes.\<close>

definition load_bin :: "ram \<Rightarrow> u8 list \<Rightarrow> u64 \<Rightarrow> mem_error option \<times> ram" where
  "load_bin r file destination = ram_write (ram_clear r) destination file"

text \<open>A file shorter than its header leaves the header undefined: \<open>None\<close>.\<close>

definition load_vx :: "ram \<Rightarrow> u8 list \<Rightarrow> (mem_error option \<times> ram) option" where
  "load_vx r file =
     (if length file < 16 then None
      else Some (
        let min_vma = le_word (take 8 file) :: u64;
            max_vma = le_word (take 8 (drop 8 file)) :: u64;
            content = drop 16 file;
            bin_size = of_nat (length content) :: u64;
            runtime_size = max_vma - min_vma
        in case ram_write (ram_clear r) min_vma content of
             (Some e, r1) \<Rightarrow> (Some e, r1)
           | (None, r1) \<Rightarrow>
               if runtime_size > bin_size
               then ram_write r1 (min_vma + bin_size) (replicate (unat (runtime_size - bin_size)) 0)
               else (None, r1)))"

definition hti :: "u8 \<Rightarrow> u32" where
  "hti c = (if c \<ge> 65 \<and> c \<le> 70 then ucast c - 65 + 10
            else if c \<ge> 97 \<and> c \<le> 102 then ucast c - 97 + 10
            else scast c - 48)"

text \<open>Reading past the end of the buffer is \<open>None\<close>.\<close>

definition hToI :: "u8 list \<Rightarrow> nat \<Rightarrow> u32 option" where
  "hToI c n = (if n \<le> length c
               then Some (sum_list (map (\<lambda>i. push_bit ((n - i - 1) * 4) (hti (c ! i))) [0..<n])) else None)"

fun hex_store :: "ram \<Rightarrow> u32 \<Rightarrow> u8 list \<Rightarrow> nat \<Rightarrow> (mem_error option \<times> ram) option" where
  "hex_store r addr c 0 = Some (None, r)"
| "hex_store r addr c (Suc n) =
     do {
       v \<leftarrow> hToI c 2;
       (case ram_get r (ucast addr) True of
          (Inl e, r1) \<Rightarrow> Some (Some e, r1)
        | (Inr p, r1) \<Rightarrow> hex_store (ptr_store r1 p (ucast v)) (addr + 1) (drop 2 c) n)
     }"

definition hex_record :: "ram \<Rightarrow> u32 \<Rightarrow> u8 list \<Rightarrow> (mem_error option \<times> ram \<times> u32) option" where
  "hex_record r offset line =
     do {
       c \<leftarrow> vec_get line 0;
       if c \<noteq> 58 then Some (None, r, offset)
       else do {
         byteCount \<leftarrow> hToI (drop 1 line) 2;
         base \<leftarrow> hToI (drop 3 line) 4;
         key \<leftarrow> hToI (drop 7 line) 2;
         (if key = 0 then
            do { (e, r1) \<leftarrow> hex_store r (base + offset) (drop 9 line) (unat byteCount); Some (e, r1, offset) }
          else if key = 2 then do { v \<leftarrow> hToI (drop 9 line) 4; Some (None, r, push_bit 4 v) }
          else if key = 4 then do { v \<leftarrow> hToI (drop 9 line) 4; Some (None, r, push_bit 16 v) }
          else Some (None, r, offset))
       }
     }"

text \<open>
  The loop over the lines.  \<open>size\<close> counts the characters from \<open>line\<close> to the end of the buffer, so it is
  the length of the rest; the search for the end of the line looks at the character before it looks at \<open>size\<close>.
\<close>

lemma dropWhile_shorter: "dropWhile P xs = c # d # rest \<Longrightarrow> length (d # rest) < length xs"
  using length_dropWhile_le[of P xs] by simp

function hex_lines :: "ram \<Rightarrow> u32 \<Rightarrow> u8 list \<Rightarrow> (mem_error option \<times> ram) option" where
  "hex_lines r offset line =
     (case hex_record r offset line of
        None \<Rightarrow> None
      | Some (Some e, r1, offset1) \<Rightarrow> Some (Some e, r1)
      | Some (None, r1, offset1) \<Rightarrow>
          (case dropWhile (\<lambda>c. c \<noteq> 10) line of
             [] \<Rightarrow> None
           | [c] \<Rightarrow> Some (None, r1)
           | c # d # rest \<Rightarrow> hex_lines r1 offset1 (d # rest)))"
  by pat_completeness auto

termination
  by (relation "measure (\<lambda>(r, offset, line). length line)") (auto dest!: dropWhile_shorter)

definition load_hex :: "ram \<Rightarrow> u8 list \<Rightarrow> (mem_error option \<times> ram) option" where
  "load_hex r file = hex_lines (ram_clear r) 0 file"

section \<open>The memory as a function\<close>

definition chunk_ok :: "nat \<Rightarrow> u8 list option list \<Rightarrow> bool" where
  "chunk_ok bits c \<longleftrightarrow> length c = CHUNK_SIZE \<and> (\<forall>pg. Some pg \<in> set c \<longrightarrow> length pg = 2 ^ bits)"

definition ram_ok :: "ram \<Rightarrow> bool" where
  "ram_ok r \<longleftrightarrow> page_bits r < 32 \<and> zero_page r = page_fill (2 ^ page_bits r)
     \<and> (\<forall>(k, c) \<in> set (chunks r). chunk_ok (page_bits r) c)
     \<and> (\<forall>p. last_chunk r = Some p \<longrightarrow> p = last_chunk_index r \<and> p \<in> fst ` set (chunks r))"

definition page_at :: "ram \<Rightarrow> u64 \<Rightarrow> nat \<Rightarrow> u8 list option" where
  "page_at r ci co = (case map_of (chunks r) ci of None \<Rightarrow> None | Some c \<Rightarrow> c ! co)"

definition ram_byte :: "ram \<Rightarrow> u64 \<Rightarrow> u8" where
  "ram_byte r a =
     (case page_at r (chunk_index r a) (unat (chunk_offset r a)) of
        None \<Rightarrow> sentinel (unat (page_offset r a))
      | Some pg \<Rightarrow> pg ! unat (page_offset r a))"

subsection \<open>Addresses\<close>

lemma page_size_value: "page_bits r < 32 \<Longrightarrow> unat (page_size_of r) = 2 ^ page_bits r"
  by (simp add: page_size_of_def word_push_bit_one unat_power2)

lemma bit_page_offset:
  "page_bits r < 32 \<Longrightarrow> bit (page_offset r a) n \<longleftrightarrow> n < page_bits r \<and> bit a n"
  by (auto simp: page_offset_def page_size_of_def word_push_bit_one bit_simps bit_mask_word dest: bit_imp_le_length)

lemma bit_chunk_offset: "bit (chunk_offset r a) n \<longleftrightarrow> n < 10 \<and> bit a (page_bits r + n)"
proof -
  have m: "(of_nat CHUNK_SIZE - 1 :: u64) = mask 10" by (simp add: CHUNK_SIZE_def CHUNK_BITS_def mask_eq_exp_minus_1)
  show ?thesis unfolding chunk_offset_def page_index_def m by (auto simp: bit_simps dest: bit_imp_le_length)
qed

lemma bit_chunk_index: "bit (chunk_index r a) n \<longleftrightarrow> bit a (page_bits r + (10 + n))"
  by (auto simp: chunk_index_def page_index_def bit_simps CHUNK_BITS_def ac_simps)

lemma bits_below:
  assumes "\<And>n. bit (x :: u32) n \<Longrightarrow> n < k" "k < 32"
  shows "unat x < 2 ^ k"
proof -
  have "take_bit k x = x" by (rule word_eq_by_bits) (use assms in \<open>auto simp: bit_simps\<close>)
  then have "unat (take_bit k x) = unat x" by simp
  then show ?thesis by (metis take_bit_nat_less_exp unsigned_take_bit_eq)
qed

lemma page_offset_bound: "page_bits r < 32 \<Longrightarrow> unat (page_offset r a) < 2 ^ page_bits r"
  by (rule bits_below) (simp_all add: bit_page_offset)

lemma chunk_offset_bound: "unat (chunk_offset r a) < CHUNK_SIZE"
  unfolding CHUNK_SIZE_def CHUNK_BITS_def by (rule bits_below) (simp_all add: bit_chunk_offset)

lemma address_parts:
  assumes "page_bits r < 32" "chunk_index r a = chunk_index r b" "chunk_offset r a = chunk_offset r b"
    "page_offset r a = page_offset r b"
  shows "a = b"
proof (rule word_eq_by_bits)
  fix n
  consider "n < page_bits r" | "page_bits r \<le> n" "n < page_bits r + 10" | "page_bits r + 10 \<le> n" by linarith
  then show "bit a n = bit b n"
  proof cases
    case 1
    then show ?thesis using assms(4) bit_page_offset[OF assms(1)] by metis
  next
    case 2
    then have "n - page_bits r < 10" "page_bits r + (n - page_bits r) = n" by linarith+
    then show ?thesis using assms(3) bit_chunk_offset[of r _ "n - page_bits r"] by metis
  next
    case 3
    then show ?thesis using assms(2) bit_chunk_index[of r a "n - page_bits r - 10"] bit_chunk_index[of r b "n - page_bits r - 10"] by simp
  qed
qed

lemma address_parts_cong:
  assumes "page_bits r' = page_bits r"
  shows "chunk_index r' = chunk_index r" "chunk_offset r' = chunk_offset r" "page_offset r' = page_offset r"
    "page_size_of r' = page_size_of r"
  by (simp_all add: fun_eq_iff assms chunk_index_def chunk_offset_def page_offset_def page_index_def page_size_of_def)

subsection \<open>The directory\<close>

lemma map_of_chunk_write: "map_of (chunk_write p g m) k = (if k = p then map_option g (map_of m k) else map_of m k)"
  by (induction m) auto

lemma fst_chunk_write [simp]: "fst ` set (chunk_write p g m) = fst ` set m"
proof (induction m)
  case (Cons x m)
  then show ?case by (cases x) simp
qed simp

lemma set_chunk_write: "(k, c) \<in> set (chunk_write p g m) \<Longrightarrow> (k, c) \<in> set m \<or> (\<exists>c'. (k, c') \<in> set m \<and> c = g c')"
proof (induction m)
  case (Cons x m)
  obtain k' c' where x: "x = (k', c')" by (cases x)
  show ?case
  proof (cases "k' = p")
    case True
    then show ?thesis using Cons.prems by (auto simp: x)
  next
    case False
    then show ?thesis using Cons by (auto simp: x)
  qed
qed simp

lemma chunk_write_ok:
  assumes "\<forall>(k, c) \<in> set m. chunk_ok b c" "\<And>c. chunk_ok b c \<Longrightarrow> chunk_ok b (g c)"
  shows "\<forall>(k, c) \<in> set (chunk_write p g m). chunk_ok b c"
  using assms set_chunk_write[of _ _ p g m] by blast

lemma chunk_update_ok:
  assumes "chunk_ok b c" "\<forall>pg. p = Some pg \<longrightarrow> length pg = 2 ^ b"
  shows "chunk_ok b (c[i := p])"
  using assms by (auto simp: chunk_ok_def dest!: set_update_subset_insert[THEN subsetD])

lemma chunk_fresh_ok: "chunk_ok b (replicate CHUNK_SIZE None)"
  by (simp add: chunk_ok_def)

lemma ram_ok_chunk: "ram_ok r \<Longrightarrow> map_of (chunks r) ci = Some c \<Longrightarrow> chunk_ok (page_bits r) c"
  by (auto simp: ram_ok_def dest: map_of_SomeD)

lemma page_at_length:
  assumes "ram_ok r" "page_at r ci co = Some pg" "co < CHUNK_SIZE"
  shows "length pg = 2 ^ page_bits r"
proof -
  obtain c where c: "map_of (chunks r) ci = Some c" "c ! co = Some pg"
    using assms(2) by (auto simp: page_at_def split: option.splits)
  have "chunk_ok (page_bits r) c" by (rule ram_ok_chunk[OF assms(1) c(1)])
  moreover have "Some pg \<in> set c" using c(2) assms(3) calculation by (metis chunk_ok_def nth_mem)
  ultimately show ?thesis by (simp add: chunk_ok_def)
qed

lemma map_of_key: "map_of m k = Some v \<Longrightarrow> k \<in> fst ` set m"
  by (metis map_of_eq_None_iff option.distinct(1))

text \<open>The parts of the state no access changes.\<close>

definition ram_frame :: "ram \<Rightarrow> ram \<Rightarrow> bool" where
  "ram_frame r r' \<longleftrightarrow> page_bits r' = page_bits r \<and> capacity r' = capacity r \<and> zero_page r' = zero_page r
     \<and> acl_mngr r' = acl_mngr r \<and> check_acl r' = check_acl r"

lemma ram_frame_refl [simp]: "ram_frame r r"
  by (simp add: ram_frame_def)

lemma ram_frame_trans: "ram_frame a b \<Longrightarrow> ram_frame b c \<Longrightarrow> ram_frame a c"
  by (simp add: ram_frame_def)

lemma find_chunk_None:
  assumes "ram_ok r" "find_chunk r ci al = (None, r')"
  shows "r' = r \<and> \<not> al \<and> map_of (chunks r) ci = None"
  using assms by (auto simp: find_chunk_def split: if_splits option.splits)

lemma find_chunk_Some:
  assumes "ram_ok r" "find_chunk r ci al = (Some p, r')"
  shows "p = ci" "ram_ok r'" "ram_frame r r'" "map_of (chunks r') ci \<noteq> None" "al \<or> chunks r' = chunks r"
    "\<And>ci co. co < CHUNK_SIZE \<Longrightarrow> page_at r' ci co = page_at r ci co"
proof -
  have key: "map_of (chunks r) ci \<noteq> None" if "last_chunk r = Some ci" using assms(1) that
    by (auto simp: ram_ok_def map_of_eq_None_iff)
  show "p = ci" "map_of (chunks r') ci \<noteq> None" "ram_frame r r'" "al \<or> chunks r' = chunks r"
    using assms key by (auto simp: find_chunk_def ram_frame_def ram_ok_def split: if_splits option.splits)
  show "ram_ok r'"
    using assms chunk_fresh_ok[of "page_bits r"] by (auto simp: find_chunk_def ram_ok_def intro: map_of_key split: if_splits option.splits)
  show "page_at r' ci' co = page_at r ci' co" if "co < CHUNK_SIZE" for ci' co
    using assms that by (auto simp: find_chunk_def page_at_def split: if_splits option.splits)
qed

subsection \<open>One byte\<close>

definition in_range :: "ram \<Rightarrow> u64 \<Rightarrow> bool" where
  "in_range r a \<longleftrightarrow> capacity r = 0 \<or> a < capacity r"

lemma in_range_frame: "ram_frame r r' \<Longrightarrow> in_range r' = in_range r"
  by (simp add: in_range_def ram_frame_def fun_eq_iff)

lemma ram_byte_frame:
  assumes "ram_frame r r'" "\<And>ci co. co < CHUNK_SIZE \<Longrightarrow> page_at r' ci co = page_at r ci co"
  shows "ram_byte r' = ram_byte r"
proof -
  have "page_bits r' = page_bits r" using assms(1) by (simp add: ram_frame_def)
  note cong = address_parts_cong[OF this]
  show ?thesis by (rule ext) (simp add: ram_byte_def cong assms(2) chunk_offset_bound split: option.split)
qed

lemma ram_get_out: "\<not> in_range r a \<Longrightarrow> ram_get r a al = (Inl OutOfRange, r)"
  by (auto simp: ram_get_def in_range_def)

lemma page_at_array: "map_of (chunks r) ci \<noteq> None \<Longrightarrow> chunk_array r ci ! co = page_at r ci co"
  by (auto simp: chunk_array_def page_at_def)

lemma zero_page_load:
  assumes "ram_ok r"
  shows "ptr_load r (Zero_Page (page_offset r a)) = sentinel (unat (page_offset r a))"
  using assms page_offset_bound[of r a] by (simp add: ram_ok_def page_fill_def)

lemma ram_get_load:
  assumes "ram_ok r" "in_range r a"
  obtains p r' where "ram_get r a False = (Inr p, r')" "ptr_load r' p = ram_byte r a" "ram_ok r'" "ram_frame r r'"
    "ram_byte r' = ram_byte r" "chunks r' = chunks r"
proof -
  let ?ci = "chunk_index r a" and ?co = "chunk_offset r a" and ?off = "page_offset r a"
  have get: "ram_get r a False = (case find_chunk r ?ci False of
      (None, r1) \<Rightarrow> (Inr (Zero_Page ?off), r1)
    | (Some p, r1) \<Rightarrow> (case chunk_array r1 p ! unat ?co of
          Some _ \<Rightarrow> (Inr (In_Page p ?co ?off), r1) | None \<Rightarrow> (Inr (Zero_Page ?off), r1)))"
    using assms(2) by (auto simp: ram_get_def in_range_def split: option.splits prod.splits)
  obtain q r1 where f: "find_chunk r ?ci False = (q, r1)" by (cases "find_chunk r ?ci False")
  show ?thesis
  proof (cases q)
    case None
    then have n: "r1 = r" "map_of (chunks r) ?ci = None" using find_chunk_None[OF assms(1)] f by auto
    show ?thesis
      by (rule that[of "Zero_Page ?off" r])
        (use None n zero_page_load[OF assms(1), of a] assms(1) f in \<open>auto simp: get ram_byte_def page_at_def\<close>)
  next
    case (Some p)
    note fc = find_chunk_Some[OF assms(1) f[unfolded Some]]
    have bits: "page_bits r1 = page_bits r" using fc(3) by (simp add: ram_frame_def)
    have byte: "ram_byte r1 = ram_byte r" by (rule ram_byte_frame[OF fc(3,6)])
    have pg: "chunk_array r1 p ! unat ?co = page_at r ?ci (unat ?co)"
      using page_at_array[OF fc(4)] fc(6) chunk_offset_bound fc(1) by metis
    show ?thesis
    proof (cases "page_at r ?ci (unat ?co)")
      case N: None
      have "ptr_load r1 (Zero_Page ?off) = ram_byte r a"
        using zero_page_load[OF fc(2), of a] N by (simp add: ram_byte_def address_parts_cong[OF bits])
      then show ?thesis
        by (intro that[of "Zero_Page ?off" r1]) (use N pg Some f fc byte in \<open>auto simp: get\<close>)
    next
      case (Some page)
      have "ptr_load r1 (In_Page p ?co ?off) = ram_byte r a" by (simp add: pg Some ram_byte_def)
      then show ?thesis
        by (intro that[of "In_Page p ?co ?off" r1]) (use Some pg f \<open>q = Some p\<close> fc byte in \<open>auto simp: get\<close>)
    qed
  qed
qed

lemma page_at_write:
  "page_at (r\<lparr>chunks := chunk_write p (\<lambda>c. c[co := g (c ! co)]) (chunks r)\<rparr>) ci i =
     (if ci = p \<and> i = co \<and> co < length (chunk_array r p) \<and> map_of (chunks r) p \<noteq> None
      then g (page_at r p co) else page_at r ci i)"
  by (auto simp: page_at_def map_of_chunk_write chunk_array_def nth_list_update list_update_beyond split: option.splits)

lemma chunk_store_ok:
  assumes "ram_ok r"
    "\<And>x. (\<forall>pg. x = Some pg \<longrightarrow> length pg = 2 ^ page_bits r) \<Longrightarrow> (\<forall>pg. g x = Some pg \<longrightarrow> length pg = 2 ^ page_bits r)"
  shows "ram_ok (r\<lparr>chunks := chunk_write p (\<lambda>c. c[co := g (c ! co)]) (chunks r)\<rparr>)"
proof -
  have "chunk_ok (page_bits r) (c[co := g (c ! co)])" if c: "chunk_ok (page_bits r) c" for c
  proof (cases "co < CHUNK_SIZE")
    case True
    then have "\<forall>pg. c ! co = Some pg \<longrightarrow> length pg = 2 ^ page_bits r"
      using c by (metis chunk_ok_def nth_mem)
    from chunk_update_ok[OF c assms(2)[OF this]] show ?thesis .
  next
    case False
    then show ?thesis using c by (simp add: chunk_ok_def list_update_beyond)
  qed
  then have "\<forall>(k, c) \<in> set (chunk_write p (\<lambda>c. c[co := g (c ! co)]) (chunks r)). chunk_ok (page_bits r) c"
    using assms(1) by (intro chunk_write_ok) (auto simp: ram_ok_def)
  then show ?thesis using assms(1) by (simp add: ram_ok_def)
qed

lemma ram_get_page:
  assumes "ram_ok r" "in_range r a"
  obtains r' pg where "ram_get r a True = (Inr (In_Page (chunk_index r a) (chunk_offset r a) (page_offset r a)), r')"
    "ram_ok r'" "ram_frame r r'" "ram_byte r' = ram_byte r"
    "page_at r' (chunk_index r a) (unat (chunk_offset r a)) = Some pg"
proof -
  let ?ci = "chunk_index r a" and ?co = "chunk_offset r a" and ?off = "page_offset r a"
  let ?fill = "page_fill (unat (page_size_of r))"
  have get: "ram_get r a True = (case find_chunk r ?ci True of
      (None, r1) \<Rightarrow> (Inr (Zero_Page ?off), r1)
    | (Some p, r1) \<Rightarrow> (case chunk_array r1 p ! unat ?co of
          Some _ \<Rightarrow> (Inr (In_Page p ?co ?off), r1)
        | None \<Rightarrow> (Inr (In_Page p ?co ?off), r1\<lparr>chunks := chunk_write p (\<lambda>c. c[unat ?co := Some ?fill]) (chunks r1)\<rparr>)))"
    using assms(2) by (auto simp: ram_get_def in_range_def Let_def split: option.splits prod.splits)
  obtain q r1 where f: "find_chunk r ?ci True = (q, r1)" by (cases "find_chunk r ?ci True")
  then obtain p where q: "q = Some p" using find_chunk_None[OF assms(1), of ?ci True] by (cases q) auto
  note fc = find_chunk_Some[OF assms(1) f[unfolded q]]
  have bits: "page_bits r1 = page_bits r" using fc(3) by (simp add: ram_frame_def)
  have byte: "ram_byte r1 = ram_byte r" by (rule ram_byte_frame[OF fc(3,6)])
  have pg: "chunk_array r1 p ! unat ?co = page_at r1 ?ci (unat ?co)"
    using page_at_array[OF fc(4)] fc(1) by metis
  show ?thesis
  proof (cases "page_at r1 ?ci (unat ?co)")
    case (Some page)
    then show ?thesis by (intro that[of r1 page]) (use pg f q fc byte in \<open>auto simp: get\<close>)
  next
    case None
    define r2 where "r2 = r1\<lparr>chunks := chunk_write p (\<lambda>c. c[unat ?co := Some ?fill]) (chunks r1)\<rparr>"
    have len: "length (chunk_array r1 p) = CHUNK_SIZE"
      using fc(1,4) ram_ok_chunk[OF fc(2)] by (auto simp: chunk_array_def chunk_ok_def)
    have at: "page_at r2 ci i = (if ci = ?ci \<and> i = unat ?co then Some ?fill else page_at r1 ci i)" for ci i
      using page_at_write[where r = r1 and p = p and co = "unat ?co" and g = "\<lambda>_. Some ?fill" and ci = ci and i = i] len chunk_offset_bound[of r a] fc(1,4)
      by (simp add: r2_def)
    have pb: "page_bits r < 32" using assms(1) by (simp add: ram_ok_def)
    have fr: "ram_frame r1 r2" by (simp add: r2_def ram_frame_def)
    have b2: "ram_byte r2 = ram_byte r1"
    proof
      fix x
      have "page_bits r2 = page_bits r" using bits by (simp add: r2_def)
      then have cong: "chunk_index r2 = chunk_index r1" "chunk_offset r2 = chunk_offset r1" "page_offset r2 = page_offset r1"
        "chunk_index r1 = chunk_index r" "chunk_offset r1 = chunk_offset r" "page_offset r1 = page_offset r"
        using address_parts_cong bits by metis+
      have "?fill ! unat (page_offset r x) = sentinel (unat (page_offset r x))"
        using page_offset_bound[OF pb, of x] by (simp add: page_fill_def page_size_value[OF pb])
      then show "ram_byte r2 x = ram_byte r1 x"
        using None by (simp add: ram_byte_def cong at unsigned_word_eqI split: option.split)
    qed
    have "ram_ok r2" unfolding r2_def
      by (rule chunk_store_ok[OF fc(2), where g = "\<lambda>_. Some ?fill"]) (simp add: page_fill_def page_size_value[OF pb] bits)
    moreover have "ram_get r a True = (Inr (In_Page ?ci ?co ?off), r2)"
      using pg None f q fc(1) by (simp add: get r2_def)
    ultimately show ?thesis
      using b2 byte fr fc(3) by (intro that[of r2 ?fill]) (auto simp: at intro: ram_frame_trans)
  qed
qed

lemma ptr_store_page:
  fixes v :: u8
  assumes "ram_ok r" "page_at r (chunk_index r a) (unat (chunk_offset r a)) = Some pg"
  defines "r' \<equiv> ptr_store r (In_Page (chunk_index r a) (chunk_offset r a) (page_offset r a)) v"
  shows "ram_ok r'" "ram_frame r r'" "ram_byte r' = (ram_byte r)(a := v)"
proof -
  let ?ci = "chunk_index r a" and ?co = "unat (chunk_offset r a)" and ?off = "unat (page_offset r a)"
  let ?g = "map_option (\<lambda>pg. pg[?off := v])"
  have r': "r' = r\<lparr>chunks := chunk_write ?ci (\<lambda>c. c[?co := ?g (c ! ?co)]) (chunks r)\<rparr>" by (simp add: r'_def)
  show "ram_ok r'" unfolding r' by (rule chunk_store_ok[OF assms(1)]) auto
  show fr: "ram_frame r r'" by (simp add: r' ram_frame_def)
  have pb: "page_bits r < 32" using assms(1) by (simp add: ram_ok_def)
  have key: "map_of (chunks r) ?ci \<noteq> None" using assms(2) by (auto simp: page_at_def split: option.splits)
  have len: "length (chunk_array r ?ci) = CHUNK_SIZE"
    using key ram_ok_chunk[OF assms(1)] by (auto simp: chunk_array_def chunk_ok_def)
  have at: "page_at r' ci i = (if ci = ?ci \<and> i = ?co then Some (pg[?off := v]) else page_at r ci i)" for ci i
    using page_at_write[where r = r and p = ?ci and co = ?co and g = ?g and ci = ci and i = i] len key chunk_offset_bound[of r a] assms(2) by (simp add: r')
  have pl: "length pg = 2 ^ page_bits r" by (rule page_at_length[OF assms(1,2) chunk_offset_bound])
  have cong: "chunk_index r' = chunk_index r" "chunk_offset r' = chunk_offset r" "page_offset r' = page_offset r"
    using address_parts_cong[of r' r] fr by (auto simp: ram_frame_def)
  show "ram_byte r' = (ram_byte r)(a := v)"
  proof
    fix x
    show "ram_byte r' x = ((ram_byte r)(a := v)) x"
    proof (cases "chunk_index r x = ?ci \<and> unat (chunk_offset r x) = ?co")
      case True
      have "x = a" if "unat (page_offset r x) = ?off"
        by (rule address_parts[OF pb]) (use True that in \<open>auto simp: unsigned_word_eqI\<close>)
      then have "unat (page_offset r x) = ?off \<longleftrightarrow> x = a" by blast
      then show ?thesis using True page_offset_bound[OF pb, of x] assms(2) pl
        by (auto simp: ram_byte_def cong at nth_list_update)
    next
      case False
      then have "x \<noteq> a" by blast
      then show ?thesis using False by (auto simp: ram_byte_def cong at split: option.split)
    qed
  qed
qed

lemma ram_get_store:
  assumes "ram_ok r" "in_range r a"
  obtains p r' where "ram_get r a True = (Inr p, r')" "ram_ok (ptr_store r' p v)" "ram_frame r (ptr_store r' p v)"
    "ram_byte (ptr_store r' p v) = (ram_byte r)(a := v)"
proof -
  obtain r' pg where g: "ram_get r a True = (Inr (In_Page (chunk_index r a) (chunk_offset r a) (page_offset r a)), r')"
    "ram_ok r'" "ram_frame r r'" "ram_byte r' = ram_byte r"
    "page_at r' (chunk_index r a) (unat (chunk_offset r a)) = Some pg" by (rule ram_get_page[OF assms])
  have "page_bits r' = page_bits r" using g(3) by (simp add: ram_frame_def)
  note cong = address_parts_cong[OF this]
  note st = ptr_store_page[OF g(2), where a = a and v = v and pg = pg, unfolded cong, OF g(5)]
  show ?thesis by (rule that[OF g(1) st(1) ram_frame_trans[OF g(3) st(2)]]) (simp only: st(3) g(4))
qed

subsection \<open>Ranges\<close>

definition range_ok :: "ram \<Rightarrow> u64 \<Rightarrow> nat \<Rightarrow> bool" where
  "range_ok r a n \<longleftrightarrow> capacity r = 0 \<or> unat a + n \<le> unat (capacity r)"

lemma range_ok_frame: "ram_frame r r' \<Longrightarrow> range_ok r' = range_ok r"
  by (simp add: range_ok_def ram_frame_def fun_eq_iff)

lemma range_ok_in_range:
  assumes "range_ok r a n" "i < n"
  shows "in_range r (a + of_nat i)"
proof (cases "capacity r = 0")
  case False
  then have "unat a + i < unat (capacity r)" using assms by (simp add: range_ok_def)
  moreover have "unat (capacity r) < 2 ^ 64" using unsigned_less[of "capacity r"] by simp
  ultimately have "unat (a + of_nat i) = unat a + i" by (simp add: unat_word_ariths unat_of_nat)
  then show ?thesis using \<open>unat a + i < unat (capacity r)\<close> by (simp add: in_range_def word_less_nat_alt)
qed (simp add: in_range_def)

lemma range_ok_Suc:
  assumes "range_ok r a (Suc n)"
  shows "in_range r a" "n \<noteq> 0 \<Longrightarrow> range_ok r (a + 1) n"
proof -
  show "in_range r a" using range_ok_in_range[OF assms, of 0] by simp
  assume n: "n \<noteq> 0"
  show "range_ok r (a + 1) n"
  proof (cases "capacity r = 0")
    case False
    then have "unat a + Suc n \<le> unat (capacity r)" using assms by (simp add: range_ok_def)
    moreover have "unat (capacity r) < 2 ^ 64" using unsigned_less[of "capacity r"] by simp
    ultimately have "unat (a + 1) = unat a + 1" using n by (simp add: unat_word_ariths)
    then show ?thesis using \<open>unat a + Suc n \<le> unat (capacity r)\<close> by (simp add: range_ok_def)
  qed (simp add: range_ok_def)
qed

lemma read_bytes_spec:
  assumes "ram_ok r" "range_ok r a n"
  shows "\<exists>r'. read_bytes r a n = (Inr (map (\<lambda>i. ram_byte r (a + of_nat i)) [0..<n]), r')
    \<and> ram_ok r' \<and> ram_frame r r' \<and> ram_byte r' = ram_byte r \<and> chunks r' = chunks r"
  using assms
proof (induction n arbitrary: r a)
  case (Suc n)
  obtain p r1 where g: "ram_get r a False = (Inr p, r1)" "ptr_load r1 p = ram_byte r a" "ram_ok r1" "ram_frame r r1"
    "ram_byte r1 = ram_byte r" "chunks r1 = chunks r"
    by (rule ram_get_load[OF Suc.prems(1) range_ok_Suc(1)[OF Suc.prems(2)]])
  have up: "map (\<lambda>i. ram_byte r (a + of_nat i)) [0..<Suc n] = ram_byte r a # map (\<lambda>i. ram_byte r (a + 1 + of_nat i)) [0..<n]"
    by (simp add: upt_conv_Cons map_Suc_upt[symmetric] comp_def ac_simps del: upt_Suc)
  show ?case
  proof (cases "n = 0")
    case True
    then show ?thesis using g by simp
  next
    case False
    then have "range_ok r1 (a + 1) n" using range_ok_Suc(2)[OF Suc.prems(2)] range_ok_frame[OF g(4)] by simp
    from Suc.IH[OF g(3) this] obtain r2 where
      "read_bytes r1 (a + 1) n = (Inr (map (\<lambda>i. ram_byte r (a + 1 + of_nat i)) [0..<n]), r2)"
      "ram_ok r2" "ram_frame r1 r2" "ram_byte r2 = ram_byte r" "chunks r2 = chunks r" using g(5,6) by auto
    then show ?thesis using g(1,2) ram_frame_trans[OF g(4)] unfolding up by (intro exI[of _ r2]) simp
  qed
qed simp

text \<open>The function after the bytes of a list are stored from an address on.\<close>

fun put_bytes :: "(u64 \<Rightarrow> u8) \<Rightarrow> u64 \<Rightarrow> u8 list \<Rightarrow> u64 \<Rightarrow> u8" where
  "put_bytes m a [] = m"
| "put_bytes m a (v # vs) = put_bytes (m(a := v)) (a + 1) vs"

lemma put_bytes_append: "put_bytes m a (xs @ ys) = put_bytes (put_bytes m a xs) (a + of_nat (length xs)) ys"
  by (induction xs arbitrary: m a) (simp_all add: ac_simps)

lemma put_bytes_at:
  assumes "length vs \<le> 2 ^ 64"
  shows "put_bytes m a vs x = (if unat (x - a) < length vs then vs ! unat (x - a) else m x)"
  using assms
proof (induction vs rule: rev_induct)
  case (snoc v vs)
  have "unat (of_nat (length vs) :: u64) = length vs" using snoc.prems by (simp add: unat_of_nat)
  then have "x = a + of_nat (length vs) \<longleftrightarrow> unat (x - a) = length vs"
    by (metis add_diff_cancel_left' diff_add_cancel add.commute unsigned_word_eqI)
  then show ?case using snoc by (auto simp: put_bytes_append nth_append)
qed simp

lemma write_bytes_spec:
  assumes "ram_ok r" "range_ok r a (length vs)"
  shows "\<exists>r'. write_bytes r a vs = (None, r') \<and> ram_ok r' \<and> ram_frame r r' \<and> ram_byte r' = put_bytes (ram_byte r) a vs"
  using assms
proof (induction vs arbitrary: r a)
  case (Cons v vs)
  have rg: "range_ok r a (Suc (length vs))" using Cons.prems(2) by simp
  obtain p r1 where g: "ram_get r a True = (Inr p, r1)" "ram_ok (ptr_store r1 p v)" "ram_frame r (ptr_store r1 p v)"
    "ram_byte (ptr_store r1 p v) = (ram_byte r)(a := v)"
    by (rule ram_get_store[OF Cons.prems(1) range_ok_Suc(1)[OF rg]])
  show ?case
  proof (cases "vs = []")
    case True
    then show ?thesis using g by (simp add: fun_upd_def)
  next
    case False
    then have "range_ok (ptr_store r1 p v) (a + 1) (length vs)"
      using range_ok_Suc(2)[OF rg] range_ok_frame[OF g(3)] by simp
    from Cons.IH[OF g(2) this] show ?thesis using g(1,4) ram_frame_trans[OF g(3)] by (auto simp: fun_upd_def)
  qed
qed simp

lemma write_bytes_append:
  "write_bytes r a (xs @ ys) =
     (case write_bytes r a xs of (Some e, r1) \<Rightarrow> (Some e, r1) | (None, r1) \<Rightarrow> write_bytes r1 (a + of_nat (length xs)) ys)"
  by (induction xs arbitrary: r a) (auto simp: ac_simps split: prod.splits sum.splits option.splits)

lemma copy_byte_spec:
  assumes "ram_ok r" "in_range r s" "in_range r d"
  obtains r' where "copy_byte r d s = (None, r')" "ram_ok r'" "ram_frame r r'" "ram_byte r' = (ram_byte r)(d := ram_byte r s)"
proof -
  obtain p r1 where g: "ram_get r s False = (Inr p, r1)" "ptr_load r1 p = ram_byte r s" "ram_ok r1" "ram_frame r r1"
    "ram_byte r1 = ram_byte r" "chunks r1 = chunks r" by (rule ram_get_load[OF assms(1,2)])
  have "in_range r1 d" using assms(3) in_range_frame[OF g(4)] by simp
  then obtain q r2 where h: "ram_get r1 d True = (Inr q, r2)" "ram_ok (ptr_store r2 q (ram_byte r s))"
    "ram_frame r1 (ptr_store r2 q (ram_byte r s))"
    "ram_byte (ptr_store r2 q (ram_byte r s)) = (ram_byte r1)(d := ram_byte r s)" by (rule ram_get_store[OF g(3)])
  show ?thesis
    by (rule that[of "ptr_store r2 q (ram_byte r s)"]) (use g h in \<open>auto simp: copy_byte_def intro: ram_frame_trans\<close>)
qed

definition move_bytes :: "(u64 \<Rightarrow> u8) \<Rightarrow> u64 \<Rightarrow> u64 \<Rightarrow> nat \<Rightarrow> u64 \<Rightarrow> u8" where
  "move_bytes m d s n x = (if unat (x - d) < n then m (s + (x - d)) else m x)"

lemma u64_offset:
  assumes "n < 2 ^ 64"
  shows "unat (x - a :: u64) = n \<longleftrightarrow> x = a + of_nat n"
proof
  assume "unat (x - a) = n"
  then have "x - a = of_nat n" using word_unat_eq_iff[of "x - a" "of_nat n"] assms by (simp add: unat_of_nat)
  then show "x = a + of_nat n" by (simp add: algebra_simps)
qed (use assms in \<open>simp add: unat_of_nat\<close>)

lemma unat_pred:
  assumes "x \<noteq> (a :: u64)"
  shows "unat (x - (a + 1)) = unat (x - a) - 1"
proof -
  have "x - a \<noteq> 0" using assms by simp
  from unat_minus_one[OF this] show ?thesis by (simp add: algebra_simps)
qed

lemma move_bytes_up:
  assumes "\<And>k. 0 < k \<Longrightarrow> k < Suc n \<Longrightarrow> (s - d) + of_nat k \<noteq> 0" "Suc n \<le> 2 ^ 64"
  shows "move_bytes (m(d := m s)) (d + 1) (s + 1) n = move_bytes m d s (Suc n)"
proof
  fix x
  show "move_bytes (m(d := m s)) (d + 1) (s + 1) n x = move_bytes m d s (Suc n) x"
  proof (cases "x = d")
    case True
    have "unat (x - (d + 1)) = 2 ^ 64 - 1" unfolding True by (simp add: unsigned_minus_1_eq_mask mask_eq_exp_minus_1)
    then show ?thesis using True assms(2) by (simp add: move_bytes_def)
  next
    case False
    have u: "unat (x - (d + 1)) = unat (x - d) - 1" "0 < unat (x - d)" using unat_pred[OF False] False by (auto simp: unat_gt_0)
    have "s + (x - d) \<noteq> d" if "unat (x - d) < Suc n"
    proof
      assume "s + (x - d) = d"
      then have "(s - d) + of_nat (unat (x - d)) = 0" by (simp add: algebra_simps)
      then show False using assms(1)[OF u(2) that] by blast
    qed
    then show ?thesis using u False by (auto simp: move_bytes_def algebra_simps)
  qed
qed

lemma move_bytes_down:
  assumes "\<And>k. 0 < k \<Longrightarrow> k < Suc n \<Longrightarrow> (d - s) + of_nat k \<noteq> 0" "Suc n \<le> 2 ^ 64"
  shows "move_bytes (m(d + of_nat n := m (s + of_nat n))) d s n = move_bytes m d s (Suc n)"
proof
  fix x
  have top: "unat (x - d) = n \<longleftrightarrow> x = d + of_nat n" by (rule u64_offset) (use assms(2) in simp)
  have "s + (x - d) \<noteq> d + of_nat n" if "unat (x - d) < n"
  proof
    assume "s + (x - d) = d + of_nat n"
    moreover have "(of_nat n :: u64) = of_nat (n - unat (x - d)) + (x - d)" using that by (simp add: of_nat_diff)
    ultimately have "(d - s) + of_nat (n - unat (x - d)) = 0" by (simp add: algebra_simps)
    moreover have "0 < n - unat (x - d)" "n - unat (x - d) < Suc n" using that by linarith+
    ultimately show False using assms(1) by blast
  qed
  then show "move_bytes (m(d + of_nat n := m (s + of_nat n))) d s n x = move_bytes m d s (Suc n) x"
    using top by (auto simp: move_bytes_def less_Suc_eq)
qed

lemma move_bytes_0: "move_bytes m d s 0 = m"
  by (simp add: move_bytes_def fun_eq_iff)

lemma copy_up_spec:
  assumes "ram_ok r" "range_ok r s n" "range_ok r d n" "n \<le> 2 ^ 64" "\<And>k. 0 < k \<Longrightarrow> k < n \<Longrightarrow> (s - d) + of_nat k \<noteq> 0"
  shows "\<exists>r'. copy_up r d s n = (None, r') \<and> ram_ok r' \<and> ram_frame r r' \<and> ram_byte r' = move_bytes (ram_byte r) d s n"
  using assms
proof (induction n arbitrary: r d s)
  case (Suc n)
  obtain r1 where g: "copy_byte r d s = (None, r1)" "ram_ok r1" "ram_frame r r1" "ram_byte r1 = (ram_byte r)(d := ram_byte r s)"
    by (rule copy_byte_spec[OF Suc.prems(1) range_ok_Suc(1)[OF Suc.prems(2)] range_ok_Suc(1)[OF Suc.prems(3)]])
  have mv: "move_bytes (ram_byte r1) (d + 1) (s + 1) n = move_bytes (ram_byte r) d s (Suc n)"
    unfolding g(4) by (rule move_bytes_up[OF Suc.prems(5,4)])
  show ?case
  proof (cases "n = 0")
    case True
    then show ?thesis using g mv by (simp add: move_bytes_0)
  next
    case False
    have rg: "range_ok r1 (s + 1) n" "range_ok r1 (d + 1) n"
      using range_ok_Suc(2) Suc.prems(2,3) False range_ok_frame[OF g(3)] by auto
    have "(s + 1 - (d + 1)) + of_nat k \<noteq> 0" if "0 < k" "k < n" for k
      using Suc.prems(5)[OF that(1) less_SucI[OF that(2)]] by simp
    from Suc.IH[OF g(2) rg Suc_leD[OF Suc.prems(4)] this] obtain r' where "copy_up r1 (d + 1) (s + 1) n = (None, r')" "ram_ok r'" "ram_frame r1 r'"
      "ram_byte r' = move_bytes (ram_byte r1) (d + 1) (s + 1) n" by blast
    then show ?thesis using g(1) mv ram_frame_trans[OF g(3)] by simp
  qed
qed (simp add: move_bytes_0)

lemma copy_down_spec:
  assumes "ram_ok r" "range_ok r s n" "range_ok r d n" "n \<le> 2 ^ 64" "\<And>k. 0 < k \<Longrightarrow> k < n \<Longrightarrow> (d - s) + of_nat k \<noteq> 0"
  shows "\<exists>r'. copy_down r d s n = (None, r') \<and> ram_ok r' \<and> ram_frame r r' \<and> ram_byte r' = move_bytes (ram_byte r) d s n"
  using assms
proof (induction n arbitrary: r)
  case (Suc n)
  obtain r1 where g: "copy_byte r (d + of_nat n) (s + of_nat n) = (None, r1)" "ram_ok r1" "ram_frame r r1"
      "ram_byte r1 = (ram_byte r)(d + of_nat n := ram_byte r (s + of_nat n))"
    by (rule copy_byte_spec[OF Suc.prems(1) range_ok_in_range[OF Suc.prems(2) lessI] range_ok_in_range[OF Suc.prems(3) lessI]])
  have mv: "move_bytes (ram_byte r1) d s n = move_bytes (ram_byte r) d s (Suc n)"
    unfolding g(4) by (rule move_bytes_down[OF Suc.prems(5,4)])
  have rg: "range_ok r1 s n" "range_ok r1 d n"
    using Suc.prems(2,3) range_ok_frame[OF g(3)] by (auto simp: range_ok_def)
  from Suc.IH[OF g(2) rg Suc_leD[OF Suc.prems(4)] Suc.prems(5)[OF _ less_SucI]]
  obtain r' where "copy_down r1 d s n = (None, r')" "ram_ok r'" "ram_frame r1 r'"
    "ram_byte r' = move_bytes (ram_byte r1) d s n" by blast
  then show ?case using g(1) mv ram_frame_trans[OF g(3)] by simp
qed (simp add: move_bytes_0)

lemma no_wrap_gap:
  assumes "a < (b :: u64)" "unat b + n \<le> 2 ^ 64" "0 < k" "k < n"
  shows "(b - a) + of_nat k \<noteq> 0"
proof -
  have "unat (b - a) = unat b - unat a" using assms(1) by (intro unat_sub) simp
  then have "unat (b - a) + k < 2 ^ 64" using assms by linarith
  moreover have "k < 2 ^ 64" using assms by linarith
  ultimately have "unat ((b - a) + of_nat k) = unat (b - a) + k" by (simp add: unat_word_ariths unat_of_nat)
  then show ?thesis using assms(3) by auto
qed

lemma ram_copy_spec:
  assumes "ram_ok r" "check_acl r = False" "range_ok r s (unat n)" "range_ok r d (unat n)"
    "unat s + unat n \<le> 2 ^ 64" "unat d + unat n \<le> 2 ^ 64"
  shows "\<exists>r'. ram_copy r d s n = (None, r') \<and> ram_ok r' \<and> ram_frame r r' \<and> ram_byte r' = move_bytes (ram_byte r) d s (unat n)"
proof -
  have n: "unat n \<le> 2 ^ 64" using u64_bound[of n] by simp
  consider "s < d" | "d < s" | "d = s" by force
  then show ?thesis
  proof cases
    case 1
    then show ?thesis using copy_down_spec[OF assms(1,3,4) n no_wrap_gap[OF 1 assms(6)]] assms(2) by (simp add: ram_copy_def)
  next
    case 2
    then have "\<not> s < d" by order
    then show ?thesis using copy_up_spec[OF assms(1,3,4) n no_wrap_gap[OF 2 assms(5)]] assms(2) 2 by (simp add: ram_copy_def)
  next
    case 3
    then show ?thesis using assms by (simp add: ram_copy_def move_bytes_def fun_eq_iff)
  qed
qed

lemma ram_read_spec:
  assumes "ram_ok r" "range_ok r a (unat n)" "check_acl r \<longrightarrow> acl_check (acl_mngr r) a n 1"
  shows "\<exists>r'. ram_read r a n = (Inr (map (\<lambda>i. ram_byte r (a + of_nat i)) [0..<unat n]), r')
    \<and> ram_ok r' \<and> ram_frame r r' \<and> ram_byte r' = ram_byte r \<and> chunks r' = chunks r"
  using read_bytes_spec[OF assms(1,2)] assms(3) by (auto simp: ram_read_def)

lemma ram_write_spec:
  assumes "ram_ok r" "range_ok r a (length data)" "check_acl r \<longrightarrow> acl_check (acl_mngr r) a (of_nat (length data)) 2"
  shows "\<exists>r'. ram_write r a data = (None, r') \<and> ram_ok r' \<and> ram_frame r r' \<and> ram_byte r' = put_bytes (ram_byte r) a data"
  using write_bytes_spec[OF assms(1,2)] assms(3) by (auto simp: ram_write_def)

lemma ispow2_power:
  fixes x :: "'a::len word"
  assumes "ispow2 x"
  obtains k where "k < LENGTH('a)" "x = 2 ^ k"
proof -
  have nz: "x \<noteq> 0" and an: "x AND (x - 1) = 0" using assms by (simp_all add: ispow2_def)
  obtain k where k: "is_top_bit x k" using nz by (rule ex_top_bit)
  have b: "2 ^ k \<le> unat x" "unat x < 2 ^ Suc k" using top_bit_bounds[OF k] by auto
  have "unat x = 2 ^ k"
  proof (rule ccontr)
    assume "unat x \<noteq> 2 ^ k"
    then have "2 ^ k \<le> unat (x - 1)" "unat (x - 1) < 2 ^ Suc k" using b unat_minus_one[OF nz] by linarith+
    then have "unat (x - 1) div 2 ^ k = 1" by (intro div_nat_eqI) simp_all
    then have "bit (unat (x - 1)) k" by (simp add: bit_iff_odd)
    then have "bit (x - 1) k" by (simp add: bit_unsigned_iff)
    then have "bit (x AND (x - 1)) k" using k by (simp add: is_top_bit_def bit_and_iff)
    then show False by (simp add: an)
  qed
  moreover have "k < LENGTH('a)" by (rule is_top_bit_less[OF k])
  ultimately have "x = 2 ^ k" by (simp add: word_unat_eq_iff unat_power2)
  then show ?thesis using that \<open>k < LENGTH('a)\<close> by blast
qed

lemma ram_new_ok:
  assumes "ram_new cap ps = Some r"
  shows "ram_ok r" "ram_byte r a = sentinel (unat (page_offset r a))" "capacity r = cap" "check_acl r = False"
proof -
  have p: "ispow2 ps" and r: "r = \<lparr>capacity = cap, page_bits = log2ceil ps, chunks = [], last_chunk = None,
    last_chunk_index = 0, zero_page = page_fill (unat ps), acl_mngr = [], check_acl = False\<rparr>"
    using assms by (auto simp: ram_new_def split: if_splits)
  obtain k where k: "k < 32" "ps = 2 ^ k" using ispow2_power[OF p] by auto
  then have u: "unat ps = 2 ^ k" by (simp add: unat_power2)
  then have nz: "ps \<noteq> 0" by auto
  have "log2ceil ps = k"
    using log2ceil_least[OF nz, of k] log2ceil_bounds(1)[OF nz] u by (simp add: order.antisym)
  with k u have k: "k < 32" "unat ps = 2 ^ k" "log2ceil ps = k" by auto
  then show "ram_ok r" using k by (simp add: r ram_ok_def)
  show "ram_byte r a = sentinel (unat (page_offset r a))" by (simp add: ram_byte_def page_at_def r)
  show "capacity r = cap" "check_acl r = False" by (simp_all add: r)
qed

section \<open>Properties\<close>

text \<open>
  C31. A read after a write returns what was written.  On a well-formed memory, a permitted write inside
  the capacity succeeds, keeps the memory well formed and changes exactly the bytes of its range,
  whichever pages and chunks it has to create and whatever the chunk cache holds; a permitted read of
  the range then returns the data.
\<close>

theorem ram_read_after_write:
  assumes "ram_ok r" "length data < 2 ^ 64" "range_ok r a (length data)"
    "check_acl r \<longrightarrow> acl_check (acl_mngr r) a (of_nat (length data)) 2 \<and> acl_check (acl_mngr r) a (of_nat (length data)) 1"
  shows "\<exists>r'. ram_write r a data = (None, r') \<and> ram_ok r'
    \<and> (\<forall>x. ram_byte r' x = (if unat (x - a) < length data then data ! unat (x - a) else ram_byte r x))
    \<and> fst (ram_read r' a (of_nat (length data))) = Inr data"
proof -
  obtain r' where w: "ram_write r a data = (None, r')" "ram_ok r'" "ram_frame r r'" "ram_byte r' = put_bytes (ram_byte r) a data"
    using ram_write_spec[OF assms(1,3)] assms(4) by auto
  have at: "ram_byte r' x = (if unat (x - a) < length data then data ! unat (x - a) else ram_byte r x)" for x
    unfolding w(4) by (rule put_bytes_at) (use assms(2) in simp)
  have len: "unat (of_nat (length data) :: u64) = length data" using assms(2) by (simp add: unat_of_nat)
  have "range_ok r' a (length data)" using assms(3) range_ok_frame[OF w(3)] by simp
  moreover have "check_acl r' \<longrightarrow> acl_check (acl_mngr r') a (of_nat (length data)) 1"
    using assms(4) w(3) by (simp add: ram_frame_def)
  ultimately obtain r2 where "ram_read r' a (of_nat (length data)) = (Inr (map (\<lambda>i. ram_byte r' (a + of_nat i)) [0..<length data]), r2)"
    using ram_read_spec[OF w(2), where a = a and n = "of_nat (length data)", unfolded len] by auto
  then have "fst (ram_read r' a (of_nat (length data))) = Inr (map (\<lambda>i. ram_byte r' (a + of_nat i)) [0..<length data])" by simp
  moreover have "ram_byte r' (a + of_nat i) = data ! i" if "i < length data" for i
    using that assms(2) by (simp add: at unat_of_nat)
  then have "map (\<lambda>i. ram_byte r' (a + of_nat i)) [0..<length data] = data" by (intro nth_equalityI) auto
  ultimately have "fst (ram_read r' a (of_nat (length data))) = Inr data" by (simp only:)
  then show ?thesis using w(1,2) at by blast
qed


theorem ram_read_after_write_witness:
  "\<exists>r r'. ram_new 0 4096 = Some r \<and> ram_write r 0xFFE [1, 2, 3, 4] = (None, r')
     \<and> fst (ram_read r' 0xFFE 4) = Inr [1, 2, 3, 4]"
proof -
  have p: "ispow2 (4096 :: u32)" by code_simp
  then obtain r where r: "ram_new 0 4096 = Some r" by (simp add: ram_new_def)
  note ok = ram_new_ok[OF r]
  have "range_ok r 0xFFE (length [1, 2, 3, 4 :: u8])" using ok(3) by (simp add: range_ok_def)
  from ram_read_after_write[OF ok(1) _ this] ok(4) show ?thesis using r by auto
qed

text \<open>
  C32. \<open>RAM::copy\<close> moves bytes as \<open>memmove\<close> does.  For ranges inside the capacity that do not wrap around,
  every byte of the destination becomes the byte the source had before the copy, also where the ranges
  overlap in either direction, and no other byte changes.
\<close>

theorem ram_copy_is_memmove:
  assumes "ram_ok r" "\<not> check_acl r" "range_ok r s (unat n)" "range_ok r d (unat n)"
    "unat s + unat n \<le> 2 ^ 64" "unat d + unat n \<le> 2 ^ 64"
  shows "\<exists>r'. ram_copy r d s n = (None, r') \<and> ram_ok r'
    \<and> (\<forall>x. ram_byte r' x = (if unat (x - d) < unat n then ram_byte r (s + (x - d)) else ram_byte r x))"
  using ram_copy_spec[OF assms(1) _ assms(3-6)] assms(2) by (auto simp: move_bytes_def)

theorem ram_copy_is_memmove_witness:
  "\<exists>r r'. ram_ok r \<and> ram_copy r 0x1001 0x1000 0x800 = (None, r') \<and> ram_byte r' 0x1002 = ram_byte r 0x1001"
proof -
  have p: "ispow2 (4096 :: u32)" by code_simp
  then obtain r where r: "ram_new 0 4096 = Some r" by (simp add: ram_new_def)
  note ok = ram_new_ok[OF r]
  have "range_ok r 0x1000 (unat (0x800 :: u64))" "range_ok r 0x1001 (unat (0x800 :: u64))" using ok(3) by (simp_all add: range_ok_def)
  from ram_copy_is_memmove[OF ok(1) _ this] ok(4) obtain r' where "ram_copy r 0x1001 0x1000 0x800 = (None, r')"
    "\<forall>x. ram_byte r' x = (if unat (x - 0x1001) < unat (0x800 :: u64) then ram_byte r (0x1000 + (x - 0x1001)) else ram_byte r x)"
    by auto
  then show ?thesis using ok(1) by (intro exI[of _ r] exI[of _ r']) simp
qed

text \<open>
  C35. A write that leaves the capacity raises \<open>OutOfRange\<close>, but only after the bytes below the capacity
  have been stored: the exception is not atomic.
\<close>

theorem ram_write_partial:
  assumes "ram_ok r" "\<not> check_acl r" "capacity r \<noteq> 0" "a \<le> capacity r"
    "unat (capacity r) < unat a + length data"
  shows "\<exists>r'. ram_write r a data = (Some OutOfRange, r') \<and> ram_ok r'
    \<and> (\<forall>x. ram_byte r' x = (if a \<le> x \<and> x < capacity r then data ! unat (x - a) else ram_byte r x))"
proof -
  define k where "k = unat (capacity r) - unat a"
  have ak: "unat a + k = unat (capacity r)" using assms(4) by (simp add: k_def word_le_nat_alt)
  have kd: "k < length data" using ak assms(5) by linarith
  have k64: "k < 2 ^ 64" using u64_bound[of "capacity r"] ak by simp
  have "range_ok r a (length (take k data))" using ak kd by (simp add: range_ok_def)
  then obtain r1 where w: "write_bytes r a (take k data) = (None, r1)" "ram_ok r1" "ram_frame r r1"
    "ram_byte r1 = put_bytes (ram_byte r) a (take k data)" using write_bytes_spec[OF assms(1)] by blast
  have cap: "a + of_nat k = capacity r"
    using ak k64 u64_bound[of "capacity r"] by (simp add: word_unat_eq_iff unat_word_ariths unat_of_nat)
  have "\<not> in_range r1 (capacity r)" using w(3) assms(3) by (simp add: in_range_def ram_frame_def)
  then have "write_bytes r1 (capacity r) (drop k data) = (Some OutOfRange, r1)"
    using kd by (cases "drop k data") (auto simp: ram_get_out)
  then have "ram_write r a data = (Some OutOfRange, r1)"
    using write_bytes_append[of r a "take k data" "drop k data"] w(1) kd assms(2) cap by (simp add: ram_write_def)
  moreover have "ram_byte r1 x = (if a \<le> x \<and> x < capacity r then data ! unat (x - a) else ram_byte r x)" for x
  proof -
    have "unat (x - a) < k \<longleftrightarrow> a \<le> x \<and> x < capacity r"
    proof (cases "a \<le> x")
      case True
      then show ?thesis using ak unat_sub[OF True] by (auto simp: word_less_nat_alt word_le_nat_alt)
    next
      case False
      then have "unat (x - a) = 2 ^ 64 - (unat a - unat x)"
        using u64_bound[of a] by (simp add: unat_sub_if' word_le_nat_alt)
      then show ?thesis using False ak u64_bound[of "capacity r"] by auto
    qed
    then show ?thesis using kd k64 by (simp add: w(4) put_bytes_at)
  qed
  ultimately show ?thesis using w(2) by blast
qed


theorem ram_write_partial_witness:
  "\<exists>r r'. ram_new 4096 4096 = Some r \<and> ram_write r 4095 [7, 8] = (Some OutOfRange, r') \<and> ram_byte r' 4095 = 7"
proof -
  have "ispow2 (4096 :: u32)" "ispow2 (4096 :: u64)" by code_simp+
  then obtain r where r: "ram_new 4096 4096 = Some r" by (simp add: ram_new_def)
  note ok = ram_new_ok[OF r]
  have "capacity r \<noteq> 0" "4095 \<le> capacity r" "unat (capacity r) < unat (4095 :: u64) + length [7, 8 :: u8]"
    using ok(3) by simp_all
  from ram_write_partial[OF ok(1) _ this] ok(3,4) show ?thesis using r by fastforce
qed

lemma ram_get_errors: "ram_get r a w = (Inl e, r1) \<Longrightarrow> e = OutOfRange"
  by (auto simp: ram_get_def Let_def split: if_splits option.splits prod.splits)

lemma write_bytes_errors: "fst (write_bytes r a vs) \<noteq> Some BadAddress"
  by (induction vs arbitrary: r a) (auto split: prod.splits sum.splits dest: ram_get_errors)

lemma read_bytes_errors: "fst (read_bytes r a n) \<noteq> Inl BadAddress"
proof -
  have "read_bytes r a n \<noteq> (Inl BadAddress, r1)" for r1
    by (induction n arbitrary: r a r1) (auto split: prod.splits sum.splits dest: ram_get_errors)
  then show ?thesis by (metis prod.collapse)
qed

text \<open>
  C33. Access control holds.  After \<open>set_acl\<close> gave a range flags other than 0 without the write bit, every write
  that overlaps the range raises \<open>BadAddress\<close> and leaves the memory as it was, and likewise for reads without the
  read bit.  Flags 0 do not forbid accesses: they remove the range from access control, and a write or read
  inside it no longer raises \<open>BadAddress\<close>.
\<close>

theorem ram_protects_range:
  assumes "acl_ok (acl_mngr r)" "check_acl r" "ram_set_acl r a n flags = (None, r1)" "a < a + n" "n \<noteq> 0"
    "b < b + of_nat (length data)" "b < b + m" "a < b + of_nat (length data)" "a < b + m" "b < a + n"
  shows "(flags \<noteq> 0 \<and> flags AND 2 \<noteq> 2 \<longrightarrow> ram_write r1 b data = (Some BadAddress, r1))
    \<and> (flags \<noteq> 0 \<and> flags AND 1 \<noteq> 1 \<longrightarrow> ram_read r1 b m = (Inl BadAddress, r1))
    \<and> (flags = 0 \<and> a \<le> b \<and> b + of_nat (length data) \<le> a + n \<longrightarrow> fst (ram_write r1 b data) \<noteq> Some BadAddress)
    \<and> (flags = 0 \<and> a \<le> b \<and> b + m \<le> a + n \<longrightarrow> fst (ram_read r1 b m) \<noteq> Inl BadAddress)"
proof -
  have acl: "acl_mngr r1 = acl_set (acl_mngr r) a n flags" "check_acl r1"
    using assms(2,3) by (auto simp: ram_set_acl_def split: if_splits)
  have ok: "acl_ok (acl_mngr r1)" unfolding acl by (rule acl_set_covers(1)[OF assms(1,4,5)])
  have at: "acl_at (acl_mngr r1) x = Some f \<longleftrightarrow> flags = f \<and> f \<noteq> 0" if "a \<le> x" "x < a + n" for x f
    using acl_at_iff[OF ok] acl_set_covers(2)[OF assms(1,4,5)] that acl(1) by simp
  have deny: "\<not> acl_check (acl_mngr r1) b k g" if "b < b + k" "a < b + k" "flags \<noteq> 0" "flags AND g \<noteq> g" for k g
  proof -
    have "b \<le> max a b" "max a b < b + k" "a \<le> max a b" "max a b < a + n" using that assms(4,10) by auto
    then show ?thesis using acl_check_iff[OF ok that(1)] at[of "max a b"] that(3,4) by blast
  qed
  have allow: "acl_check (acl_mngr r1) b k g" if "b < b + k" "flags = 0" "a \<le> b" "b + k \<le> a + n" for k g
  proof -
    have "acl_at (acl_mngr r1) x \<noteq> Some f" if "b \<le> x" "x < b + k" for x f
      using at[of x f] that \<open>flags = 0\<close> \<open>a \<le> b\<close> \<open>b + k \<le> a + n\<close> by auto
    then show ?thesis using acl_check_iff[OF ok that(1)] by blast
  qed
  show ?thesis using deny[OF assms(6,8)] deny[OF assms(7,9)] allow[OF assms(6)] allow[OF assms(7)] acl(2)
    by (simp add: ram_write_def ram_read_def write_bytes_errors read_bytes_errors)
qed

theorem ram_protects_range_witness:
  "\<exists>r r1. ram_set_acl r 0x1000 0x1000 1 = (None, r1) \<and> ram_write r1 0xFFF [1, 2] = (Some BadAddress, r1)"
proof -
  have p: "ispow2 (4096 :: u32)" by code_simp
  then obtain r0 where r0: "ram_new 0 4096 = Some r0" by (simp add: ram_new_def)
  define r where "r = ram_enable_acl r0 True"
  have r: "acl_ok (acl_mngr r)" "check_acl r" "capacity r = 0" using r0 by (auto simp: r_def ram_enable_acl_def ram_new_def split: if_splits)
  obtain r1 where r1: "ram_set_acl r 0x1000 0x1000 1 = (None, r1)" using r(3) by (simp add: ram_set_acl_def)
  have "ram_write r1 0xFFF [1, 2] = (Some BadAddress, r1)"
    using ram_protects_range[OF r(1,2) r1, where b = "0xFFF" and data = "[1, 2]" and m = 2] by simp
  then show ?thesis using r1 by blast
qed

lemma ram_clear_ok: "ram_ok r \<Longrightarrow> ram_ok (ram_clear r)"
  by (simp add: ram_ok_def ram_clear_def)

text \<open>
  C36. Loading a program image puts the bytes of the file after its header at the start address, and
  zeros from there up to the end address when the image is shorter than the address range.
\<close>

theorem load_vx_image:
  assumes "ram_ok r" "\<not> check_acl r" "capacity r = 0" "length img < 2 ^ 64"
    "unat lo + length img \<le> unat hi"
  shows "\<exists>r'. load_vx r (le_bytes 8 lo @ le_bytes 8 hi @ img) = Some (None, r') \<and> ram_ok r'
    \<and> (\<forall>x. lo \<le> x \<and> x < hi \<longrightarrow>
          ram_byte r' x = (if unat (x - lo) < length img then img ! unat (x - lo) else 0))"
proof -
  define f where "f = le_bytes 8 lo @ le_bytes 8 hi @ img"
  have parts: "take 8 f = le_bytes 8 lo" "take 8 (drop 8 f) = le_bytes 8 hi" "drop 16 f = img" "\<not> length f < 16"
    by (simp_all add: f_def)
  define c where "c = ram_clear r"
  have c: "ram_ok c" "\<not> check_acl c" "capacity c = 0" using assms ram_clear_ok by (simp_all add: c_def ram_clear_def)
  have rg: "range_ok q a k" if "capacity q = 0" for q a k using that by (simp add: range_ok_def)
  obtain r1 where w: "ram_write c lo img = (None, r1)" "ram_ok r1" "ram_frame c r1" "ram_byte r1 = put_bytes (ram_byte c) lo img"
    using ram_write_spec[OF c(1) rg[OF c(3)]] c(2) by blast
  have c1: "\<not> check_acl r1" "capacity r1 = 0" using w(3) c by (auto simp: ram_frame_def)
  let ?b = "of_nat (length img) :: u64"
  have ub: "unat ?b = length img" using assms(4) by (simp add: unat_of_nat)
  have le: "lo \<le> hi" using assms(5) by (simp add: word_le_nat_alt)
  have uh: "unat (hi - lo) = unat hi - unat lo" by (rule unat_sub[OF le])
  let ?n = "unat (hi - lo - ?b)"
  have bl: "?b \<le> hi - lo" using assms(5) by (simp add: word_le_nat_alt ub uh)
  have n: "?n = unat hi - unat lo - length img" using unat_sub[OF bl] uh ub by simp
  obtain r2 where z: "ram_write r1 (lo + ?b) (replicate ?n 0) = (None, r2)" "ram_ok r2"
    "ram_byte r2 = put_bytes (ram_byte r1) (lo + ?b) (replicate ?n 0)"
    using ram_write_spec[OF w(2) rg[OF c1(2)]] c1(1) by blast
  have load: "load_vx r f = Some (None, if ?b < hi - lo then r2 else r1)"
    using parts w(1) z(1) by (simp add: load_vx_def Let_def le_word_bytes flip: c_def)
  have bytes: "ram_byte (if ?b < hi - lo then r2 else r1) x = (if unat (x - lo) < length img then img ! unat (x - lo) else 0)"
    if x: "lo \<le> x" "x < hi" for x
  proof -
    have ux: "unat (x - lo) = unat x - unat lo" by (rule unat_sub[OF x(1)])
    have xh: "unat lo \<le> unat x" "unat x < unat hi" using x by (simp_all add: word_le_nat_alt word_less_nat_alt)
    have r1x: "ram_byte r1 x = (if unat (x - lo) < length img then img ! unat (x - lo) else ram_byte c x)"
      unfolding w(4) by (rule put_bytes_at) (use assms(4) in simp)
    have r2x: "ram_byte r2 x = (if unat (x - (lo + ?b)) < ?n then 0 else ram_byte r1 x)"
      unfolding z(3) using put_bytes_at[of "replicate ?n 0" "ram_byte r1" "lo + ?b" x] n u64_bound[of hi] by simp
    show ?thesis
    proof (cases "unat (x - lo) < length img")
      case True
      have "\<not> unat (x - (lo + ?b)) < ?n"
      proof -
        have "\<not> ?b \<le> x - lo" using True by (simp add: word_le_nat_alt ub)
        then have "unat (x - lo - ?b) = 2 ^ 64 + unat (x - lo) - length img"
          using unat_sub_if'[of "x - lo" ?b] True by (simp add: word_le_nat_alt ub)
        then show ?thesis using n ux u64_bound[of hi] xh assms(5) by (simp add: diff_diff_eq)
      qed
      then show ?thesis using True r1x r2x by simp
    next
      case False
      then have "?b \<le> x - lo" by (simp add: word_le_nat_alt ub)
      from unat_sub[OF this] have "unat (x - (lo + ?b)) = unat x - unat lo - length img"
        by (simp add: diff_diff_eq ub ux)
      then have "unat (x - (lo + ?b)) < ?n" using n xh False ux by linarith
      moreover have "?b < hi - lo" using False ux xh by (simp add: word_less_nat_alt ub uh)
      ultimately show ?thesis using False r2x by simp
    qed
  qed
  show ?thesis using load bytes w(2) z(2) unfolding f_def by (intro exI[of _ "if ?b < hi - lo then r2 else r1"]) auto
qed

theorem load_vx_image_witness:
  "\<exists>r r'. load_vx r (le_bytes 8 (0x80000000 :: u64) @ le_bytes 8 (0x80000004 :: u64) @ [5, 6]) = Some (None, r')
     \<and> ram_byte r' 0x80000001 = 6 \<and> ram_byte r' 0x80000003 = 0"
proof -
  have p: "ispow2 (4096 :: u32)" by code_simp
  then obtain r where r: "ram_new 0 4096 = Some r" by (simp add: ram_new_def)
  note ok = ram_new_ok[OF r]
  from load_vx_image[OF ok(1) _ ok(3), of "[5, 6]" "0x80000000" "0x80000004"] ok(4)
  obtain r' where "load_vx r (le_bytes 8 (0x80000000 :: u64) @ le_bytes 8 (0x80000004 :: u64) @ [5, 6]) = Some (None, r')"
    and b: "\<forall>x. 0x80000000 \<le> x \<and> x < 0x80000004 \<longrightarrow>
        ram_byte r' x = (if unat (x - 0x80000000) < length [5, 6 :: u8] then [5, 6] ! unat (x - 0x80000000) else 0)" by auto
  moreover have "ram_byte r' 0x80000001 = 6" "ram_byte r' 0x80000003 = 0"
    using b[rule_format, of "0x80000001"] b[rule_format, of "0x80000003"] by simp_all
  ultimately show ?thesis by blast
qed

end
