(* ===== verification/Vm_Types.thy ===== *)
theory Vm_Types
  imports Prelude Bitmanip
begin

text \<open>
  The value classes of the virtual memory system, \<open>src/vortex/sw/common/vm_types.h\<close>: the \<open>satp\<close> register,
  page table entries and virtual addresses of Sv32 and Sv39.  The build selects one of the two by the
  width of the machine; every definition takes it as the argument \<open>rv64\<close>.

  The lemmas show that packing and unpacking are inverse on the values the page table code uses.
\<close>

section \<open>Configuration\<close>

text \<open>The constants of \<open>VX_types.toml\<close> that depend on the width.\<close>

definition VM_PAGE_LOG2_SIZE :: nat where
  "VM_PAGE_LOG2_SIZE = 12"

definition VM_PAGE_SIZE :: u64 where
  "VM_PAGE_SIZE = 4096"

definition VM_PT_LEVEL :: "bool \<Rightarrow> nat" where
  "VM_PT_LEVEL rv64 = (if rv64 then 3 else 2)"

definition VM_PTE_SIZE :: "bool \<Rightarrow> nat" where
  "VM_PTE_SIZE rv64 = (if rv64 then 8 else 4)"

definition VM_PT_SIZE :: u64 where
  "VM_PT_SIZE = VM_PAGE_SIZE"

definition VM_ADDR_MODE :: "bool \<Rightarrow> u8" where
  "VM_ADDR_MODE rv64 = (if rv64 then 8 else 1)"

datatype access_type = LOAD | STORE | FETCH

section \<open>Fields\<close>

definition fbits :: "u64 \<Rightarrow> nat \<Rightarrow> nat \<Rightarrow> u64" where
  "fbits input s_idx e_idx = drop_bit s_idx input AND (push_bit (e_idx - s_idx + 1) 1 - 1)"

definition fbit :: "u64 \<Rightarrow> nat \<Rightarrow> bool" where
  "fbit input idx \<longleftrightarrow> input AND push_bit idx 1 \<noteq> 0"

section \<open>The root register\<close>

record satp_t =
  satp_address :: u64
  satp_asid :: u16
  satp_mode :: u8
  satp_ppn :: u64
  satp_val :: u64

definition satp_of :: "bool \<Rightarrow> u64 \<Rightarrow> satp_t" where
  "satp_of rv64 v =
     (let m = (if rv64 then ucast (fbits v 60 63) else of_bool (fbit v 31));
          a = (if rv64 then ucast (fbits v 44 59) else ucast (fbits v 22 30));
          p = (if rv64 then fbits v 0 43 else fbits v 0 21)
      in \<lparr>satp_address = push_bit VM_PAGE_LOG2_SIZE p, satp_asid = a, satp_mode = m, satp_ppn = p, satp_val = v\<rparr>)"

text \<open>The failed assertion on the upper address bits is \<open>None\<close>.\<close>

definition satp_make :: "bool \<Rightarrow> u64 \<Rightarrow> u16 \<Rightarrow> satp_t option" where
  "satp_make rv64 addr asid =
     (if \<not> rv64 \<and> drop_bit 32 addr \<noteq> 0 then None
      else let m = VM_ADDR_MODE rv64;
               p = drop_bit VM_PAGE_LOG2_SIZE addr;
               v = (if rv64 then push_bit 60 (ucast m) OR push_bit 44 (ucast asid) OR p
                    else push_bit 31 (ucast m) OR push_bit 22 (ucast asid) OR p)
           in Some \<lparr>satp_address = addr, satp_asid = asid, satp_mode = m, satp_ppn = p, satp_val = v\<rparr>)"

section \<open>Page table entries\<close>

text \<open>
  The fields \<open>N\<close> and \<open>PBMT\<close> exist under Sv39 only; \<open>rsw\<close> is not set by the constructor that packs
  an entry, so it is \<open>None\<close> there.
\<close>

record pte_t =
  pte_address :: u64
  pte_N :: bool
  pte_PBMT :: u8
  pte_ppn :: u64
  pte_rsw :: "u32 option"
  pte_flags :: u32
  pte_level :: nat
  pte_d :: bool
  pte_a :: bool
  pte_g :: bool
  pte_u :: bool
  pte_x :: bool
  pte_w :: bool
  pte_r :: bool
  pte_v :: bool
  pte_bytes :: u64

definition set_flags :: "pte_t \<Rightarrow> u32 \<Rightarrow> pte_t" where
  "set_flags p flag =
     (let f = ucast flag :: u64
      in p\<lparr>pte_flags := flag, pte_d := fbit f 7, pte_a := fbit f 6, pte_g := fbit f 5, pte_u := fbit f 4,
           pte_x := fbit f 3, pte_w := fbit f 2, pte_r := fbit f 1, pte_v := fbit f 0\<rparr>)"

definition pte_blank :: pte_t where
  "pte_blank = \<lparr>pte_address = 0, pte_N = False, pte_PBMT = 0, pte_ppn = 0, pte_rsw = None, pte_flags = 0, pte_level = 0,
     pte_d = False, pte_a = False, pte_g = False, pte_u = False, pte_x = False, pte_w = False, pte_r = False,
     pte_v = False, pte_bytes = 0\<rparr>"

definition pte_make :: "bool \<Rightarrow> u64 \<Rightarrow> u32 \<Rightarrow> pte_t option" where
  "pte_make rv64 addr flags =
     (if \<not> rv64 \<and> drop_bit 32 addr \<noteq> 0 then None
      else let p = drop_bit VM_PAGE_LOG2_SIZE addr
           in Some ((set_flags (pte_blank\<lparr>pte_address := addr, pte_level := VM_PT_LEVEL rv64, pte_ppn := p\<rparr>) flags)
                      \<lparr>pte_bytes := push_bit 10 p OR ucast flags\<rparr>))"

definition pte_of :: "bool \<Rightarrow> u64 \<Rightarrow> pte_t option" where
  "pte_of rv64 b =
     (if \<not> rv64 \<and> drop_bit 32 b \<noteq> 0 then None
      else let p = (if rv64 then fbits b 10 53 else fbits b 10 31);
               q = pte_blank\<lparr>pte_N := rv64 \<and> fbit b 63, pte_PBMT := (if rv64 then ucast (fbits b 61 62) else 0),
                     pte_level := VM_PT_LEVEL rv64, pte_ppn := p, pte_address := push_bit VM_PAGE_LOG2_SIZE p,
                     pte_rsw := Some (ucast (fbits b 8 9)), pte_bytes := b\<rparr>
           in Some (set_flags q (ucast (fbits b 0 7))))"

section \<open>Virtual addresses\<close>

record vaddr_t =
  va_vpn :: "u64 list"
  va_pgoff :: u64
  va_level :: nat

definition vaddr_of :: "bool \<Rightarrow> u64 \<Rightarrow> vaddr_t option" where
  "vaddr_of rv64 a =
     (if rv64 then
        Some \<lparr>va_vpn = [fbits a 12 20, fbits a 21 29, fbits a 30 38], va_pgoff = fbits a 0 11, va_level = 3\<rparr>
      else if drop_bit 32 a \<noteq> 0 then None
      else Some \<lparr>va_vpn = [fbits a 12 21, fbits a 22 31], va_pgoff = fbits a 0 11, va_level = 2\<rparr>)"

section \<open>Page tables\<close>

text \<open>
  The reference for the three page table walks of the code base: the entry that maps an address and
  its level, or \<open>None\<close> for a page fault.  \<open>rd\<close> is the content of the page table memory by entry address.
\<close>

definition pt_entry_addr :: "bool \<Rightarrow> u64 \<Rightarrow> u64 \<Rightarrow> u64" where
  "pt_entry_addr rv64 base_ppn vpn = base_ppn * VM_PT_SIZE + vpn * of_nat (VM_PTE_SIZE rv64)"

fun pt_leaf :: "bool \<Rightarrow> (u64 \<Rightarrow> u64) \<Rightarrow> u64 list \<Rightarrow> nat \<Rightarrow> u64 \<Rightarrow> (pte_t \<times> nat) option" where
  "pt_leaf rv64 rd vpn i base =
     (case pte_of rv64 (rd (pt_entry_addr rv64 base (vpn ! i))) of
        None \<Rightarrow> None
      | Some p \<Rightarrow>
          if \<not> pte_v p \<or> \<not> pte_r p \<and> pte_w p then None
          else if \<not> pte_r p \<and> \<not> pte_w p \<and> \<not> pte_x p then
            (case i of 0 \<Rightarrow> None | Suc j \<Rightarrow> pt_leaf rv64 rd vpn j (pte_ppn p))
          else Some (p, i))"

declare pt_leaf.simps [simp del]

text \<open>Index bits per level, and the address a leaf at level \<open>i\<close> gives.\<close>

definition VPN_BITS :: "bool \<Rightarrow> nat" where
  "VPN_BITS rv64 = the (cp_clog2 (VM_PT_SIZE div of_nat (VM_PTE_SIZE rv64)))"

definition off_mask :: "bool \<Rightarrow> nat \<Rightarrow> u64" where
  "off_mask rv64 i = push_bit (VM_PAGE_LOG2_SIZE + i * VPN_BITS rv64) 1 - 1"

definition leaf_addr :: "bool \<Rightarrow> u64 \<Rightarrow> nat \<Rightarrow> u64 \<Rightarrow> u64" where
  "leaf_addr rv64 ppn i va =
     (push_bit VM_PAGE_LOG2_SIZE ppn AND NOT (off_mask rv64 i)) OR (va AND off_mask rv64 i)"

section \<open>Lemmas\<close>

lemma VPN_BITS_value: "VPN_BITS rv64 = (if rv64 then 9 else 10)"
proof (cases rv64)
  case True
  have "VPN_BITS True = 9" by code_simp
  then show ?thesis using True by simp
next
  case False
  have "VPN_BITS False = 10" by code_simp
  then show ?thesis using False by simp
qed

lemma bit_fbits: "bit (fbits x s e) n \<longleftrightarrow> n < e - s + 1 \<and> bit x (s + n)"
proof -
  have m: "(push_bit k 1 - 1 :: u64) = mask k" for k by (simp add: mask_eq_exp_minus_1 word_push_bit_one)
  show ?thesis unfolding fbits_def m by (auto simp: bit_simps dest: bit_imp_le_length)
qed

lemma fbit_iff: "n < 64 \<Longrightarrow> fbit x n \<longleftrightarrow> bit x n"
  by (simp add: fbit_def bit_iff_and_push_bit_not_eq_0)

lemma drop_bit_zero_bits:
  assumes "drop_bit k (x :: u64) = 0" "k \<le> n"
  shows "\<not> bit x n"
proof -
  have "bit (drop_bit k x) (n - k) \<longleftrightarrow> bit x n" using assms(2) by (simp add: bit_drop_bit_eq)
  then show ?thesis by (simp add: assms(1))
qed

lemma less_power_bits:
  fixes x :: "'a::len word"
  assumes "x < 2 ^ k" "k \<le> n"
  shows "\<not> bit x n"
proof
  assume b: "bit x n"
  then have n: "n < LENGTH('a)" by (rule bit_imp_le_length)
  then have "unat x < 2 ^ k" using assms by (simp add: word_less_nat_alt unat_power2)
  also have "(2 :: nat) ^ k \<le> 2 ^ n" using assms(2) by simp
  finally have "unat x div 2 ^ n = 0" by simp
  moreover have "bit (unat x) n" using b by (simp add: bit_unsigned_iff)
  ultimately show False by (simp add: bit_iff_odd)
qed

lemma flags_of_set_flags [simp]:
  "pte_flags (set_flags p f) = f" "pte_ppn (set_flags p f) = pte_ppn p" "pte_bytes (set_flags p f) = pte_bytes p"
  "pte_v (set_flags p f) = bit f 0" "pte_r (set_flags p f) = bit f 1" "pte_w (set_flags p f) = bit f 2"
  "pte_x (set_flags p f) = bit f 3" "pte_u (set_flags p f) = bit f 4" "pte_g (set_flags p f) = bit f 5"
  "pte_a (set_flags p f) = bit f 6" "pte_d (set_flags p f) = bit f 7" "pte_level (set_flags p f) = pte_level p"
  "pte_address (set_flags p f) = pte_address p"
  by (simp_all add: set_flags_def Let_def fbit_iff bit_simps)

lemma pte_of_fields:
  assumes "pte_of rv64 b = Some p"
  shows "pte_ppn p = (if rv64 then fbits b 10 53 else fbits b 10 31)" "pte_flags p = ucast (fbits b 0 7)"
    "pte_bytes p = b" "pte_v p = bit b 0" "pte_r p = bit b 1" "pte_w p = bit b 2" "pte_x p = bit b 3"
proof -
  define q where "q = pte_blank\<lparr>pte_N := rv64 \<and> fbit b 63, pte_PBMT := (if rv64 then ucast (fbits b 61 62) else 0),
    pte_level := VM_PT_LEVEL rv64, pte_ppn := (if rv64 then fbits b 10 53 else fbits b 10 31),
    pte_address := push_bit VM_PAGE_LOG2_SIZE (if rv64 then fbits b 10 53 else fbits b 10 31),
    pte_rsw := Some (ucast (fbits b 8 9)), pte_bytes := b\<rparr>"
  have "Some p = (if \<not> rv64 \<and> drop_bit 32 b \<noteq> 0 then None else Some (set_flags q (ucast (fbits b 0 7))))"
    using assms unfolding pte_of_def Let_def q_def by (rule sym)
  then have p: "p = set_flags q (ucast (fbits b 0 7))" by (metis option.distinct(1) option.inject)
  have "pte_ppn q = (if rv64 then fbits b 10 53 else fbits b 10 31)" "pte_bytes q = b" by (simp_all add: q_def)
  then show "pte_ppn p = (if rv64 then fbits b 10 53 else fbits b 10 31)" "pte_flags p = ucast (fbits b 0 7)"
    "pte_bytes p = b" "pte_v p = bit b 0" "pte_r p = bit b 1" "pte_w p = bit b 2" "pte_x p = bit b 3"
    unfolding p by (simp_all add: bit_simps bit_fbits numeral_2_eq_2)
qed

lemma pte_make_fields:
  assumes "pte_make rv64 addr flags = Some p"
  shows "pte_ppn p = drop_bit 12 addr" "pte_flags p = flags" "pte_bytes p = push_bit 10 (drop_bit 12 addr) OR ucast flags"
    "pte_v p = bit flags 0" "pte_r p = bit flags 1" "pte_w p = bit flags 2" "pte_x p = bit flags 3"
proof -
  define q where "q = pte_blank\<lparr>pte_address := addr, pte_level := VM_PT_LEVEL rv64, pte_ppn := drop_bit 12 addr\<rparr>"
  have "Some p = (if \<not> rv64 \<and> drop_bit 32 addr \<noteq> 0 then None
      else Some ((set_flags q flags)\<lparr>pte_bytes := push_bit 10 (drop_bit 12 addr) OR ucast flags\<rparr>))"
    using assms unfolding pte_make_def Let_def q_def VM_PAGE_LOG2_SIZE_def by (rule sym)
  then have p: "p = (set_flags q flags)\<lparr>pte_bytes := push_bit 10 (drop_bit 12 addr) OR ucast flags\<rparr>"
    by (metis option.distinct(1) option.inject)
  have "pte_ppn q = drop_bit 12 addr" by (simp add: q_def)
  then show "pte_ppn p = drop_bit 12 addr" "pte_flags p = flags" "pte_bytes p = push_bit 10 (drop_bit 12 addr) OR ucast flags"
    "pte_v p = bit flags 0" "pte_r p = bit flags 1" "pte_w p = bit flags 2" "pte_x p = bit flags 3"
    unfolding p by simp_all
qed

section \<open>Properties\<close>

text \<open>
  C40. A page table entry keeps what it is made of.  An entry packed from a page address within the
  physical address space and flags of eight bits unpacks to the same frame number, the same flags and
  the same permissions, under Sv32 and Sv39.
\<close>

theorem pte_roundtrip:
  assumes "addr < 2 ^ (if rv64 then 56 else 32)" "flags < 256"
  shows "\<exists>p q. pte_make rv64 addr flags = Some p \<and> pte_of rv64 (pte_bytes p) = Some q
    \<and> pte_ppn q = drop_bit 12 addr \<and> pte_flags q = flags
    \<and> pte_ppn p = pte_ppn q \<and> pte_flags p = pte_flags q
    \<and> (pte_v p, pte_r p, pte_w p, pte_x p) = (pte_v q, pte_r q, pte_w q, pte_x q)"
proof -
  let ?lim = "if rv64 then 56 else 32 :: nat"
  define b :: u64 where "b = push_bit 10 (drop_bit 12 addr) OR ucast flags"
  have ha: "n < ?lim" if "bit addr n" for n using less_power_bits[OF assms(1)] that by (meson not_less)
  have hf: "n < 8" if "bit flags n" for n using less_power_bits[of flags 8 n] assms(2) that by (cases "8 \<le> n") simp_all
  have bits: "bit b n \<longleftrightarrow> n < 64 \<and> (10 \<le> n \<and> bit addr (n + 2) \<or> n < 8 \<and> bit flags n)" for n
    by (auto simp: b_def bit_simps dest: bit_imp_le_length hf)
  have up: "drop_bit 32 addr = 0" "drop_bit 32 b = 0" if "\<not> rv64"
    by (rule word_eq_by_bits, use that in \<open>auto simp: bit_simps bits dest!: ha hf\<close>)+
  obtain p where p: "pte_make rv64 addr flags = Some p" using up(1) unfolding pte_make_def Let_def by metis
  note g = pte_make_fields[OF p]
  obtain q where q: "pte_of rv64 b = Some q" using up(2) unfolding pte_of_def Let_def by metis
  note f = pte_of_fields[OF q]
  have "pte_ppn q = drop_bit 12 addr"
    unfolding f(1) by (rule word_eq_by_bits) (auto simp: bit_fbits bit_simps bits ac_simps dest: ha hf)
  moreover have "pte_flags q = flags"
    unfolding f(2) by (rule word_eq_by_bits) (auto simp: bit_fbits bit_simps bits dest: hf)
  moreover have "pte_v q = bit flags 0" "pte_r q = bit flags 1" "pte_w q = bit flags 2" "pte_x q = bit flags 3"
    unfolding f(4-7) bits by simp_all
  ultimately show ?thesis using p q by (intro exI[of _ p] exI[of _ q]) (simp add: g flip: b_def)
qed

theorem pte_roundtrip_witness:
  "\<exists>p q. pte_make True 0x80200000 0xF = Some p \<and> pte_of True (pte_bytes p) = Some q \<and> pte_ppn q = 0x80200"
  using pte_roundtrip[of "0x80200000" True "0xF"] by auto

text \<open>
  The root register keeps what it is made of: the register built from the address of a page table
  and an address space number reads back as the mode of the machine, that number and that page.
\<close>

theorem satp_roundtrip:
  assumes "addr < 2 ^ (if rv64 then 56 else 32)" "\<not> rv64 \<Longrightarrow> asid < 512"
  shows "\<exists>s. satp_make rv64 addr asid = Some s \<and> satp_mode (satp_of rv64 (satp_val s)) = VM_ADDR_MODE rv64
    \<and> satp_asid (satp_of rv64 (satp_val s)) = asid \<and> satp_ppn (satp_of rv64 (satp_val s)) = drop_bit 12 addr"
proof (cases rv64)
  case True
  define v :: u64 where "v = push_bit 60 (ucast (VM_ADDR_MODE rv64)) OR push_bit 44 (ucast asid) OR drop_bit 12 addr"
  have ha: "n < 56" if "bit addr n" for n using less_power_bits[of addr 56 n] assms(1) True that by (cases "56 \<le> n") simp_all
  have "VM_ADDR_MODE rv64 = 2 ^ 3" using True by (simp add: VM_ADDR_MODE_def)
  then have m: "bit (VM_ADDR_MODE rv64) k \<longleftrightarrow> k = 3" for k by (simp only: bit_exp_iff) auto
  have bits: "bit v n \<longleftrightarrow> n < 64 \<and> (n = 63 \<or> 44 \<le> n \<and> bit asid (n - 44) \<or> bit addr (n + 12))" for n
    by (auto simp: v_def m bit_simps ac_simps dest: bit_imp_le_length)
  have "ucast (fbits v 60 63) = VM_ADDR_MODE rv64"
    by (rule word_eq_by_bits) (auto simp: bit_simps bit_fbits bits m dest: ha bit_imp_le_length)
  moreover have "ucast (fbits v 44 59) = asid"
    by (rule word_eq_by_bits) (auto simp: bit_simps bit_fbits bits dest: ha)
  moreover have "fbits v 0 43 = drop_bit 12 addr"
    by (rule word_eq_by_bits) (auto simp: bit_simps bit_fbits bits ac_simps dest: ha)
  ultimately show ?thesis using True by (simp add: satp_make_def satp_of_def Let_def VM_PAGE_LOG2_SIZE_def v_def)
next
  case False
  define v :: u64 where "v = push_bit 31 (ucast (VM_ADDR_MODE rv64)) OR push_bit 22 (ucast asid) OR drop_bit 12 addr"
  have ha: "n < 32" if "bit addr n" for n using less_power_bits[of addr 32 n] assms(1) False that by (cases "32 \<le> n") simp_all
  have hs: "n < 9" if "bit asid n" for n using less_power_bits[of asid 9 n] assms(2)[OF False] that by (cases "9 \<le> n") simp_all
  have "VM_ADDR_MODE rv64 = 2 ^ 0" using False by (simp add: VM_ADDR_MODE_def)
  then have m: "bit (VM_ADDR_MODE rv64) k \<longleftrightarrow> k = 0" for k by (simp only: bit_exp_iff) auto
  have bits: "bit v n \<longleftrightarrow> n < 64 \<and> (n = 31 \<or> 22 \<le> n \<and> bit asid (n - 22) \<or> bit addr (n + 12))" for n
    by (auto simp: v_def m bit_simps ac_simps dest: bit_imp_le_length)
  have "fbit v 31" using bits[of 31] by (simp add: fbit_iff)
  moreover have "ucast (fbits v 22 30) = asid"
    by (rule word_eq_by_bits) (auto simp: bit_simps bit_fbits bits dest: ha hs)
  moreover have "fbits v 0 21 = drop_bit 12 addr"
    by (rule word_eq_by_bits) (auto simp: bit_simps bit_fbits bits ac_simps dest: ha hs)
  moreover have "drop_bit 32 addr = 0" by (rule word_eq_by_bits) (auto simp: bit_simps dest: ha)
  ultimately show ?thesis using False by (simp add: satp_make_def satp_of_def Let_def VM_PAGE_LOG2_SIZE_def v_def) (simp add: VM_ADDR_MODE_def)
qed

theorem satp_roundtrip_witness:
  "\<exists>s. satp_make False 0xF0000000 3 = Some s \<and> satp_ppn (satp_of False (satp_val s)) = 0xF0000"
  using satp_roundtrip[of "0xF0000000" False 3] by auto

end
