(* ===== verification/Mem_Unit.thy ===== *)
theory Mem_Unit
  imports Ram Vm_Types
begin

text \<open>
  The memory unit of the functional simulator, \<open>MemoryUnit\<close> of \<open>src/vortex/sim/common/mem.cpp\<close>: the memory
  devices, the decoder that maps address ranges to them, the translation buffer with its replacement,
  the page table walk, and the reservation of atomic operations.  The build without virtual memory and
  the build with it have different translation code; both are here, the first with suffix \<open>0\<close>.

  The lemmas say which translations are right: the walk against the reference of theory \<open>Vm_Types\<close>,
  and what the translation buffer does with its result.
\<close>

section \<open>Devices\<close>

text \<open>An exception, a call of \<open>abort\<close> or failed assertion, or an access outside a buffer.\<close>

datatype dev_error = Throws mem_error | Aborts | Undefined

record ram_dev =
  contents :: "u8 list"
  wordSize :: u32

definition ram_dev_new :: "nat \<Rightarrow> u32 \<Rightarrow> ram_dev" where
  "ram_dev_new sz ws = \<lparr>contents = replicate sz 0, wordSize = ws\<rparr>"

text \<open>
  The constructor from a file appends what \<open>get\<close> returns until the stream fails, so the end-of-file
  value follows the bytes of the file, and pads with zeros.
\<close>

lemma minus_succ_less: "(x :: u32) \<noteq> 0 \<Longrightarrow> unat (- (x + 1)) < unat (- x)"
proof -
  assume "x \<noteq> 0"
  then have "- x \<noteq> 0" by simp
  from unat_minus_one[OF this] have "unat (- x - 1) = unat (- x) - 1" .
  moreover have "0 < unat (- x)" using \<open>- x \<noteq> 0\<close> by (simp add: unat_gt_0)
  ultimately show ?thesis by simp
qed

function pad_words :: "u32 \<Rightarrow> u8 list \<Rightarrow> u8 list" where
  "pad_words ws bs = (if of_nat (length bs) AND (ws - 1) \<noteq> 0 then pad_words ws (bs @ [0]) else bs)"
  by pat_completeness auto

termination
proof (relation "measure (\<lambda>(ws, bs). unat (- (of_nat (length bs) :: u32)))")
  fix ws :: u32 and bs :: "u8 list"
  assume "of_nat (length bs) AND (ws - 1) \<noteq> 0"
  then have "(of_nat (length bs) :: u32) \<noteq> 0" by auto
  from minus_succ_less[OF this]
  show "((ws, bs @ [0]), ws, bs) \<in> measure (\<lambda>(ws, bs). unat (- (of_nat (length bs) :: u32)))"
    by (simp add: ac_simps)
qed simp

definition ram_dev_file :: "u8 list \<Rightarrow> u32 \<Rightarrow> ram_dev" where
  "ram_dev_file file ws = \<lparr>contents = pad_words ws (file @ [0xFF]), wordSize = ws\<rparr>"

definition ram_dev_bad :: "ram_dev \<Rightarrow> u64 \<Rightarrow> u64 \<Rightarrow> bool" where
  "ram_dev_bad d addr sz \<longleftrightarrow>
     addr AND ucast (wordSize d - 1) \<noteq> 0 \<or> (addr + sz) AND ucast (wordSize d - 1) \<noteq> 0
       \<or> addr + sz > of_nat (length (contents d))"

definition ram_dev_read :: "ram_dev \<Rightarrow> u64 \<Rightarrow> u64 \<Rightarrow> dev_error + u8 list" where
  "ram_dev_read d addr sz =
     (if ram_dev_bad d addr sz then Inl (Throws BadAddress)
      else if unat addr + unat sz \<le> length (contents d) then Inr (take (unat sz) (drop (unat addr) (contents d)))
      else Inl Undefined)"

definition ram_dev_write :: "ram_dev \<Rightarrow> u64 \<Rightarrow> u8 list \<Rightarrow> dev_error + ram_dev" where
  "ram_dev_write d addr data =
     (if ram_dev_bad d addr (of_nat (length data)) then Inl (Throws BadAddress)
      else if unat addr + length data \<le> length (contents d)
      then Inr (d\<lparr>contents := take (unat addr) (contents d) @ data @ drop (unat addr + length data) (contents d)\<rparr>)
      else Inl Undefined)"

datatype mem_device = Dev_RAM ram | Dev_Word ram_dev | Dev_Rom ram_dev

fun dev_read :: "mem_device \<Rightarrow> u64 \<Rightarrow> u64 \<Rightarrow> (dev_error + u8 list) \<times> mem_device" where
  "dev_read (Dev_RAM r) addr sz =
     (case ram_read r addr sz of (Inl e, r1) \<Rightarrow> (Inl (Throws e), Dev_RAM r1) | (Inr bs, r1) \<Rightarrow> (Inr bs, Dev_RAM r1))"
| "dev_read (Dev_Word d) addr sz = (ram_dev_read d addr sz, Dev_Word d)"
| "dev_read (Dev_Rom d) addr sz = (ram_dev_read d addr sz, Dev_Rom d)"

fun dev_write :: "mem_device \<Rightarrow> u64 \<Rightarrow> u8 list \<Rightarrow> dev_error option \<times> mem_device" where
  "dev_write (Dev_RAM r) addr data =
     (case ram_write r addr data of (e, r1) \<Rightarrow> (map_option Throws e, Dev_RAM r1))"
| "dev_write (Dev_Word d) addr data =
     (case ram_dev_write d addr data of Inl e \<Rightarrow> (Some e, Dev_Word d) | Inr d1 \<Rightarrow> (None, Dev_Word d1))"
| "dev_write (Dev_Rom d) addr data = (Some Aborts, Dev_Rom d)"

section \<open>The address decoder\<close>

text \<open>An entry names its device by the position in the list of devices.\<close>

record decoder =
  entries :: "(nat \<times> u64 \<times> u64) list"
  devices :: "mem_device list"

definition dec_map :: "decoder \<Rightarrow> u64 \<Rightarrow> u64 \<Rightarrow> nat \<Rightarrow> dev_error + decoder" where
  "dec_map d start stop md =
     (if stop \<ge> start then Inr (d\<lparr>entries := entries d @ [(md, start, stop)]\<rparr>) else Inl Aborts)"

definition dec_lookup :: "decoder \<Rightarrow> u64 \<Rightarrow> u32 \<Rightarrow> dev_error + (nat \<times> u64) option" where
  "dec_lookup d addr ws =
     (let stop = addr + ucast (ws - 1)
      in if \<not> stop \<ge> addr then Inl Aborts
         else Inr (map_option (\<lambda>(md, s, e). (md, addr - s))
                     (List.find (\<lambda>(md, s, e). addr \<ge> s \<and> stop \<le> e) (rev (entries d)))))"

definition dec_read :: "decoder \<Rightarrow> u64 \<Rightarrow> u64 \<Rightarrow> (dev_error + u8 list) \<times> decoder" where
  "dec_read d addr sz =
     (case dec_lookup d addr (ucast sz) of
        Inl e \<Rightarrow> (Inl e, d)
      | Inr None \<Rightarrow> (Inl (Throws BadAddress), d)
      | Inr (Some (md, a)) \<Rightarrow>
          (case dev_read (devices d ! md) a sz of (res, m1) \<Rightarrow> (res, d\<lparr>devices := (devices d)[md := m1]\<rparr>)))"

definition dec_write :: "decoder \<Rightarrow> u64 \<Rightarrow> u8 list \<Rightarrow> dev_error option \<times> decoder" where
  "dec_write d addr data =
     (case dec_lookup d addr (of_nat (length data)) of
        Inl e \<Rightarrow> (Some e, d)
      | Inr None \<Rightarrow> (Some (Throws BadAddress), d)
      | Inr (Some (md, a)) \<Rightarrow>
          (case dev_write (devices d ! md) a data of (res, m1) \<Rightarrow> (res, d\<lparr>devices := (devices d)[md := m1]\<rparr>)))"

section \<open>The unit without virtual memory\<close>

datatype mu_error = Dev dev_error | PageFault u64 bool | Page_Fault_Exception

record tlb0_entry =
  vpn0 :: u64
  pfn0 :: u32
  flags0 :: u32
  valid0 :: bool

record mem_unit0 =
  tlb0 :: "tlb0_entry list"
  pageSize0 :: u64
  decoder0 :: decoder
  enableVM :: bool
  amo_addr0 :: u64
  amo_valid0 :: bool

text \<open>The number of buffer entries, \<open>VX_CFG_TLB_SIZE\<close>, is an argument.\<close>

definition mem_unit0_new :: "nat \<Rightarrow> u64 \<Rightarrow> mem_unit0" where
  "mem_unit0_new tlb_size pageSize =
     (let none = \<lparr>vpn0 = 0, pfn0 = 0, flags0 = 0, valid0 = False\<rparr>;
          t = replicate tlb_size none
      in \<lparr>tlb0 = (if pageSize \<noteq> 0 then t[0 := \<lparr>vpn0 = 0, pfn0 = 0, flags0 = 63, valid0 = True\<rparr>] else t),
          pageSize0 = pageSize, decoder0 = \<lparr>entries = [], devices = []\<rparr>, enableVM = (pageSize \<noteq> 0),
          amo_addr0 = 0, amo_valid0 = False\<rparr>)"

definition tlbLookup0 :: "mem_unit0 \<Rightarrow> u64 \<Rightarrow> u32 \<Rightarrow> mu_error + tlb0_entry" where
  "tlbLookup0 m vAddr flagMask =
     (case List.find (\<lambda>e. valid0 e \<and> vpn0 e = vAddr div pageSize0 m) (tlb0 m) of
        None \<Rightarrow> Inl (PageFault vAddr True)
      | Some e \<Rightarrow> if flags0 e AND flagMask \<noteq> 0 then Inr e else Inl (PageFault vAddr False))"

definition toPhyAddr :: "mem_unit0 \<Rightarrow> u64 \<Rightarrow> u32 \<Rightarrow> mu_error + u64" where
  "toPhyAddr m addr flagMask =
     (if enableVM m then
        (case tlbLookup0 m addr flagMask of
           Inl e \<Rightarrow> Inl e
         | Inr t \<Rightarrow> Inr (ucast (pfn0 t) * pageSize0 m + addr mod pageSize0 m))
      else Inr addr)"

definition mem_read0 :: "mem_unit0 \<Rightarrow> u64 \<Rightarrow> u32 \<Rightarrow> bool \<Rightarrow> (mu_error + u8 list) \<times> mem_unit0" where
  "mem_read0 m addr sz sup_mode =
     (case toPhyAddr m addr (if sup_mode then 8 else 1) of
        Inl e \<Rightarrow> (Inl e, m)
      | Inr p \<Rightarrow>
          (case dec_read (decoder0 m) p (ucast sz) of
             (Inl e, d) \<Rightarrow> (Inl (Dev e), m\<lparr>decoder0 := d\<rparr>)
           | (Inr bs, d) \<Rightarrow> (Inr bs, m\<lparr>decoder0 := d\<rparr>)))"

definition mem_write0 :: "mem_unit0 \<Rightarrow> u64 \<Rightarrow> u8 list \<Rightarrow> bool \<Rightarrow> mu_error option \<times> mem_unit0" where
  "mem_write0 m addr data sup_mode =
     (case toPhyAddr m addr (if sup_mode then 16 else 1) of
        Inl e \<Rightarrow> (Some e, m)
      | Inr p \<Rightarrow>
          (case dec_write (decoder0 m) p data of
             (Some e, d) \<Rightarrow> (Some (Dev e), m\<lparr>decoder0 := d\<rparr>)
           | (None, d) \<Rightarrow> (None, m\<lparr>decoder0 := d, amo_valid0 := False\<rparr>)))"

definition amo_reserve0 :: "mem_unit0 \<Rightarrow> u64 \<Rightarrow> mu_error option \<times> mem_unit0" where
  "amo_reserve0 m addr =
     (case toPhyAddr m addr 1 of
        Inl e \<Rightarrow> (Some e, m)
      | Inr p \<Rightarrow> (None, m\<lparr>amo_addr0 := p, amo_valid0 := True\<rparr>))"

definition amo_check0 :: "mem_unit0 \<Rightarrow> u64 \<Rightarrow> mu_error + bool" where
  "amo_check0 m addr =
     (case toPhyAddr m addr 1 of
        Inl e \<Rightarrow> Inl e
      | Inr p \<Rightarrow> Inr (amo_valid0 m \<and> amo_addr0 m = p))"

fun first_index :: "('a \<Rightarrow> bool) \<Rightarrow> 'a list \<Rightarrow> nat option" where
  "first_index P [] = None"
| "first_index P (x # xs) = (if P x then Some 0 else map_option Suc (first_index P xs))"

text \<open>A page size of zero makes the divisions crash: \<open>None\<close>.\<close>

definition tlbAdd0 :: "mem_unit0 \<Rightarrow> u64 \<Rightarrow> u64 \<Rightarrow> u32 \<Rightarrow> mem_unit0 option" where
  "tlbAdd0 m virt phys flags =
     (if pageSize0 m = 0 then None else Some (
      let e = \<lparr>vpn0 = virt div pageSize0 m, pfn0 = ucast (phys div pageSize0 m), flags0 = flags, valid0 = True\<rparr>
      in case first_index (\<lambda>e. \<not> valid0 e) (tlb0 m) of
           Some i \<Rightarrow> m\<lparr>tlb0 := (tlb0 m)[i := e]\<rparr>
         | None \<Rightarrow> m\<lparr>tlb0 := (tlb0 m)[0 := e]\<rparr>))"

definition tlbRm0 :: "mem_unit0 \<Rightarrow> u64 \<Rightarrow> mem_unit0 option" where
  "tlbRm0 m va =
     (if pageSize0 m = 0 then None else Some (
      case first_index (\<lambda>e. valid0 e \<and> vpn0 e = va div pageSize0 m) (tlb0 m) of
        Some i \<Rightarrow> m\<lparr>tlb0 := (tlb0 m)[i := (tlb0 m ! i)\<lparr>valid0 := False\<rparr>]\<rparr>
      | None \<Rightarrow> m))"

definition tlbFlush0 :: "mem_unit0 \<Rightarrow> mem_unit0" where
  "tlbFlush0 m = m\<lparr>tlb0 := map (\<lambda>e. e\<lparr>valid0 := False\<rparr>) (tlb0 m)\<rparr>"

section \<open>The unit with virtual memory\<close>

record tlb_entry =
  vpn :: u64
  pfn :: u32
  tflags :: u32
  mru_bit :: bool
  size_bits :: u64
  tvalid :: bool

record mem_unit =
  tlb :: "tlb_entry list"
  pageSize :: u64
  mdecoder :: decoder
  amo_addr :: u64
  amo_valid :: bool
  unique_translations :: "u64 list"
  TLB_HIT :: u64
  TLB_MISS :: u64
  TLB_EVICT :: u64
  PTW :: u64
  PERF_UNIQUE_PTW :: u64
  satp :: "satp_t option"

definition mem_unit_new :: "nat \<Rightarrow> u64 \<Rightarrow> mem_unit" where
  "mem_unit_new tlb_size psize =
     \<lparr>tlb = replicate tlb_size \<lparr>vpn = 0, pfn = 0, tflags = 0, mru_bit = False, size_bits = 0, tvalid = False\<rparr>,
      pageSize = psize, mdecoder = \<lparr>entries = [], devices = []\<rparr>, amo_addr = 0, amo_valid = False,
      unique_translations = [], TLB_HIT = 0, TLB_MISS = 0, TLB_EVICT = 0, PTW = 0, PERF_UNIQUE_PTW = 0, satp = None\<rparr>"

definition set_satp :: "bool \<Rightarrow> mem_unit \<Rightarrow> u64 \<Rightarrow> mem_unit" where
  "set_satp rv64 m v = m\<lparr>satp := Some (satp_of rv64 v)\<rparr>"

definition get_satp :: "mem_unit \<Rightarrow> u64" where
  "get_satp m = (case satp m of None \<Rightarrow> 0 | Some s \<Rightarrow> satp_val s)"

definition need_trans :: "mem_unit \<Rightarrow> bool" where
  "need_trans m \<longleftrightarrow> (case satp m of None \<Rightarrow> False | Some s \<Rightarrow> satp_mode s \<noteq> 0)"

text \<open>The permission bits of an entry are copies of bits of its flags.\<close>

definition tlb_denied :: "tlb_entry \<Rightarrow> access_type \<Rightarrow> bool" where
  "tlb_denied e type \<longleftrightarrow>
     (let r = bit (tflags e) 1; w = bit (tflags e) 2; x = bit (tflags e) 3
      in type = FETCH \<and> (\<not> r \<or> \<not> x) \<or> type = LOAD \<and> \<not> r \<or> type = STORE \<and> \<not> w)"

definition tlb_match :: "u64 \<Rightarrow> tlb_entry \<Rightarrow> bool" where
  "tlb_match vAddr e \<longleftrightarrow> tvalid e \<and> vpn e = drop_bit (unat (size_bits e)) vAddr"

text \<open>The second component is the buffer with its use bits updated; a fault comes after the update.\<close>

definition tlbLookup :: "tlb_entry list \<Rightarrow> u64 \<Rightarrow> access_type \<Rightarrow> (mu_error + (u64 \<times> u64) option) \<times> tlb_entry list" where
  "tlbLookup t vAddr type =
     (case first_index (tlb_match vAddr) t of
        None \<Rightarrow> (Inr None, t)
      | Some i \<Rightarrow>
          let t1 = t[i := (t ! i)\<lparr>mru_bit := True\<rparr>];
              t2 = (if list_all (\<lambda>e. tvalid e \<longrightarrow> mru_bit e) t1
                    then (map (\<lambda>e. e\<lparr>mru_bit := False\<rparr>) t1)[i := (t1 ! i)\<lparr>mru_bit := True\<rparr>] else t1)
          in (if tlb_denied (t ! i) type then Inl Page_Fault_Exception
              else Inr (Some (ucast (pfn (t ! i)), size_bits (t ! i))), t2))"

definition tlbAdd :: "mem_unit \<Rightarrow> u64 \<Rightarrow> u64 \<Rightarrow> u32 \<Rightarrow> u64 \<Rightarrow> mem_unit" where
  "tlbAdd m virt phys flags sbits =
     (let e = \<lparr>vpn = virt div pageSize m, pfn = ucast (phys div pageSize m), tflags = flags, mru_bit = True,
               size_bits = sbits, tvalid = True\<rparr>
      in case first_index (\<lambda>e. \<not> tvalid e) (tlb m) of
           Some i \<Rightarrow> m\<lparr>tlb := (tlb m)[i := e]\<rparr>
         | None \<Rightarrow>
             (case first_index (\<lambda>e. \<not> mru_bit e) (tlb m) of
                Some i \<Rightarrow> m\<lparr>tlb := (tlb m)[i := e], TLB_EVICT := TLB_EVICT m + 1\<rparr>
              | None \<Rightarrow> m\<lparr>tlb := (tlb m)[0 := e], TLB_EVICT := TLB_EVICT m + 1\<rparr>))"

definition tlbRm :: "mem_unit \<Rightarrow> u64 \<Rightarrow> mem_unit" where
  "tlbRm m va =
     (case first_index (\<lambda>e. tvalid e \<and> vpn e = va div pageSize m) (tlb m) of
        Some i \<Rightarrow> m\<lparr>tlb := (tlb m)[i := (tlb m ! i)\<lparr>tvalid := False\<rparr>]\<rparr>
      | None \<Rightarrow> m)"

definition tlbFlush :: "mem_unit \<Rightarrow> mem_unit" where
  "tlbFlush m = m\<lparr>tlb := map (\<lambda>e. e\<lparr>tvalid := False\<rparr>) (tlb m)\<rparr>"

text \<open>
  The walk, by the level of the entry it reads.  The assertions before each \<open>throw\<close> make a debug build
  abort where a release build throws; both are the fault.  The result is the frame, the flags and the
  page size that the walk reports through its pointer argument.
\<close>

definition walk_denied :: "pte_t \<Rightarrow> access_type \<Rightarrow> bool" where
  "walk_denied p type \<longleftrightarrow>
     type = FETCH \<and> (\<not> pte_r p \<or> \<not> pte_x p) \<or> type = LOAD \<and> \<not> pte_r p \<or> type = STORE \<and> \<not> pte_w p"

fun mmu_walk :: "bool \<Rightarrow> decoder \<Rightarrow> u64 list \<Rightarrow> access_type \<Rightarrow> nat \<Rightarrow> u64 \<Rightarrow> (mu_error + u64 \<times> u8) \<times> decoder" where
  "mmu_walk rv64 d vpns type i base =
     (case dec_read d (pt_entry_addr rv64 base (vpns ! i)) (of_nat (VM_PTE_SIZE rv64)) of
        (Inl e, d1) \<Rightarrow> (Inl (Dev e), d1)
      | (Inr bs, d1) \<Rightarrow>
          (case pte_of rv64 (le_word bs) of
             None \<Rightarrow> (Inl (Dev Aborts), d1)
           | Some p \<Rightarrow>
               if pte_bytes p AND 0xFFFFFFFF = 0xbaadf00d then (Inl (Dev Aborts), d1)
               else if \<not> pte_v p \<or> \<not> pte_r p \<and> pte_w p then (Inl Page_Fault_Exception, d1)
               else if \<not> pte_r p \<and> \<not> pte_w p \<and> \<not> pte_x p then
                 (case i of 0 \<Rightarrow> (Inl Page_Fault_Exception, d1) | Suc j \<Rightarrow> mmu_walk rv64 d1 vpns type j (pte_ppn p))
               else if walk_denied p type then (Inl Page_Fault_Exception, d1)
               else (Inr (pte_ppn p, ucast (pte_flags p)), d1)))"

declare mmu_walk.simps [simp del]

definition page_table_walk :: "bool \<Rightarrow> mem_unit \<Rightarrow> u64 \<Rightarrow> access_type \<Rightarrow> (mu_error + u64 \<times> u8 \<times> u64) \<times> mem_unit" where
  "page_table_walk rv64 m va type =
     (case (vaddr_of rv64 va, satp m) of
        (Some v, Some s) \<Rightarrow>
          (case mmu_walk rv64 (mdecoder m) (va_vpn v) type (VM_PT_LEVEL rv64 - 1) (satp_ppn s) of
             (Inl e, d) \<Rightarrow> (Inl e, m\<lparr>mdecoder := d\<rparr>)
           | (Inr (ppn, flags), d) \<Rightarrow> (Inr (ppn, flags, 12), m\<lparr>mdecoder := d\<rparr>))
      | _ \<Rightarrow> (Inl (Dev Aborts), m))"

text \<open>The offset mask is computed in \<open>int\<close> and sign extended.\<close>

definition page_addr :: "u64 \<Rightarrow> u64 \<Rightarrow> u64 \<Rightarrow> u64" where
  "page_addr frame sbits va = push_bit (unat sbits) frame + (va AND scast (push_bit (unat sbits) 1 - 1 :: u32))"

definition vAddr_to_pAddr :: "bool \<Rightarrow> mem_unit \<Rightarrow> u64 \<Rightarrow> access_type \<Rightarrow> (mu_error + u64) \<times> mem_unit" where
  "vAddr_to_pAddr rv64 m va type =
     (if \<not> need_trans m then (Inr va, m)
      else case tlbLookup (tlb m) va type of
        (Inl e, t) \<Rightarrow> (Inl e, m\<lparr>tlb := t\<rparr>)
      | (Inr (Some (frame, sbits)), t) \<Rightarrow> (Inr (page_addr frame sbits va), m\<lparr>tlb := t, TLB_HIT := TLB_HIT m + 1\<rparr>)
      | (Inr None, t) \<Rightarrow>
          (case page_table_walk rv64 m va type of
             (Inl e, m1) \<Rightarrow> (Inl e, m1)
           | (Inr (frame, flags, sbits), m1) \<Rightarrow>
               let m2 = tlbAdd m1 (drop_bit (unat sbits) va) frame (ucast flags) sbits;
                   u = List.insert (drop_bit (unat sbits) va) (unique_translations m2)
               in (Inr (page_addr frame sbits va),
                   m2\<lparr>TLB_MISS := TLB_MISS m2 + 1, PTW := PTW m2 + 1, unique_translations := u,
                      PERF_UNIQUE_PTW := of_nat (length u)\<rparr>)))"

definition mem_read :: "bool \<Rightarrow> mem_unit \<Rightarrow> u64 \<Rightarrow> u32 \<Rightarrow> access_type \<Rightarrow> (mu_error + u8 list) \<times> mem_unit" where
  "mem_read rv64 m addr sz type =
     (case vAddr_to_pAddr rv64 m addr type of
        (Inl e, m1) \<Rightarrow> (Inl e, m1)
      | (Inr p, m1) \<Rightarrow>
          (case dec_read (mdecoder m1) p (ucast sz) of
             (Inl e, d) \<Rightarrow> (Inl (Dev e), m1\<lparr>mdecoder := d\<rparr>)
           | (Inr bs, d) \<Rightarrow> (Inr bs, m1\<lparr>mdecoder := d\<rparr>)))"

definition mem_write :: "bool \<Rightarrow> mem_unit \<Rightarrow> u64 \<Rightarrow> u8 list \<Rightarrow> access_type \<Rightarrow> mu_error option \<times> mem_unit" where
  "mem_write rv64 m addr data type =
     (case vAddr_to_pAddr rv64 m addr type of
        (Inl e, m1) \<Rightarrow> (Some e, m1)
      | (Inr p, m1) \<Rightarrow>
          (case dec_write (mdecoder m1) p data of
             (Some e, d) \<Rightarrow> (Some (Dev e), m1\<lparr>mdecoder := d\<rparr>)
           | (None, d) \<Rightarrow> (None, m1\<lparr>mdecoder := d, amo_valid := False\<rparr>)))"

definition amo_reserve :: "bool \<Rightarrow> mem_unit \<Rightarrow> u64 \<Rightarrow> mu_error option \<times> mem_unit" where
  "amo_reserve rv64 m addr =
     (case vAddr_to_pAddr rv64 m addr LOAD of
        (Inl e, m1) \<Rightarrow> (Some e, m1)
      | (Inr p, m1) \<Rightarrow> (None, m1\<lparr>amo_addr := p, amo_valid := True\<rparr>))"

definition amo_check :: "bool \<Rightarrow> mem_unit \<Rightarrow> u64 \<Rightarrow> (mu_error + bool) \<times> mem_unit" where
  "amo_check rv64 m addr =
     (case vAddr_to_pAddr rv64 m addr LOAD of
        (Inl e, m1) \<Rightarrow> (Inl e, m1)
      | (Inr p, m1) \<Rightarrow> (Inr (amo_valid m1 \<and> amo_addr m1 = p), m1))"

section \<open>Lemmas\<close>

subsection \<open>A unit with one memory\<close>

definition flat_mem :: "decoder \<Rightarrow> ram \<Rightarrow> bool" where
  "flat_mem d r \<longleftrightarrow> entries d = [(0, 0, - 1)] \<and> devices d = [Dev_RAM r] \<and> ram_ok r \<and> capacity r = 0 \<and> \<not> check_acl r"

definition ram_pte :: "bool \<Rightarrow> ram \<Rightarrow> u64 \<Rightarrow> u64" where
  "ram_pte rv64 r a = le_word (map (\<lambda>i. ram_byte r (a + of_nat i)) [0..<VM_PTE_SIZE rv64])"

lemma ram_pte_cong: "ram_byte r' = ram_byte r \<Longrightarrow> ram_pte rv64 r' = ram_pte rv64 r"
  by (simp add: ram_pte_def fun_eq_iff)

lemma flat_read:
  assumes "flat_mem d r" "0 < n" "n < 256" "unat a < 2 ^ 63"
  obtains d' r' where "dec_read d a (of_nat n) = (Inr (map (\<lambda>i. ram_byte r (a + of_nat i)) [0..<n]), d')"
    "flat_mem d' r'" "ram_byte r' = ram_byte r"
proof -
  have r: "ram_ok r" "capacity r = 0" "\<not> check_acl r" using assms(1) by (auto simp: flat_mem_def)
  have un: "unat (of_nat n :: u64) = n" using assms(3) by (simp add: unat_of_nat)
  have "unat (ucast (of_nat n :: u64) - 1 :: u32) = n - 1"
  proof -
    have "unat (ucast (of_nat n :: u64) :: u32) = n" using assms(3) by (simp add: unsigned_ucast_eq unat_of_nat take_bit_eq_mod)
    moreover from this have "(ucast (of_nat n :: u64) :: u32) \<noteq> 0" using assms(2) by auto
    ultimately show ?thesis by (simp add: unat_minus_one)
  qed
  then have "unat (ucast (ucast (of_nat n :: u64) - 1 :: u32) :: u64) = n - 1"
    using assms(3) by (simp add: unsigned_ucast_eq take_bit_eq_mod)
  then have "a + ucast (ucast (of_nat n :: u64) - 1 :: u32) \<ge> a"
    using assms(3,4) by (simp add: word_le_nat_alt unat_word_ariths)
  then have look: "dec_lookup d a (ucast (of_nat n :: u64)) = Inr (Some (0, a))"
    using assms(1) by (simp add: dec_lookup_def flat_mem_def Let_def)
  have "range_ok r a (unat (of_nat n :: u64))" using r(2) by (simp add: range_ok_def)
  then obtain r' where rd: "ram_read r a (of_nat n) = (Inr (map (\<lambda>i. ram_byte r (a + of_nat i)) [0..<n]), r')"
    "ram_ok r'" "ram_frame r r'" "ram_byte r' = ram_byte r"
    using ram_read_spec[OF r(1)] r(3) un by metis
  have "flat_mem (d\<lparr>devices := [Dev_RAM r']\<rparr>) r'" using assms(1) rd(2,3) by (simp add: flat_mem_def ram_frame_def)
  moreover have "dec_read d a (of_nat n) = (Inr (map (\<lambda>i. ram_byte r (a + of_nat i)) [0..<n]), d\<lparr>devices := [Dev_RAM r']\<rparr>)"
    using look rd(1) assms(1) by (simp add: dec_read_def flat_mem_def)
  ultimately show ?thesis using that rd(4) by blast
qed

lemma entry_addr_bound:
  assumes "base < 2 ^ 44" "idx < 1024"
  shows "unat (pt_entry_addr rv64 base idx) < 2 ^ 63"
proof -
  have b: "unat base < 2 ^ 44" "unat idx < 1024" using assms by (simp_all add: word_less_nat_alt unat_power2)
  have "unat (pt_entry_addr rv64 base idx) \<le> unat base * 4096 + unat idx * VM_PTE_SIZE rv64"
    unfolding pt_entry_addr_def VM_PT_SIZE_def VM_PAGE_SIZE_def VM_PTE_SIZE_def
    by (simp add: unat_word_ariths)
      (intro conjI impI order.trans[OF mod_less_eq_dividend] add_mono mod_less_eq_dividend)
  also have "\<dots> < 2 ^ 63" using b by (simp add: VM_PTE_SIZE_def)
  finally show ?thesis .
qed

lemma fbits_less: "e - s + 1 \<le> k \<Longrightarrow> k < 64 \<Longrightarrow> fbits x s e < 2 ^ k"
proof -
  assume k: "e - s + 1 \<le> k" "k < 64"
  have "take_bit k (fbits x s e) = fbits x s e"
    by (rule word_eq_by_bits) (use k in \<open>auto simp: bit_simps bit_fbits\<close>)
  then have "unat (fbits x s e) = take_bit k (unat (fbits x s e))" by (metis unsigned_take_bit_eq)
  then have "unat (fbits x s e) < 2 ^ k" by (metis take_bit_nat_less_exp)
  then show ?thesis using k by (simp add: word_less_nat_alt unat_power2)
qed

lemma pte_ppn_less: "pte_of rv64 b = Some p \<Longrightarrow> pte_ppn p < 2 ^ 44"
  using fbits_less[of 53 10 44 b] fbits_less[of 31 10 44 b] pte_of_fields(1)[of rv64 b p] by simp

lemma pte_uninit:
  assumes "pte_of rv64 b = Some p" "pte_bytes p AND 0xFFFFFFFF = 0xbaadf00d"
  shows "\<not> pte_r p" "pte_w p"
proof -
  have m: "(0xFFFFFFFF :: u64) = mask 32" by (simp add: mask_eq_exp_minus_1)
  have "b AND mask 32 = 0xbaadf00d" using assms pte_of_fields(3)[OF assms(1)] unfolding m by simp
  then have "bit (b AND mask 32) n = bit (0xbaadf00d :: u64) n" for n by simp
  from this[of 1] this[of 2] have "\<not> bit b 1" "bit b 2" by (simp_all add: bit_simps)
  then show "\<not> pte_r p" "pte_w p" using pte_of_fields(5,6)[OF assms(1)] by auto
qed

text \<open>The walk finds the entry of the reference, refuses the accesses its permissions forbid, and faults otherwise.\<close>

lemma mmu_walk_flat:
  assumes "flat_mem d r" "base < 2 ^ 44" "\<And>k. k \<le> i \<Longrightarrow> vpns ! k < 1024"
  shows "\<exists>res d' r'. mmu_walk rv64 d vpns type i base = (res, d') \<and> flat_mem d' r' \<and> ram_byte r' = ram_byte r
    \<and> (case pt_leaf rv64 (ram_pte rv64 r) vpns i base of
         None \<Rightarrow> \<exists>e. res = Inl e
       | Some (p, l) \<Rightarrow> res = (if walk_denied p type then Inl Page_Fault_Exception else Inr (pte_ppn p, ucast (pte_flags p))))"
  using assms
proof (induction i arbitrary: d r base)
  case (0 d r base)
  have sz: "0 < VM_PTE_SIZE rv64" "VM_PTE_SIZE rv64 < 256" by (simp_all add: VM_PTE_SIZE_def)
  obtain d' r' where rd: "dec_read d (pt_entry_addr rv64 base (vpns ! 0)) (of_nat (VM_PTE_SIZE rv64))
      = (Inr (map (\<lambda>i. ram_byte r (pt_entry_addr rv64 base (vpns ! 0) + of_nat i)) [0..<VM_PTE_SIZE rv64]), d')"
    "flat_mem d' r'" "ram_byte r' = ram_byte r"
    by (rule flat_read[OF 0(1) sz entry_addr_bound[OF 0(2) 0(3)[OF order.refl]]])
  show ?case using rd pte_uninit[of rv64]
    by (auto simp: mmu_walk.simps[of _ _ _ _ 0] pt_leaf.simps[of _ _ _ 0] ram_pte_def[symmetric] split: option.splits)
next
  case (Suc i d r base)
  have sz: "0 < VM_PTE_SIZE rv64" "VM_PTE_SIZE rv64 < 256" by (simp_all add: VM_PTE_SIZE_def)
  let ?a = "pt_entry_addr rv64 base (vpns ! Suc i)"
  obtain d' r' where rd: "dec_read d ?a (of_nat (VM_PTE_SIZE rv64))
      = (Inr (map (\<lambda>i. ram_byte r (?a + of_nat i)) [0..<VM_PTE_SIZE rv64]), d')"
    "flat_mem d' r'" "ram_byte r' = ram_byte r"
    by (rule flat_read[OF Suc.prems(1) sz entry_addr_bound[OF Suc.prems(2) Suc.prems(3)[OF order.refl]]])
  have fold: "le_word (map (\<lambda>i. ram_byte r (?a + of_nat i)) [0..<VM_PTE_SIZE rv64]) = ram_pte rv64 r ?a"
    by (simp add: ram_pte_def)
  show ?case
  proof (cases "\<exists>p. pte_of rv64 (ram_pte rv64 r ?a) = Some p \<and> pte_v p \<and> \<not> pte_r p \<and> \<not> pte_w p \<and> \<not> pte_x p")
    case True
    then obtain p where p: "pte_of rv64 (ram_pte rv64 r ?a) = Some p" "pte_v p" "\<not> pte_r p" "\<not> pte_w p" "\<not> pte_x p" by blast
    have nu: "pte_bytes p AND 0xFFFFFFFF \<noteq> 0xbaadf00d" using pte_uninit[OF p(1)] p(4) by blast
    have w: "mmu_walk rv64 d vpns type (Suc i) base = mmu_walk rv64 d' vpns type i (pte_ppn p)"
      using rd(1) p nu by (simp add: mmu_walk.simps[of _ _ _ _ "Suc i"] fold)
    have l: "pt_leaf rv64 (ram_pte rv64 r) vpns (Suc i) base = pt_leaf rv64 (ram_pte rv64 r) vpns i (pte_ppn p)"
      using p by (simp add: pt_leaf.simps[of _ _ _ "Suc i"])
    have "vpns ! k < 1024" if "k \<le> i" for k using Suc.prems(3) that by simp
    from Suc.IH[OF rd(2) pte_ppn_less[OF p(1)] this]
    show ?thesis unfolding w l ram_pte_cong[OF rd(3)] rd(3) .
  next
    case False
    have np: "pt_leaf rv64 (ram_pte rv64 r) vpns (Suc i) base = (case pte_of rv64 (ram_pte rv64 r ?a) of None \<Rightarrow> None
        | Some p \<Rightarrow> if \<not> pte_v p \<or> \<not> pte_r p \<and> pte_w p then None else Some (p, Suc i))"
      using False by (auto simp: pt_leaf.simps[of _ _ _ "Suc i"] split: option.splits)
    show ?thesis using rd False pte_uninit[of rv64 "ram_pte rv64 r ?a"]
      unfolding np by (auto simp: mmu_walk.simps[of _ _ _ _ "Suc i"] fold split: option.splits)
  qed
qed

lemma vaddr_indices:
  assumes "vaddr_of rv64 va = Some v" "k \<le> VM_PT_LEVEL rv64 - 1"
  shows "va_vpn v ! k < 1024"
proof -
  have f: "fbits va s e < 1024" if "e - s + 1 \<le> 10" for s e using fbits_less[OF that] by simp
  show ?thesis
  proof (cases rv64)
    case True
    then have "va_vpn v = [fbits va 12 20, fbits va 21 29, fbits va 30 38]" "k = 0 \<or> k = 1 \<or> k = 2"
      using assms by (auto simp: vaddr_of_def VM_PT_LEVEL_def)
    then show ?thesis using f by auto
  next
    case False
    then have "va_vpn v = [fbits va 12 21, fbits va 22 31]" "k = 0 \<or> k = 1"
      using assms by (auto simp: vaddr_of_def VM_PT_LEVEL_def split: if_splits)
    then show ?thesis using f by auto
  qed
qed

lemma satp_ppn_less: "satp_ppn (satp_of rv64 v) < 2 ^ 44"
  using fbits_less[of 43 0 44 v] fbits_less[of 21 0 44 v] by (simp add: satp_of_def Let_def)

definition ref_leaf :: "bool \<Rightarrow> ram \<Rightarrow> u64 \<Rightarrow> u64 \<Rightarrow> (pte_t \<times> nat) option" where
  "ref_leaf rv64 r root va =
     (case vaddr_of rv64 va of
        None \<Rightarrow> None
      | Some v \<Rightarrow> pt_leaf rv64 (ram_pte rv64 r) (va_vpn v) (VM_PT_LEVEL rv64 - 1) root)"

lemma walk_flat:
  assumes "flat_mem (mdecoder m) r" "satp m = Some (satp_of rv64 sv)"
  shows "\<exists>res d' r'. page_table_walk rv64 m va type = (res, m\<lparr>mdecoder := d'\<rparr>) \<and> flat_mem d' r' \<and> ram_byte r' = ram_byte r
    \<and> (case ref_leaf rv64 r (satp_ppn (satp_of rv64 sv)) va of
         None \<Rightarrow> \<exists>e. res = Inl e
       | Some (p, l) \<Rightarrow> res = (if walk_denied p type then Inl Page_Fault_Exception else Inr (pte_ppn p, ucast (pte_flags p), 12)))"
proof (cases "vaddr_of rv64 va")
  case None
  then show ?thesis using assms by (intro exI[of _ "Inl (Dev Aborts)"] exI[of _ "mdecoder m"] exI[of _ r])
      (simp add: page_table_walk_def ref_leaf_def)
next
  case (Some v)
  let ?root = "satp_ppn (satp_of rv64 sv)" and ?top = "VM_PT_LEVEL rv64 - 1"
  let ?ok = "\<lambda>res. case pt_leaf rv64 (ram_pte rv64 r) (va_vpn v) ?top ?root of
         None \<Rightarrow> \<exists>e. res = Inl e
       | Some (p, l) \<Rightarrow> res = (if walk_denied p type then Inl Page_Fault_Exception else Inr (pte_ppn p, ucast (pte_flags p)))"
  have "\<exists>res d' r'. mmu_walk rv64 (mdecoder m) (va_vpn v) type ?top ?root = (res, d') \<and> flat_mem d' r'
      \<and> ram_byte r' = ram_byte r \<and> ?ok res"
    by (rule mmu_walk_flat[OF assms(1) satp_ppn_less]) (rule vaddr_indices[OF Some])
  then obtain res d' r' where w: "mmu_walk rv64 (mdecoder m) (va_vpn v) type ?top ?root = (res, d')"
    "flat_mem d' r'" "ram_byte r' = ram_byte r" "?ok res" by (elim exE conjE)
  let ?res = "case res of Inl e \<Rightarrow> Inl e | Inr (ppn, flags) \<Rightarrow> Inr (ppn, flags, 12)"
  have "page_table_walk rv64 m va type = (?res, m\<lparr>mdecoder := d'\<rparr>)"
    using Some assms(2) w(1) by (auto simp: page_table_walk_def split: sum.splits)
  moreover have "case ref_leaf rv64 r ?root va of
         None \<Rightarrow> \<exists>e. ?res = Inl e
       | Some (p, l) \<Rightarrow> ?res = (if walk_denied p type then Inl Page_Fault_Exception else Inr (pte_ppn p, ucast (pte_flags p), 12))"
    using w(4) Some by (auto simp: ref_leaf_def split: option.splits)
  ultimately show ?thesis using w(2,3) by blast
qed

lemma first_index_None: "first_index P xs = None \<longleftrightarrow> list_all (\<lambda>x. \<not> P x) xs"
  by (induction xs) auto

lemma first_index_Some: "first_index P xs = Some i \<Longrightarrow> i < length xs \<and> P (xs ! i) \<and> (\<forall>j < i. \<not> P (xs ! j))"
proof (induction xs arbitrary: i)
  case (Cons x xs)
  then show ?case by (cases i) (auto split: if_splits simp: less_Suc_eq_0_disj)
qed simp

lemma bit_page_addr: "bit (page_addr ppn 12 va) n \<longleftrightarrow> n < 64 \<and> (12 \<le> n \<and> bit ppn (n - 12) \<or> n < 12 \<and> bit va n)"
proof -
  have m: "(scast (push_bit 12 1 - 1 :: u32) :: u64) = mask 12" by (simp add: mask_eq_exp_minus_1)
  have u: "unat (12 :: u64) = 12" by simp
  have "page_addr ppn 12 va = push_bit 12 ppn OR (va AND mask 12)"
    unfolding page_addr_def u m by (rule disjunctive_add) (auto simp: bit_simps)
  then show ?thesis by (auto simp: bit_simps)
qed

lemma bit_leaf_addr:
  assumes "12 + i * VPN_BITS rv64 \<le> 64"
  shows "bit (leaf_addr rv64 ppn i va) n \<longleftrightarrow>
    n < 64 \<and> (12 + i * VPN_BITS rv64 \<le> n \<and> bit ppn (n - 12) \<or> n < 12 + i * VPN_BITS rv64 \<and> bit va n)"
proof -
  have m: "off_mask rv64 i = mask (12 + i * VPN_BITS rv64)"
    by (simp add: off_mask_def VM_PAGE_LOG2_SIZE_def mask_eq_exp_minus_1 word_push_bit_one)
  show ?thesis unfolding leaf_addr_def m VM_PAGE_LOG2_SIZE_def by (auto simp: bit_simps)
qed

lemma page_leaf_addr:
  assumes "i \<le> 2"
  shows "page_addr ppn 12 va = leaf_addr rv64 ppn i va \<longleftrightarrow>
    take_bit (i * VPN_BITS rv64) ppn = take_bit (i * VPN_BITS rv64) (drop_bit 12 va)"
proof -
  define k where "k = i * VPN_BITS rv64"
  have k: "k \<le> 20" using assms by (cases rv64) (auto simp: k_def VPN_BITS_value)
  have b: "bit (leaf_addr rv64 ppn i va) n \<longleftrightarrow> n < 64 \<and> (12 + k \<le> n \<and> bit ppn (n - 12) \<or> n < 12 + k \<and> bit va n)" for n
    using bit_leaf_addr[of i rv64 ppn va n] k by (simp add: k_def)
  have "page_addr ppn 12 va = leaf_addr rv64 ppn i va \<longleftrightarrow> (\<forall>n. 12 \<le> n \<and> n < 12 + k \<longrightarrow> bit ppn (n - 12) = bit va n)"
  proof
    assume eq: "page_addr ppn 12 va = leaf_addr rv64 ppn i va"
    show "\<forall>n. 12 \<le> n \<and> n < 12 + k \<longrightarrow> bit ppn (n - 12) = bit va n"
    proof (intro allI impI)
      fix n assume "12 \<le> n \<and> n < 12 + k"
      then show "bit ppn (n - 12) = bit va n" using b[of n] bit_page_addr[of ppn va n] k unfolding eq by auto
    qed
  next
    assume *: "\<forall>n. 12 \<le> n \<and> n < 12 + k \<longrightarrow> bit ppn (n - 12) = bit va n"
    show "page_addr ppn 12 va = leaf_addr rv64 ppn i va"
      by (rule word_eq_by_bits) (use * k in \<open>auto simp: b bit_page_addr not_less\<close>)
  qed
  also have "\<dots> \<longleftrightarrow> (\<forall>n < k. bit ppn n = bit va (12 + n))"
  proof (rule iffI; intro allI impI)
    fix n assume "\<forall>n. 12 \<le> n \<and> n < 12 + k \<longrightarrow> bit ppn (n - 12) = bit va n" "n < k"
    from this(1)[rule_format, of "12 + n"] this(2) show "bit ppn n = bit va (12 + n)" by simp
  next
    fix n assume "\<forall>n < k. bit ppn n = bit va (12 + n)" "12 \<le> n \<and> n < 12 + k"
    from this(1)[rule_format, of "n - 12"] this(2) show "bit ppn (n - 12) = bit va n" by auto
  qed
  also have "\<dots> \<longleftrightarrow> take_bit k ppn = take_bit k (drop_bit 12 va)"
  proof -
    have lt: "n < 64" if "n < k" for n using k that by simp
    show ?thesis by (auto simp: bit_eq_iff bit_simps dest: lt)
  qed
  finally show ?thesis by (simp add: k_def)
qed

section \<open>Properties\<close>

text \<open>
  C37. Address translation follows the page table.  For an address no translation buffer entry matches,
  the unit translates by the entry the reference walk finds, refuses the access when the permissions
  of that entry forbid it, faults when there is no such entry, and leaves the memory unchanged; for an
  entry at the lowest level the result is the address the entry gives.
\<close>

theorem mmu_translates_by_page_table:
  assumes "flat_mem (mdecoder m) r" "satp m = Some (satp_of rv64 sv)" "need_trans m"
    "list_all (\<lambda>e. \<not> tlb_match va e) (tlb m)"
  shows "\<exists>res m' r'. vAddr_to_pAddr rv64 m va type = (res, m') \<and> flat_mem (mdecoder m') r' \<and> ram_byte r' = ram_byte r
    \<and> (case ref_leaf rv64 r (satp_ppn (satp_of rv64 sv)) va of
         None \<Rightarrow> \<exists>e. res = Inl e
       | Some (p, i) \<Rightarrow>
           res = (if walk_denied p type then Inl Page_Fault_Exception else Inr (page_addr (pte_ppn p) 12 va))
           \<and> (i = 0 \<longrightarrow> page_addr (pte_ppn p) 12 va = leaf_addr rv64 (pte_ppn p) 0 va))"
proof -
  let ?ok = "\<lambda>res. case ref_leaf rv64 r (satp_ppn (satp_of rv64 sv)) va of
         None \<Rightarrow> \<exists>e. res = Inl e
       | Some (p, l) \<Rightarrow> res = (if walk_denied p type then Inl Page_Fault_Exception else Inr (pte_ppn p, ucast (pte_flags p), 12))"
  obtain res d' r' where w: "page_table_walk rv64 m va type = (res, m\<lparr>mdecoder := d'\<rparr>)" "flat_mem d' r'"
    "ram_byte r' = ram_byte r" "?ok res" using walk_flat[OF assms(1,2), of va type] by (elim exE conjE)
  have miss: "tlbLookup (tlb m) va type = (Inr None, tlb m)"
    using assms(4) first_index_None[of "tlb_match va" "tlb m"] by (simp add: tlbLookup_def)
  have z: "page_addr ppn 12 va = leaf_addr rv64 ppn 0 va" for ppn using page_leaf_addr[of 0 ppn va rv64] by simp
  have dec: "mdecoder (tlbAdd q a b c e) = mdecoder q" for q a b c e
    by (simp add: tlbAdd_def Let_def split: option.splits)
  show ?thesis
  proof (cases res)
    case (Inl e)
    then have "vAddr_to_pAddr rv64 m va type = (Inl e, m\<lparr>mdecoder := d'\<rparr>)"
      using assms(3) miss w(1) by (simp add: vAddr_to_pAddr_def)
    then show ?thesis using w(2-4) Inl z by (auto split: option.splits if_splits)
  next
    case (Inr q)
    then obtain frame flags sb where q: "res = Inr (frame, flags, sb)" by (cases q) auto
    then have sb: "sb = 12" using w(4) by (auto split: option.splits if_splits)
    obtain m' where "vAddr_to_pAddr rv64 m va type = (Inr (page_addr frame 12 va), m')" "mdecoder m' = d'"
      using assms(3) miss w(1) q sb by (simp add: vAddr_to_pAddr_def Let_def dec)
    then show ?thesis using w(2-4) q z by (auto split: option.splits if_splits)
  qed
qed

lemma pt_leaf_level: "pt_leaf rv64 rd vpns i base = Some (p, l) \<Longrightarrow> l \<le> i"
proof (induction i arbitrary: base)
  case 0
  then show ?case by (auto simp: pt_leaf.simps[of _ _ _ 0] split: option.splits if_splits)
next
  case (Suc i)
  then show ?case by (fastforce simp: pt_leaf.simps[of _ _ _ "Suc i"] split: option.splits if_splits)
qed

lemma ref_leaf_level: "ref_leaf rv64 r root va = Some (p, l) \<Longrightarrow> l \<le> 2"
  by (auto simp: ref_leaf_def VM_PT_LEVEL_def split: option.splits if_splits dest: pt_leaf_level)

lemma ram_with_writes:
  "\<exists>r b. ram_ok r \<and> capacity r = 0 \<and> \<not> check_acl r \<and> ram_byte r = fold (\<lambda>(a, bs) m. put_bytes m a bs) ws b"
proof (induction ws rule: rev_induct)
  case Nil
  have p: "ispow2 (4096 :: u32)" by code_simp
  then obtain r where r: "ram_new 0 4096 = Some r" by (simp add: ram_new_def)
  from ram_new_ok[OF r] show ?case by auto
next
  case (snoc w ws)
  obtain r b where r: "ram_ok r" "capacity r = 0" "\<not> check_acl r" "ram_byte r = fold (\<lambda>(a, bs) m. put_bytes m a bs) ws b"
    using snoc by blast
  obtain a bs where w: "w = (a, bs)" by (cases w)
  have "range_ok r a (length bs)" using r(2) by (simp add: range_ok_def)
  then obtain r' where "ram_ok r'" "ram_frame r r'" "ram_byte r' = put_bytes (ram_byte r) a bs"
    using ram_write_spec[OF r(1)] r(3) by blast
  then show ?case using r by (intro exI[of _ r'] exI[of _ b]) (auto simp: ram_frame_def w)
qed

text \<open>A unit whose page table, at page 1, maps page 0 to frame 5 through a table at page 2.\<close>

definition demo_unit :: "ram \<Rightarrow> mem_unit" where
  "demo_unit r = (mem_unit_new 2 4096)\<lparr>mdecoder := \<lparr>entries = [(0, 0, - 1)], devices = [Dev_RAM r]\<rparr>,
     satp := Some (satp_of False 0x80000001)\<rparr>"

lemma demo_unit_ready:
  assumes "ram_ok r" "capacity r = 0" "\<not> check_acl r"
  shows "flat_mem (mdecoder (demo_unit r)) r" "satp (demo_unit r) = Some (satp_of False 0x80000001)"
    "need_trans (demo_unit r)" "list_all (\<lambda>e. \<not> tlb_match va e) (tlb (demo_unit r))" "list_all (\<lambda>e. \<not> tvalid e) (tlb (demo_unit r))"
    "tlb (demo_unit r) \<noteq> []" "pageSize (demo_unit r) = 4096"
proof -
  have "satp_mode (satp_of False 0x80000001) = 1" by code_simp
  then show "need_trans (demo_unit r)" by (simp add: need_trans_def demo_unit_def)
qed (use assms in \<open>simp_all add: flat_mem_def demo_unit_def mem_unit_new_def tlb_match_def numeral_2_eq_2\<close>)

lemma demo_ram:
  obtains r p where "ram_ok r" "capacity r = 0" "\<not> check_acl r" "ref_leaf False r 1 0x123 = Some (p, 0)" "pte_ppn p = 5"
    "pte_flags p = 0xF" "pte_r p"
proof -
  obtain r b where r: "ram_ok r" "capacity r = 0" "\<not> check_acl r"
    "ram_byte r = fold (\<lambda>(a, bs) m. put_bytes m a bs) [(0x1000, [1, 8, 0, 0]), (0x2000, [0xF, 0x14, 0, 0])] b"
    using ram_with_writes[of "[(0x1000, [1, 8, 0, 0]), (0x2000, [0xF, 0x14, 0, 0])]"] by blast
  have v: "vaddr_of False 0x123 = Some \<lparr>va_vpn = [0, 0], va_pgoff = 0x123, va_level = 2\<rparr>" by code_simp
  have a: "pt_entry_addr False 1 0 = 0x1000" "pt_entry_addr False 2 0 = 0x2000" by code_simp+
  have "ram_pte False r 0x1000 = le_word [1, 8, 0, 0 :: u8]" "ram_pte False r 0x2000 = le_word [0xF, 0x14, 0, 0 :: u8]"
    unfolding ram_pte_def r(4) VM_PTE_SIZE_def by (simp_all add: upt_rec)
  moreover have "le_word [1, 8, 0, 0 :: u8] = (0x801 :: u64)" "le_word [0xF, 0x14, 0, 0 :: u8] = (0x140F :: u64)" by code_simp+
  ultimately have e: "ram_pte False r 0x1000 = 0x801" "ram_pte False r 0x2000 = 0x140F" by simp_all
  obtain p1 where p1: "pte_of False 0x801 = Some p1" "pte_v p1" "\<not> pte_r p1" "\<not> pte_w p1" "\<not> pte_x p1" "pte_ppn p1 = 2"
  proof -
    have "\<exists>p. pte_of False 0x801 = Some p \<and> pte_v p \<and> \<not> pte_r p \<and> \<not> pte_w p \<and> \<not> pte_x p \<and> pte_ppn p = 2"
      by (simp add: pte_of_def Let_def) code_simp
    then show ?thesis using that by blast
  qed
  obtain p2 where p2: "pte_of False 0x140F = Some p2" "pte_v p2" "pte_r p2" "pte_w p2" "pte_x p2" "pte_ppn p2 = 5" "pte_flags p2 = 0xF"
  proof -
    have "\<exists>p. pte_of False 0x140F = Some p \<and> pte_v p \<and> pte_r p \<and> pte_w p \<and> pte_x p \<and> pte_ppn p = 5 \<and> pte_flags p = 0xF"
      by (simp add: pte_of_def Let_def) code_simp
    then show ?thesis using that by blast
  qed
  have "ref_leaf False r 1 0x123 = Some (p2, 0)"
    using p1 p2 by (simp add: ref_leaf_def v VM_PT_LEVEL_def pt_leaf.simps a e)
  then show ?thesis using that r(1-3) p2 by blast
qed

lemma demo_root: "satp_ppn (satp_of False 0x80000001) = 1"
  by code_simp

theorem mmu_translates_by_page_table_witness:
  "\<exists>r. fst (vAddr_to_pAddr False (demo_unit r) 0x123 LOAD) = Inr 0x5123"
proof -
  obtain r p where r: "ram_ok r" "capacity r = 0" "\<not> check_acl r" "ref_leaf False r 1 0x123 = Some (p, 0)" "pte_ppn p = 5"
    "pte_flags p = 0xF" "pte_r p" by (rule demo_ram)
  note d = demo_unit_ready[OF r(1-3)]
  have "page_addr 5 12 0x123 = 0x5123" by code_simp
  moreover from mmu_translates_by_page_table[OF d(1,2,3,4), of "0x123" LOAD] demo_root r(4,5,7)
  have "fst (vAddr_to_pAddr False (demo_unit r) 0x123 LOAD) = Inr (page_addr 5 12 0x123)"
    by (auto simp: walk_denied_def)
  ultimately show ?thesis by auto
qed

lemma vAddr_walk:
  assumes "flat_mem (mdecoder m) r" "satp m = Some (satp_of rv64 sv)" "need_trans m"
    "list_all (\<lambda>e. \<not> tlb_match va e) (tlb m)"
    "ref_leaf rv64 r (satp_ppn (satp_of rv64 sv)) va = Some (p, i)" "\<not> walk_denied p type"
  obtains m' d' where "vAddr_to_pAddr rv64 m va type = (Inr (page_addr (pte_ppn p) 12 va), m')"
    "tlb m' = tlb (tlbAdd (m\<lparr>mdecoder := d'\<rparr>) (drop_bit 12 va) (pte_ppn p) (ucast (ucast (pte_flags p) :: u8)) 12)"
    "satp m' = satp m" "pageSize m' = pageSize m"
proof -
  obtain d' where w: "page_table_walk rv64 m va type = (Inr (pte_ppn p, ucast (pte_flags p), 12), m\<lparr>mdecoder := d'\<rparr>)"
    using walk_flat[OF assms(1,2), of va type] assms(5,6) by auto
  have miss: "tlbLookup (tlb m) va type = (Inr None, tlb m)"
    using assms(4) first_index_None[of "tlb_match va" "tlb m"] by (simp add: tlbLookup_def)
  have s: "satp (tlbAdd q a b c e) = satp q" "pageSize (tlbAdd q a b c e) = pageSize q" for q a b c e
    by (simp_all add: tlbAdd_def Let_def split: option.splits)
  show ?thesis
    by (rule that[of "snd (vAddr_to_pAddr rv64 m va type)" d'])
      (use assms(3) miss w in \<open>simp_all add: vAddr_to_pAddr_def Let_def s\<close>)
qed

text \<open>A memory whose page table, at page 1, maps the first 4 MiB to those from 4 MiB on by one large page.\<close>

lemma demo_large_page:
  obtains r p where "ram_ok r" "capacity r = 0" "\<not> check_acl r" "ref_leaf False r 1 0x1123 = Some (p, 1)" "pte_ppn p = 0x400" "pte_r p"
proof -
  obtain r b where r: "ram_ok r" "capacity r = 0" "\<not> check_acl r" "ram_byte r = put_bytes b 0x1000 [0xF, 0, 0x10, 0]"
    using ram_with_writes[of "[(0x1000, [0xF, 0, 0x10, 0])]"] by auto
  have v: "vaddr_of False 0x1123 = Some \<lparr>va_vpn = [1, 0], va_pgoff = 0x123, va_level = 2\<rparr>" by code_simp
  have a: "pt_entry_addr False 1 0 = 0x1000" by code_simp
  have "ram_pte False r 0x1000 = le_word [0xF, 0, 0x10, 0 :: u8]"
    unfolding ram_pte_def r(4) VM_PTE_SIZE_def by (simp add: upt_rec)
  moreover have "le_word [0xF, 0, 0x10, 0 :: u8] = (0x10000F :: u64)" by code_simp
  ultimately have e: "ram_pte False r 0x1000 = 0x10000F" by simp
  have "\<exists>p. pte_of False 0x10000F = Some p \<and> pte_v p \<and> pte_r p \<and> pte_w p \<and> pte_x p \<and> pte_ppn p = 0x400"
    by (simp add: pte_of_def Let_def) code_simp
  then obtain p where p: "pte_of False 0x10000F = Some p" "pte_v p" "pte_r p" "pte_w p" "pte_x p" "pte_ppn p = 0x400" by blast
  then have "ref_leaf False r 1 0x1123 = Some (p, 1)" by (simp add: ref_leaf_def v VM_PT_LEVEL_def pt_leaf.simps a e)
  then show ?thesis using that r(1-3) p by blast
qed

text \<open>
  C38. The unit is wrong on large pages.  The walk reports a page size of 4 KiB whatever the level of the
  entry it found, and the unit adds the low 12 bits of the address to the frame.  So for an entry above the
  lowest level the result is the address the entry gives only where the index bits below that level are the
  low bits of the frame number: for an aligned large page, only in its first 4 KiB.
\<close>

theorem mmu_large_pages:
  assumes "flat_mem (mdecoder m) r" "satp m = Some (satp_of rv64 sv)" "need_trans m"
    "list_all (\<lambda>e. \<not> tlb_match va e) (tlb m)"
    "ref_leaf rv64 r (satp_ppn (satp_of rv64 sv)) va = Some (p, i)" "\<not> walk_denied p type"
  shows "fst (vAddr_to_pAddr rv64 m va type) = Inr (push_bit 12 (pte_ppn p) + take_bit 12 va)
    \<and> (fst (vAddr_to_pAddr rv64 m va type) = Inr (leaf_addr rv64 (pte_ppn p) i va) \<longleftrightarrow>
         take_bit (i * VPN_BITS rv64) (pte_ppn p) = take_bit (i * VPN_BITS rv64) (drop_bit 12 va))"
proof -
  obtain m' d' where v: "vAddr_to_pAddr rv64 m va type = (Inr (page_addr (pte_ppn p) 12 va), m')"
    by (rule vAddr_walk[OF assms])
  have "page_addr (pte_ppn p) 12 va = push_bit 12 (pte_ppn p) + take_bit 12 va" by (simp add: page_addr_def take_bit_eq_mask mask_eq_exp_minus_1)
  then show ?thesis using page_leaf_addr[OF ref_leaf_level[OF assms(5)], of "pte_ppn p" va rv64] by (simp add: v)
qed

text \<open>In a large page: address 0x1123 belongs at 0x401123, and the unit gives 0x400123.\<close>

theorem mmu_large_pages_witness:
  "\<exists>r p. ref_leaf False r 1 0x1123 = Some (p, 1) \<and> leaf_addr False (pte_ppn p) 1 0x1123 = 0x401123
     \<and> fst (vAddr_to_pAddr False (demo_unit r) 0x1123 LOAD) = Inr 0x400123
     \<and> fst (vAddr_to_pAddr False (demo_unit r) 0x1123 LOAD) \<noteq> Inr (leaf_addr False (pte_ppn p) 1 0x1123)"
proof -
  obtain r p where r: "ram_ok r" "capacity r = 0" "\<not> check_acl r" "ref_leaf False r 1 0x1123 = Some (p, 1)" "pte_ppn p = 0x400"
    "pte_r p" by (rule demo_large_page)
  note d = demo_unit_ready[OF r(1-3)]
  have l: "ref_leaf False r (satp_ppn (satp_of False 0x80000001)) 0x1123 = Some (p, 1)" using r(4) demo_root by simp
  have a: "leaf_addr False 0x400 1 0x1123 = 0x401123" "push_bit 12 0x400 + take_bit 12 0x1123 = (0x400123 :: u64)"
    "take_bit (1 * VPN_BITS False) 0x400 \<noteq> (take_bit (1 * VPN_BITS False) (drop_bit 12 0x1123) :: u64)" by code_simp+
  from mmu_large_pages[OF d(1,2,3,4) l, of LOAD] r(5,6) a
  have "fst (vAddr_to_pAddr False (demo_unit r) 0x1123 LOAD) = Inr 0x400123"
    "fst (vAddr_to_pAddr False (demo_unit r) 0x1123 LOAD) \<noteq> Inr (leaf_addr False (pte_ppn p) 1 0x1123)"
    by (simp_all only: walk_denied_def) simp_all
  then show ?thesis using r(4,5) a(1) by (intro exI[of _ r] exI[of _ p]) simp
qed

lemma pt_leaf_pte: "pt_leaf rv64 rd vpns i base = Some (p, l) \<Longrightarrow> \<exists>b. pte_of rv64 b = Some p"
proof (induction i arbitrary: base)
  case 0
  then show ?case by (auto simp: pt_leaf.simps[of _ _ _ 0] split: option.splits if_splits)
next
  case (Suc i)
  then show ?case by (auto simp: pt_leaf.simps[of _ _ _ "Suc i"] split: option.splits if_splits)
qed

lemma ref_leaf_flags:
  assumes "ref_leaf rv64 r root va = Some (p, l)" "k < 4"
  shows "bit (pte_flags p) k = [pte_v p, pte_r p, pte_w p, pte_x p] ! k"
proof -
  obtain b where b: "pte_of rv64 b = Some p" using assms(1) by (auto simp: ref_leaf_def split: option.splits dest: pt_leaf_pte)
  have "k = 0 \<or> k = 1 \<or> k = 2 \<or> k = 3" using assms(2) by auto
  then show ?thesis unfolding pte_of_fields[OF b] by (auto simp: bit_simps bit_fbits numeral_2_eq_2 numeral_3_eq_3)
qed

lemma drop_bit_twice: "drop_bit 12 (va :: u64) div 4096 = drop_bit 24 va"
  using drop_bit_eq_div[of 12 "drop_bit 12 va"] drop_bit_drop_bit[of 12 12 va] by simp

lemma drop_12_24: "drop_bit 12 va = drop_bit 24 va \<longleftrightarrow> (va :: u64) < 4096"
proof -
  have d: "unat (drop_bit 12 va) = unat va div 4096" "unat (drop_bit 24 va) = unat va div 16777216"
    by (simp_all add: drop_bit_eq_div unat_div)
  have "drop_bit 12 va = drop_bit 24 va \<longleftrightarrow> unat va div 4096 = unat va div 16777216"
    unfolding d[symmetric] by (simp add: word_unat_eq_iff)
  also have "\<dots> \<longleftrightarrow> unat va div 4096 = unat va div 4096 div 4096" by (simp add: div_mult2_eq[symmetric])
  also have "\<dots> \<longleftrightarrow> unat va div 4096 = 0" using div_less_dividend[of 4096 "unat va div 4096"] by auto
  also have "\<dots> \<longleftrightarrow> unat va < 4096" by (simp add: div_eq_0_iff)
  finally show ?thesis by (simp add: word_less_nat_alt)
qed

text \<open>
  C39. The translation buffer stores the wrong page.  A miss passes a page number where an address is
  expected, which is divided by the page size again: the new entry matches the addresses of page
  number \<open>va >> 24\<close> instead of \<open>va >> 12\<close> and gives them the frame number divided by 4096.  The
  address that was translated misses again unless it is in page 0, and an address of the other page
  is translated by the entry without a walk, whatever its own page table entry says.
\<close>

theorem tlb_entry_misplaced:
  assumes "flat_mem (mdecoder m) r" "satp m = Some (satp_of rv64 sv)" "need_trans m"
    "tlb m \<noteq> []" "list_all (\<lambda>e. \<not> tvalid e) (tlb m)" "pageSize m = 4096"
    "ref_leaf rv64 r (satp_ppn (satp_of rv64 sv)) va = Some (p, i)" "\<not> walk_denied p type"
  shows "\<exists>m'. vAddr_to_pAddr rv64 m va type = (Inr (page_addr (pte_ppn p) 12 va), m')
    \<and> (\<forall>other. first_index (tlb_match other) (tlb m') \<noteq> None \<longleftrightarrow> drop_bit 12 other = drop_bit 24 va)
    \<and> (first_index (tlb_match va) (tlb m') \<noteq> None \<longleftrightarrow> va < 4096)
    \<and> (\<forall>other. drop_bit 12 other = drop_bit 24 va \<longrightarrow>
          fst (vAddr_to_pAddr rv64 m' other LOAD) =
            (if pte_r p then Inr (page_addr (ucast (ucast (pte_ppn p div 4096) :: u32)) 12 other) else Inl Page_Fault_Exception))"
proof -
  have miss: "list_all (\<lambda>e. \<not> tlb_match va e) (tlb m)" using assms(5) by (auto simp: list_all_iff tlb_match_def)
  obtain m' d' where v: "vAddr_to_pAddr rv64 m va type = (Inr (page_addr (pte_ppn p) 12 va), m')"
    "tlb m' = tlb (tlbAdd (m\<lparr>mdecoder := d'\<rparr>) (drop_bit 12 va) (pte_ppn p) (ucast (ucast (pte_flags p) :: u8)) 12)"
    "satp m' = satp m" "pageSize m' = pageSize m"
    by (rule vAddr_walk[OF assms(1-3) miss assms(7,8)])
  obtain e0 rest where t: "tlb m = e0 # rest" using assms(4) by (cases "tlb m") auto
  define e where "e = \<lparr>vpn = drop_bit 24 va, pfn = ucast (pte_ppn p div 4096), tflags = ucast (ucast (pte_flags p) :: u8),
    mru_bit = True, size_bits = 12, tvalid = True\<rparr>"
  have t': "tlb m' = e # rest"
    using v(2) t assms(5,6) by (simp add: tlbAdd_def Let_def e_def drop_bit_twice)
  have rest: "first_index (tlb_match a) rest = None" for a
    using assms(5) t by (auto simp: first_index_None list_all_iff tlb_match_def)
  have hit: "first_index (tlb_match a) (tlb m') = (if drop_bit 12 a = drop_bit 24 va then Some 0 else None)" for a
    using rest by (auto simp: t' tlb_match_def e_def)
  have "need_trans m'" using assms(3) v(3) by (simp add: need_trans_def)
  have den: "tlb_denied e LOAD \<longleftrightarrow> \<not> pte_r p"
    using ref_leaf_flags[OF assms(7), of 1] by (simp add: tlb_denied_def e_def bit_simps)
  have look: "fst (vAddr_to_pAddr rv64 m' a LOAD) =
      (if pte_r p then Inr (page_addr (ucast (ucast (pte_ppn p div 4096) :: u32)) 12 a) else Inl Page_Fault_Exception)"
    if "drop_bit 12 a = drop_bit 24 va" for a
  proof -
    have h: "first_index (tlb_match a) (tlb m') = Some 0" "tlb m' ! 0 = e" using hit[of a] that t' by simp_all
    obtain t2 where "tlbLookup (tlb m') a LOAD =
        (if tlb_denied e LOAD then Inl Page_Fault_Exception else Inr (Some (ucast (pfn e), size_bits e)), t2)"
      by (simp add: tlbLookup_def h Let_def)
    then show ?thesis using \<open>need_trans m'\<close> den by (simp add: vAddr_to_pAddr_def e_def)
  qed
  show ?thesis using v(1) hit look drop_12_24[of va] by (intro exI[of _ m']) auto
qed

theorem tlb_entry_misplaced_witness:
  "\<exists>r m'. vAddr_to_pAddr False (demo_unit r) 0x123 LOAD = (Inr 0x5123, m')
     \<and> fst (vAddr_to_pAddr False m' 0x456 LOAD) = Inr 0x456"
proof -
  obtain r p where r: "ram_ok r" "capacity r = 0" "\<not> check_acl r" "ref_leaf False r 1 0x123 = Some (p, 0)" "pte_ppn p = 5"
    "pte_flags p = 0xF" "pte_r p" by (rule demo_ram)
  note d = demo_unit_ready[OF r(1-3)]
  have l: "ref_leaf False r (satp_ppn (satp_of False 0x80000001)) 0x123 = Some (p, 0)" using r(4) demo_root by simp
  have nd: "\<not> walk_denied p LOAD" using r(7) by (simp add: walk_denied_def)
  have a: "page_addr 5 12 0x123 = 0x5123" "page_addr (ucast (ucast ((5 :: u64) div 4096) :: u32)) 12 0x456 = 0x456" by code_simp+
  have x: "drop_bit 12 (0x456 :: u64) = drop_bit 24 0x123" by code_simp
  from tlb_entry_misplaced[OF d(1,2,3,6,5,7) l nd] obtain m' where
    "vAddr_to_pAddr False (demo_unit r) 0x123 LOAD = (Inr (page_addr (pte_ppn p) 12 0x123), m')"
    "fst (vAddr_to_pAddr False m' 0x456 LOAD) =
       (if pte_r p then Inr (page_addr (ucast (ucast (pte_ppn p div 4096) :: u32)) 12 0x456) else Inl Page_Fault_Exception)"
    using x by blast
  then show ?thesis using r(5,7) a by auto
qed

end
