(* ===== verification/Caps.thy ===== *)
theory Caps
  imports Bitmanip
begin

text \<open>
  The capability words a device publishes and the runtime decodes: \<open>gpu_dev_caps\<close> and \<open>gpu_isa_caps\<close> of
  \<open>src/vortex/sim/common/cmd_processor.cpp\<close>, \<open>load_caps\<close> and \<open>decode_caps\<close> of
  \<open>src/vortex/sw/runtime/common/caps.h\<close>.  The build configuration is a record of parameters.
\<close>

section \<open>Definitions\<close>

record gpu_cfg =
  NUM_THREADS :: u32
  NUM_WARPS :: u32
  NUM_CORES :: u32
  SOCKET_SIZE :: u32
  NUM_CLUSTERS :: u32
  ISSUE_WIDTH :: u32
  LMEM_ENABLED :: bool
  LMEM_LOG_SIZE :: u32
  MEMORY_NUM_BANKS :: u32
  MEMORY_ADDR_WIDTH :: u32
  CFG_XLEN :: u32
  MISA_EXT :: u32
  MISA_STD :: u32

definition clog2 :: "u32 \<Rightarrow> u32" where
  "clog2 n = of_nat (the (cp_clog2 (ucast n)))"

definition gpu_dev_caps :: "gpu_cfg \<Rightarrow> u64" where
  "gpu_dev_caps g =
     (let cluster_size = NUM_CORES g div SOCKET_SIZE g;
          bank_addr_w = MEMORY_ADDR_WIDTH g - clog2 (MEMORY_NUM_BANKS g);
          fld = (\<lambda>v. ucast (v :: u32) AND 0x7 :: u64)
      in (0 AND 0xFF)
         OR push_bit 8 (fld (clog2 (NUM_THREADS g)))
         OR push_bit 11 (fld (clog2 (NUM_WARPS g)))
         OR push_bit 14 (fld (clog2 (SOCKET_SIZE g)))
         OR push_bit 17 (fld (clog2 cluster_size))
         OR push_bit 20 (fld (clog2 (NUM_CLUSTERS g)))
         OR push_bit 23 (fld (clog2 (ISSUE_WIDTH g)))
         OR push_bit 26 (ucast (if LMEM_ENABLED g then LMEM_LOG_SIZE g else 0) AND 0xFF)
         OR push_bit 34 (fld (clog2 (MEMORY_NUM_BANKS g)))
         OR push_bit 37 (ucast (bank_addr_w - 20) AND 0x1F))"

definition gpu_isa_caps :: "gpu_cfg \<Rightarrow> u64" where
  "gpu_isa_caps g =
     push_bit 32 (ucast (MISA_EXT g)) OR push_bit 30 (ucast (clog2 (CFG_XLEN g) - 4) AND 0x3) OR ucast (MISA_STD g)"

text \<open>The identifiers \<open>VX_CAPS_*\<close>; an identifier the words do not encode is \<open>None\<close>.\<close>

definition decode_caps :: "u64 \<Rightarrow> u64 \<Rightarrow> u32 \<Rightarrow> u64 option" where
  "decode_caps dev_caps isa_caps caps_id =
     (let fld = (\<lambda>k. drop_bit k dev_caps AND 0x7)
      in if caps_id = 0x0 then Some (dev_caps AND 0xff)
         else if caps_id = 0x1 then Some (push_bit (unat (fld 8)) 1)
         else if caps_id = 0x2 then Some (push_bit (unat (fld 11)) 1)
         else if caps_id = 0x3 then
           (let socket_size = push_bit (unat (fld 14)) 1 :: u32;
                cluster_size = push_bit (unat (fld 17)) 1 :: u32;
                num_clusters = push_bit (unat (fld 20)) 1 :: u32
            in Some (ucast num_clusters * ucast cluster_size * ucast socket_size))
         else if caps_id = 0xB then Some (push_bit (unat (fld 14)) 1)
         else if caps_id = 0xA then Some (push_bit (unat (fld 20)) 1)
         else if caps_id = 0xC then Some (push_bit (unat (fld 23)) 1)
         else if caps_id = 0x6 then Some (push_bit (unat (drop_bit 26 dev_caps AND 0xff)) 1)
         else if caps_id = 0x7 then Some isa_caps
         else if caps_id = 0x8 then Some (push_bit (unat (fld 34)) 1)
         else if caps_id = 0x9 then Some (push_bit (20 + unat (drop_bit 37 dev_caps AND 0x1f)) 1)
         else None)"

text \<open>A failing register read is \<open>None\<close>.\<close>

definition load_caps :: "(u32 \<Rightarrow> u32 option) \<Rightarrow> (u64 \<times> u64) option" where
  "load_caps cp_mmio_read =
     do {
       lo \<leftarrow> cp_mmio_read 0x018;
       hi \<leftarrow> cp_mmio_read 0x01C;
       lo' \<leftarrow> cp_mmio_read 0x020;
       hi' \<leftarrow> cp_mmio_read 0x024;
       Some (ucast lo OR push_bit 32 (ucast hi), ucast lo' OR push_bit 32 (ucast hi'))
     }"

text \<open>
  The configurations the words can carry: the counts are powers of two up to 128, a bank has between \<open>2^20\<close> and
  \<open>2^51\<close> bytes, registers have 32 or 64 bits and the standard extensions are letters below bit 30.
\<close>

definition caps_encodable :: "gpu_cfg \<Rightarrow> bool" where
  "caps_encodable g \<longleftrightarrow>
     list_all (\<lambda>x. x \<in> set (map (\<lambda>k. 2 ^ k) [0..<8]))
       [NUM_THREADS g, NUM_WARPS g, SOCKET_SIZE g, NUM_CORES g div SOCKET_SIZE g, NUM_CLUSTERS g, ISSUE_WIDTH g,
        MEMORY_NUM_BANKS g]
     \<and> NUM_CORES g div SOCKET_SIZE g * SOCKET_SIZE g = NUM_CORES g
     \<and> (LMEM_ENABLED g \<longrightarrow> LMEM_LOG_SIZE g < 64)
     \<and> 20 \<le> MEMORY_ADDR_WIDTH g - clog2 (MEMORY_NUM_BANKS g) \<and> MEMORY_ADDR_WIDTH g - clog2 (MEMORY_NUM_BANKS g) < 52
     \<and> CFG_XLEN g \<in> {32, 64} \<and> MISA_STD g < 2 ^ 30"

definition demo_gpu :: gpu_cfg where
  "demo_gpu = \<lparr>NUM_THREADS = 4, NUM_WARPS = 8, NUM_CORES = 4, SOCKET_SIZE = 2, NUM_CLUSTERS = 2, ISSUE_WIDTH = 1,
     LMEM_ENABLED = False, LMEM_LOG_SIZE = 14, MEMORY_NUM_BANKS = 2, MEMORY_ADDR_WIDTH = 32, CFG_XLEN = 32,
     MISA_EXT = 0x13, MISA_STD = 0x1100\<rparr>"

section \<open>Lemmas\<close>

lemma clog2_power:
  assumes "k < 32"
  shows "clog2 (2 ^ k) = of_nat k"
proof -
  have p: "unat (ucast (2 ^ k :: u32) :: u64) = 2 ^ k"
    using assms by (simp add: unsigned_ucast_eq unat_power2 take_bit_nat_eq_self)
  have "cp_clog2_loop 64 (ucast (2 ^ k :: u32)) 0 = Some k"
    by (rule cp_clog2_loop_find) (use assms p in auto)
  then show ?thesis by (simp add: clog2_def cp_clog2_def)
qed

text \<open>The fields of the device word.\<close>

lemma dev_caps_fields:
  defines "fld k g \<equiv> drop_bit k (gpu_dev_caps g) AND 0x7"
  shows "fld 8 g = ucast (clog2 (NUM_THREADS g)) AND 0x7"
    "fld 11 g = ucast (clog2 (NUM_WARPS g)) AND 0x7"
    "fld 14 g = ucast (clog2 (SOCKET_SIZE g)) AND 0x7"
    "fld 17 g = ucast (clog2 (NUM_CORES g div SOCKET_SIZE g)) AND 0x7"
    "fld 20 g = ucast (clog2 (NUM_CLUSTERS g)) AND 0x7"
    "fld 23 g = ucast (clog2 (ISSUE_WIDTH g)) AND 0x7"
    "fld 34 g = ucast (clog2 (MEMORY_NUM_BANKS g)) AND 0x7"
    "drop_bit 26 (gpu_dev_caps g) AND 0xff = ucast (if LMEM_ENABLED g then LMEM_LOG_SIZE g else 0) AND 0xff"
    "drop_bit 37 (gpu_dev_caps g) AND 0x1f = ucast (MEMORY_ADDR_WIDTH g - clog2 (MEMORY_NUM_BANKS g) - 20) AND 0x1f"
    "gpu_dev_caps g AND 0xff = 0"
proof -
  have m: "(0x7 :: u64) = mask 3" "(0x1F :: u64) = mask 5" "(0xFF :: u64) = mask 8"
    by (simp_all add: mask_eq_exp_minus_1)
  show "fld 8 g = ucast (clog2 (NUM_THREADS g)) AND 0x7" "fld 11 g = ucast (clog2 (NUM_WARPS g)) AND 0x7"
    "fld 14 g = ucast (clog2 (SOCKET_SIZE g)) AND 0x7"
    "fld 17 g = ucast (clog2 (NUM_CORES g div SOCKET_SIZE g)) AND 0x7"
    "fld 20 g = ucast (clog2 (NUM_CLUSTERS g)) AND 0x7" "fld 23 g = ucast (clog2 (ISSUE_WIDTH g)) AND 0x7"
    "fld 34 g = ucast (clog2 (MEMORY_NUM_BANKS g)) AND 0x7"
    "drop_bit 26 (gpu_dev_caps g) AND 0xff = ucast (if LMEM_ENABLED g then LMEM_LOG_SIZE g else 0) AND 0xff"
    "drop_bit 37 (gpu_dev_caps g) AND 0x1f = ucast (MEMORY_ADDR_WIDTH g - clog2 (MEMORY_NUM_BANKS g) - 20) AND 0x1f"
    unfolding fld_def gpu_dev_caps_def Let_def m by (simp_all add: get_field del: push_bit_and drop_bit_and push_bit_or drop_bit_or)
  have "drop_bit 0 (gpu_dev_caps g) AND mask 8 = 0"
    unfolding gpu_dev_caps_def Let_def m by (simp add: get_field del: push_bit_and drop_bit_and push_bit_or drop_bit_or drop_bit_0)
  then show "gpu_dev_caps g AND 0xff = 0" by (simp add: m)
qed

lemma low_field:
  assumes "unat x < 2 ^ w" "w \<le> 64"
  shows "unat (ucast (x :: u32) AND mask w :: u64) = unat x"
proof -
  have "unat (ucast x :: u64) = unat x"
    using u32_bound[of x] by (simp add: unsigned_ucast_eq take_bit_nat_eq_self)
  then show ?thesis
    using assms by (simp add: take_bit_eq_mask[symmetric] take_bit_nat_eq_self unsigned_take_bit_eq)
qed

lemma ucast_power2:
  assumes "k < 32"
  shows "(ucast (2 ^ k :: u32) :: 'a::len word) = 2 ^ k"
  by (rule word_eq_by_bits) (use assms in \<open>auto simp: bit_simps\<close>)

lemma count_field:
  assumes "x \<in> set (map (\<lambda>k. 2 ^ k) [0..<8])"
  shows "(2 :: 'a::len word) ^ unat (ucast (clog2 x) AND 0x7 :: u64) = ucast x"
proof -
  from assms obtain k where k: "k < 8" and x: "x = 2 ^ k" by auto
  have m: "(0x7 :: u64) = mask 3" by (simp add: mask_eq_exp_minus_1)
  have u: "unat (of_nat k :: u32) = k" using k by (simp add: unat_of_nat)
  then have "unat (ucast (clog2 x) AND 0x7 :: u64) = k"
    unfolding m using k by (subst low_field) (simp_all add: x clog2_power)
  then show ?thesis using k by (simp add: word_push_bit_one x ucast_power2)
qed

lemma decode_caps_words:
  assumes "caps_encodable g"
  defines "dec \<equiv> decode_caps (gpu_dev_caps g) (gpu_isa_caps g)"
  shows "dec 0x0 = Some 0" "dec 0x1 = Some (ucast (NUM_THREADS g))" "dec 0x2 = Some (ucast (NUM_WARPS g))"
    "dec 0x3 = Some (ucast (NUM_CLUSTERS g) * ucast (NUM_CORES g))"
    "dec 0xB = Some (ucast (SOCKET_SIZE g))" "dec 0xA = Some (ucast (NUM_CLUSTERS g))"
    "dec 0xC = Some (ucast (ISSUE_WIDTH g))" "dec 0x8 = Some (ucast (MEMORY_NUM_BANKS g))"
    "dec 0x6 = Some (2 ^ (if LMEM_ENABLED g then unat (LMEM_LOG_SIZE g) else 0))"
    "dec 0x9 = Some (2 ^ unat (MEMORY_ADDR_WIDTH g - clog2 (MEMORY_NUM_BANKS g)))"
proof -
  have pow: "x \<in> set (map (\<lambda>k. 2 ^ k) [0..<8])"
    if "x \<in> {NUM_THREADS g, NUM_WARPS g, SOCKET_SIZE g, NUM_CORES g div SOCKET_SIZE g, NUM_CLUSTERS g,
             ISSUE_WIDTH g, MEMORY_NUM_BANKS g}" for x
    using assms(1) that by (simp only: caps_encodable_def list_all_iff list.set)
  note d = dec_def decode_caps_def Let_def dev_caps_fields
  show "dec 0x0 = Some 0" "dec 0x1 = Some (ucast (NUM_THREADS g))" "dec 0x2 = Some (ucast (NUM_WARPS g))"
    "dec 0xB = Some (ucast (SOCKET_SIZE g))" "dec 0xA = Some (ucast (NUM_CLUSTERS g))"
    "dec 0xC = Some (ucast (ISSUE_WIDTH g))" "dec 0x8 = Some (ucast (MEMORY_NUM_BANKS g))"
    by (simp_all add: d count_field pow del: set_map set_upt)
  obtain i j where ij: "i < 8" "j < 8" "NUM_CORES g div SOCKET_SIZE g = 2 ^ i" "SOCKET_SIZE g = 2 ^ j"
    using pow[of "SOCKET_SIZE g"] pow[of "NUM_CORES g div SOCKET_SIZE g"] by auto
  have "NUM_CORES g = 2 ^ (i + j)"
    using assms(1) ij(3,4) by (simp add: caps_encodable_def power_add)
  then have "(ucast (NUM_CORES g) :: u64) = ucast (NUM_CORES g div SOCKET_SIZE g) * ucast (SOCKET_SIZE g)"
    using ij by (simp only: ucast_power2 power_add[symmetric])
  then show "dec 0x3 = Some (ucast (NUM_CLUSTERS g) * ucast (NUM_CORES g))"
    by (simp add: d count_field pow unsigned_ucast_eq del: set_map set_upt)
  have m: "(0x1F :: u64) = mask 5" "(0xFF :: u64) = mask 8" by (simp_all add: mask_eq_exp_minus_1)
  have "unat (if LMEM_ENABLED g then LMEM_LOG_SIZE g else 0) < 2 ^ 8"
    using assms(1) by (auto simp: caps_encodable_def word_less_nat_alt)
  from low_field[OF this, folded m] show "dec 0x6 = Some (2 ^ (if LMEM_ENABLED g then unat (LMEM_LOG_SIZE g) else 0))"
    by (simp add: d)
  define n where "n = MEMORY_ADDR_WIDTH g - clog2 (MEMORY_NUM_BANKS g)"
  have n: "20 \<le> n" "n < 52" using assms(1) by (auto simp: caps_encodable_def n_def)
  then have "unat (n - 20) = unat n - 20" "20 \<le> unat n" "unat n < 52"
    by (simp_all add: unat_sub word_le_nat_alt word_less_nat_alt)
  moreover from this have "unat (n - 20) < 2 ^ 5" by simp
  note low_field[OF this, folded m]
  ultimately show "dec 0x9 = Some (2 ^ unat (MEMORY_ADDR_WIDTH g - clog2 (MEMORY_NUM_BANKS g)))"
    by (simp add: d n_def[symmetric])
qed

lemma decode_caps_isa: "decode_caps dev isa 0x7 = Some isa"
  by (simp add: decode_caps_def Let_def)

text \<open>The fields of the instruction set word.\<close>

lemma isa_caps_fields:
  assumes "caps_encodable g"
  shows "drop_bit 32 (gpu_isa_caps g) = ucast (MISA_EXT g)" "take_bit 30 (gpu_isa_caps g) = ucast (MISA_STD g)"
    "2 ^ (unat (drop_bit 30 (gpu_isa_caps g) AND 0x3) + 4) = unat (CFG_XLEN g)"
proof -
  have m: "(0x3 :: u64) = mask 2" by (simp add: mask_eq_exp_minus_1)
  have "unat (MISA_STD g) < 2 ^ 30" using assms by (simp add: caps_encodable_def word_less_nat_alt)
  note std = small_bits[OF this]
  show "drop_bit 32 (gpu_isa_caps g) = ucast (MISA_EXT g)" unfolding gpu_isa_caps_def m
    by (rule word_eq_by_bits) (auto simp: bit_simps std dest: bit_imp_le_length)
  show "take_bit 30 (gpu_isa_caps g) = ucast (MISA_STD g)" unfolding gpu_isa_caps_def m
    by (rule word_eq_by_bits) (auto simp: bit_simps std not_le[symmetric] dest: bit_imp_le_length)
  have x: "CFG_XLEN g = 32 \<and> clog2 (CFG_XLEN g) - 4 = 1 \<or> CFG_XLEN g = 64 \<and> clog2 (CFG_XLEN g) - 4 = 2"
    using assms clog2_power[of 5] clog2_power[of 6] by (auto simp: caps_encodable_def)
  have "drop_bit 30 (gpu_isa_caps g) AND 0x3 = ucast (clog2 (CFG_XLEN g) - 4) AND 0x3" unfolding gpu_isa_caps_def m
    by (rule word_eq_by_bits) (auto simp: bit_simps std dest: bit_imp_le_length)
  then show "2 ^ (unat (drop_bit 30 (gpu_isa_caps g) AND 0x3) + 4) = unat (CFG_XLEN g)" using x by auto
qed

lemma demo_gpu_encodable: "caps_encodable demo_gpu"
proof -
  have "clog2 2 = 1" using clog2_power[of 1] by simp
  then show ?thesis by (simp add: caps_encodable_def demo_gpu_def upt_rec)
qed

end
