(* ===== verification/Cmd_Processor.thy ===== *)
theory Cmd_Processor
  imports Caps Vm_Types Ram
begin

text \<open>
  The functional command processor, \<open>CommandProcessor\<close> of \<open>src/vortex/sim/common/cmd_processor.cpp\<close>: its
  register file, the fetch of command lines from the ring, the decoder, the engine state machine with
  its launch machine and the walk of draw bundles, and the address translation of its copy engine.

  The device behind the hooks is a type parameter; a hook takes the state of the device and returns
  it updated, and an empty hook is \<open>None\<close>.  A step that fails an assertion of the address classes
  (an address of more than 32 bits under Sv32) has the result \<open>None\<close>.
\<close>

section \<open>State\<close>

record 'd hooks =
  dram_read :: "('d \<Rightarrow> u64 \<Rightarrow> nat \<Rightarrow> u8 list \<times> 'd) option"
  dram_write :: "('d \<Rightarrow> u64 \<Rightarrow> u8 list \<Rightarrow> 'd) option"
  vortex_dcr_write :: "('d \<Rightarrow> u32 \<Rightarrow> u32 \<Rightarrow> 'd) option"
  vortex_dcr_read :: "('d \<Rightarrow> u32 \<Rightarrow> u32 \<Rightarrow> u32 \<times> 'd) option"
  vortex_start :: "('d \<Rightarrow> 'd) option"
  vortex_busy :: "('d \<Rightarrow> bool \<times> 'd) option"

datatype eng_state = Idle | Decode | Bid | WaitDone | Retire | DrawStep | DrawLaunchWait

datatype launch_state = LIdle | PulseStart | WaitBusy | WaitDrain

record cmd =
  opcode :: u8
  cflags :: u8
  reserved :: u16
  arg0 :: u64
  arg1 :: u64
  arg2 :: u64

definition cmd_zero :: cmd where
  "cmd_zero = \<lparr>opcode = 0, cflags = 0, reserved = 0, arg0 = 0, arg1 = 0, arg2 = 0\<rparr>"

abbreviation "OP_NOP \<equiv> 0x00 :: u8"
abbreviation "OP_MEM_WRITE \<equiv> 0x01 :: u8"
abbreviation "OP_MEM_READ \<equiv> 0x02 :: u8"
abbreviation "OP_MEM_COPY \<equiv> 0x03 :: u8"
abbreviation "OP_DCR_WRITE \<equiv> 0x04 :: u8"
abbreviation "OP_DCR_READ \<equiv> 0x05 :: u8"
abbreviation "OP_LAUNCH \<equiv> 0x06 :: u8"
abbreviation "OP_FENCE \<equiv> 0x07 :: u8"
abbreviation "OP_EVENT_SIG \<equiv> 0x08 :: u8"
abbreviation "OP_EVENT_WAIT \<equiv> 0x09 :: u8"
abbreviation "OP_CACHE_FLUSH \<equiv> 0x0A :: u8"
abbreviation "OP_LAUNCH_QMD \<equiv> 0x0B :: u8"
abbreviation "OP_DRAW \<equiv> 0x0C :: u8"

record queue0 =
  ring_base :: u64
  head_addr :: u64
  cmpl_addr :: u64
  ring_log2 :: u8
  control :: u32
  tail :: u64
  tail_lo_staging :: u32
  head :: u64
  seqnum :: u64
  qerror :: u32

definition queue0_new :: queue0 where
  "queue0_new = \<lparr>ring_base = 0, head_addr = 0, cmpl_addr = 0, ring_log2 = 16, control = 0, tail = 0,
     tail_lo_staging = 0, head = 0, seqnum = 0, qerror = 0\<rparr>"

record cp =
  cp_ctrl :: u32
  cp_satp :: u64
  cycle_counter :: u64
  q0 :: queue0
  last_dcr_rsp :: u32
  eng_state :: eng_state
  launch_state :: launch_state
  cur_cmd :: cmd
  cur_is_launch :: bool
  cur_is_no_resource :: bool
  draw_phys :: u64
  draw_num_steps :: u32
  draw_step :: u32
  draw_cmd :: cmd
  cl_buf :: "u8 list"
  cl_cmd_count :: nat
  cl_cmd_slot :: nat
  cl_loaded :: bool

definition cp_new :: cp where
  "cp_new = \<lparr>cp_ctrl = 0, cp_satp = 0, cycle_counter = 0, q0 = queue0_new, last_dcr_rsp = 0, eng_state = Idle,
     launch_state = LIdle, cur_cmd = cmd_zero, cur_is_launch = False, cur_is_no_resource = False, draw_phys = 0,
     draw_num_steps = 0, draw_step = 0, draw_cmd = cmd_zero, cl_buf = replicate 64 0, cl_cmd_count = 0,
     cl_cmd_slot = 0, cl_loaded = False\<rparr>"

definition enabled :: "cp \<Rightarrow> bool" where
  "enabled c \<longleftrightarrow> cp_ctrl c AND 1 \<noteq> 0 \<and> control (q0 c) AND 1 \<noteq> 0"

definition busy :: "cp \<Rightarrow> bool" where
  "busy c \<longleftrightarrow> enabled c \<and> (head (q0 c) < tail (q0 c) \<or> cl_loaded c \<or> eng_state c \<noteq> Idle \<or> launch_state c \<noteq> LIdle)"

section \<open>Registers\<close>

definition put_lo :: "u64 \<Rightarrow> u32 \<Rightarrow> u64" where
  "put_lo r value = (r AND 0xFFFFFFFF00000000) OR ucast value"

definition put_hi :: "u64 \<Rightarrow> u32 \<Rightarrow> u64" where
  "put_hi r value = (r AND 0x00000000FFFFFFFF) OR push_bit 32 (ucast value)"

definition queue_write :: "queue0 \<Rightarrow> u32 \<Rightarrow> u32 \<Rightarrow> queue0" where
  "queue_write q off value =
     (if off = 0x00 then q\<lparr>ring_base := put_lo (ring_base q) value\<rparr>
      else if off = 0x04 then q\<lparr>ring_base := put_hi (ring_base q) value\<rparr>
      else if off = 0x08 then q\<lparr>head_addr := put_lo (head_addr q) value\<rparr>
      else if off = 0x0C then q\<lparr>head_addr := put_hi (head_addr q) value\<rparr>
      else if off = 0x10 then q\<lparr>cmpl_addr := put_lo (cmpl_addr q) value\<rparr>
      else if off = 0x14 then q\<lparr>cmpl_addr := put_hi (cmpl_addr q) value\<rparr>
      else if off = 0x18 then q\<lparr>ring_log2 := ucast (value AND 0xFF)\<rparr>
      else if off = 0x1C then q\<lparr>control := value\<rparr>
      else if off = 0x20 then q\<lparr>tail_lo_staging := value\<rparr>
      else if off = 0x24 then q\<lparr>tail := push_bit 32 (ucast value) OR ucast (tail_lo_staging q)\<rparr>
      else q)"

definition mmio_write :: "cp \<Rightarrow> u32 \<Rightarrow> u32 \<Rightarrow> cp" where
  "mmio_write c off value =
     (if off = 0x000 then c\<lparr>cp_ctrl := value\<rparr>
      else if off = 0x028 then c\<lparr>cp_satp := put_lo (cp_satp c) value\<rparr>
      else if off = 0x02C then c\<lparr>cp_satp := put_hi (cp_satp c) value\<rparr>
      else if off \<ge> 0x100 \<and> off < 0x140 then c\<lparr>q0 := queue_write (q0 c) (off - 0x100) value\<rparr>
      else c)"

definition lo_word :: "u64 \<Rightarrow> u32" where
  "lo_word r = ucast (r AND 0xFFFFFFFF)"

definition hi_word :: "u64 \<Rightarrow> u32" where
  "hi_word r = ucast (drop_bit 32 r)"

definition queue_read :: "cp \<Rightarrow> u32 \<Rightarrow> u32" where
  "queue_read c off =
     (let q = q0 c
      in if off = 0x00 then lo_word (ring_base q)
         else if off = 0x04 then hi_word (ring_base q)
         else if off = 0x08 then lo_word (head_addr q)
         else if off = 0x0C then hi_word (head_addr q)
         else if off = 0x10 then lo_word (cmpl_addr q)
         else if off = 0x14 then hi_word (cmpl_addr q)
         else if off = 0x18 then ucast (ring_log2 q)
         else if off = 0x1C then control q
         else if off = 0x20 then tail_lo_staging q
         else if off = 0x24 then hi_word (tail q)
         else if off = 0x28 then lo_word (seqnum q)
         else if off = 0x2C then qerror q
         else if off = 0x30 then last_dcr_rsp c
         else 0xDEADBEEF)"

text \<open>The build options are arguments: whether virtual memory is enabled, the width, and the configuration.\<close>

record cp_cfg =
  vm_enable :: bool
  rv64 :: bool
  gpu :: gpu_cfg

definition mmio_read :: "cp_cfg \<Rightarrow> cp \<Rightarrow> u32 \<Rightarrow> u32" where
  "mmio_read g c off =
     (if off = 0x000 then cp_ctrl c
      else if off = 0x004 then of_bool (busy c)
      else if off = 0x008 then
        push_bit 26 1 OR push_bit 25 1 OR (if vm_enable g then push_bit 24 1 else 0)
          OR push_bit 16 6 OR push_bit 8 16 OR 1
      else if off = 0x010 then lo_word (cycle_counter c)
      else if off = 0x014 then hi_word (cycle_counter c)
      else if off = 0x018 then lo_word (gpu_dev_caps (gpu g))
      else if off = 0x01C then hi_word (gpu_dev_caps (gpu g))
      else if off = 0x020 then lo_word (gpu_isa_caps (gpu g))
      else if off = 0x024 then hi_word (gpu_isa_caps (gpu g))
      else if off = 0x028 then lo_word (cp_satp c)
      else if off = 0x02C then hi_word (cp_satp c)
      else if off \<ge> 0x100 \<and> off < 0x140 then queue_read c (off - 0x100)
      else 0xDEADBEEF)"

section \<open>Address translation\<close>

text \<open>
  The walk from level \<open>i\<close> on: the leaf and its level, or \<open>None\<close> where the address is passed through.
  Without a read hook an entry reads as zero.
\<close>

definition hook_read :: "'d hooks \<Rightarrow> 'd \<Rightarrow> u64 \<Rightarrow> nat \<Rightarrow> u8 list \<times> 'd" where
  "hook_read h d addr n = (case dram_read h of None \<Rightarrow> (replicate n 0, d) | Some f \<Rightarrow> f d addr n)"

fun cp_walk :: "bool \<Rightarrow> 'd hooks \<Rightarrow> u64 list \<Rightarrow> 'd \<Rightarrow> nat \<Rightarrow> u64 \<Rightarrow> ((u64 \<times> nat) option \<times> 'd) option" where
  "cp_walk w h vpn d i base =
     (case hook_read h d (pt_entry_addr w base (vpn ! i)) (VM_PTE_SIZE w) of
        (bs, d1) \<Rightarrow>
          do {
            p \<leftarrow> pte_of w (le_word bs);
            if \<not> pte_v p then Some (None, d1)
            else if \<not> pte_r p \<and> \<not> pte_w p \<and> \<not> pte_x p then
              (case i of 0 \<Rightarrow> Some (None, d1) | Suc j \<Rightarrow> cp_walk w h vpn d1 j (pte_ppn p))
            else Some (Some (pte_ppn p, i), d1)
          })"

declare cp_walk.simps [simp del]

definition cp_translate :: "cp_cfg \<Rightarrow> 'd hooks \<Rightarrow> cp \<Rightarrow> 'd \<Rightarrow> u64 \<Rightarrow> bool \<Rightarrow> (u64 \<times> 'd) option" where
  "cp_translate g h c d vaddr physical =
     (if \<not> vm_enable g then Some (vaddr, d)
      else if physical \<or> cp_satp c = 0 then Some (vaddr, d)
      else let s = satp_of (rv64 g) (cp_satp c)
           in if satp_mode s = 0 then Some (vaddr, d)
              else do {
                va \<leftarrow> vaddr_of (rv64 g) vaddr;
                (leaf, d1) \<leftarrow> cp_walk (rv64 g) h (va_vpn va) d (VM_PT_LEVEL (rv64 g) - 1) (satp_ppn s);
                Some (case leaf of None \<Rightarrow> vaddr | Some (ppn, i) \<Rightarrow> leaf_addr (rv64 g) ppn i vaddr, d1)
              })"

section \<open>Fetch and decode\<close>

definition rd8 :: "u8 list \<Rightarrow> nat \<Rightarrow> u8" where
  "rd8 buf i = (if i < length buf then buf ! i else 0)"

definition rd64 :: "u8 list \<Rightarrow> nat \<Rightarrow> u64" where
  "rd64 buf off = le_word (map (\<lambda>i. rd8 buf (off + i)) [0..<8])"

definition cmd_size :: "u8 \<Rightarrow> nat" where
  "cmd_size op =
     (if op = OP_NOP then 4
      else if op = OP_LAUNCH \<or> op = OP_LAUNCH_QMD \<or> op = OP_DRAW then 12
      else if op = OP_FENCE then 8
      else if op = OP_CACHE_FLUSH then 12
      else if op = OP_DCR_WRITE \<or> op = OP_DCR_READ \<or> op = OP_EVENT_SIG then 20
      else if op = OP_EVENT_WAIT \<or> op = OP_MEM_WRITE \<or> op = OP_MEM_READ \<or> op = OP_MEM_COPY then 28
      else 4)"

definition decode_cmd_bytes :: "u8 list \<Rightarrow> nat \<Rightarrow> cmd \<times> nat" where
  "decode_cmd_bytes buf off =
     (let op = rd8 buf off
      in (\<lparr>opcode = op, cflags = rd8 buf (off + 1),
           reserved = ucast (rd8 buf (off + 2)) OR push_bit 8 (ucast (rd8 buf (off + 3))),
           arg0 = rd64 buf (off + 4), arg1 = rd64 buf (off + 12), arg2 = rd64 buf (off + 20)\<rparr>,
          cmd_size op))"

text \<open>
  The commands of a line are counted by walking it; \<open>n\<close> is the number of slots still allowed.
  A line has \<open>CL_BYTES\<close> = 64 bytes by its type in the code.
\<close>

fun unpack_from :: "u8 list \<Rightarrow> nat \<Rightarrow> nat \<Rightarrow> nat" where
  "unpack_from buf offset 0 = 0"
| "unpack_from buf offset (Suc n) =
     (if offset + 4 > 64 then 0
      else if rd8 buf offset = 0 \<and> rd8 buf (offset + 1) = 0 then 0
      else let sz = snd (decode_cmd_bytes buf offset)
           in if offset + sz > 64 then 0 else Suc (unpack_from buf (offset + sz) n))"

definition unpack_cl :: "cp \<Rightarrow> cp" where
  "unpack_cl c = c\<lparr>cl_cmd_count := unpack_from (cl_buf c) 0 5, cl_cmd_slot := 0\<rparr>"

text \<open>
  The register holding the logarithm of the ring size takes any byte.  A shift by 64 or more is undefined in C++;
  here it gives a mask of all ones.
\<close>

definition fetch_if_needed :: "'d hooks \<Rightarrow> cp \<Rightarrow> 'd \<Rightarrow> cp \<times> 'd" where
  "fetch_if_needed h c d =
     (if cl_loaded c then (c, d)
      else if head (q0 c) \<ge> tail (q0 c) then (c, d)
      else let mask = push_bit (unat (ring_log2 (q0 c))) 1 - 1;
               off = head (q0 c) AND mask
           in case dram_read h of
                None \<Rightarrow> (c, d)
              | Some rd \<Rightarrow>
                  (case rd d (ring_base (q0 c) + off) 64 of
                     (bs, d1) \<Rightarrow> (unpack_cl (c\<lparr>cl_buf := bs, cl_loaded := True, cl_cmd_slot := 0\<rparr>), d1)))"

fun slot_offset :: "u8 list \<Rightarrow> nat \<Rightarrow> nat \<Rightarrow> nat" where
  "slot_offset buf off 0 = off"
| "slot_offset buf off (Suc s) = slot_offset buf (off + snd (decode_cmd_bytes buf off)) s"

definition load_next_cmd :: "cp \<Rightarrow> bool \<times> cp" where
  "load_next_cmd c =
     (if \<not> cl_loaded c then (False, c)
      else if cl_cmd_slot c \<ge> cl_cmd_count c then
        (False, c\<lparr>q0 := (q0 c)\<lparr>head := head (q0 c) + 64\<rparr>, cl_loaded := False\<rparr>)
      else let cm = fst (decode_cmd_bytes (cl_buf c) (slot_offset (cl_buf c) 0 (cl_cmd_slot c)))
           in (True, c\<lparr>cur_cmd := cm,
                       cur_is_launch := (opcode cm = OP_LAUNCH \<or> opcode cm = OP_LAUNCH_QMD),
                       cur_is_no_resource := (opcode cm = OP_NOP \<or> opcode cm = OP_FENCE)\<rparr>))"

section \<open>Effects of commands\<close>

definition publish_completion :: "'d hooks \<Rightarrow> cp \<Rightarrow> 'd \<Rightarrow> 'd" where
  "publish_completion h c d =
     (case dram_write h of
        None \<Rightarrow> d
      | Some wr \<Rightarrow> if cmpl_addr (q0 c) = 0 then d else wr d (cmpl_addr (q0 c)) (le_bytes 8 (seqnum (q0 c))))"

definition event_wait_satisfied :: "'d hooks \<Rightarrow> cmd \<Rightarrow> 'd \<Rightarrow> bool \<times> 'd" where
  "event_wait_satisfied h cm d =
     (case dram_read h of
        None \<Rightarrow> (True, d)
      | Some rd \<Rightarrow>
          (case rd d (arg0 cm) 8 of
             (bs, d1) \<Rightarrow>
               let cur = le_word bs :: u64; op = (ucast (arg2 cm) :: u32) AND 3
               in (if op = 0 then cur = arg1 cm
                   else if op = 1 then cur \<ge> arg1 cm
                   else if op = 2 then cur > arg1 cm
                   else cur \<noteq> arg1 cm, d1)))"

fun qmd_replay :: "('d \<Rightarrow> u64 \<Rightarrow> nat \<Rightarrow> u8 list \<times> 'd) \<Rightarrow> ('d \<Rightarrow> u32 \<Rightarrow> u32 \<Rightarrow> 'd) \<Rightarrow> 'd \<Rightarrow> u64 \<Rightarrow> nat \<Rightarrow> 'd" where
  "qmd_replay rd wr d addr 0 = d"
| "qmd_replay rd wr d addr (Suc n) =
     (case rd d addr 8 of
        (bs, d1) \<Rightarrow> qmd_replay rd wr (wr d1 (le_word (take 4 bs) AND 0xFFF) (le_word (drop 4 bs))) (addr + 8) n)"

definition apply_qmd :: "cp_cfg \<Rightarrow> 'd hooks \<Rightarrow> cp \<Rightarrow> 'd \<Rightarrow> u64 \<Rightarrow> 'd option" where
  "apply_qmd g h c d qmd_addr =
     (case (dram_read h, vortex_dcr_write h) of
        (Some rd, Some wr) \<Rightarrow>
          do {
            (addr, d1) \<leftarrow> cp_translate g h c d qmd_addr False;
            let (bs, d2) = rd d1 addr 4;
            Some (qmd_replay rd wr d2 (addr + 4) (min 64 (unat (le_word bs :: u32))))
          }
      | _ \<Rightarrow> Some d)"

fun flush_cores :: "('d \<Rightarrow> u32 \<Rightarrow> u32 \<Rightarrow> u32 \<times> 'd) \<Rightarrow> 'd \<Rightarrow> u32 \<Rightarrow> nat \<Rightarrow> 'd" where
  "flush_cores rd d cid 0 = d"
| "flush_cores rd d cid (Suc n) = flush_cores rd (snd (rd d 0x000 cid)) (cid + 1) n"

text \<open>The register commands, common to the ring and to draw bundles.\<close>

definition do_dcr_write :: "'d hooks \<Rightarrow> cmd \<Rightarrow> 'd \<Rightarrow> 'd" where
  "do_dcr_write h cm d =
     (case vortex_dcr_write h of
        None \<Rightarrow> d
      | Some wr \<Rightarrow> wr d (ucast (arg0 cm AND 0xFFF)) (ucast (arg1 cm AND 0xFFFFFFFF)))"

definition do_dcr_read :: "'d hooks \<Rightarrow> cmd \<Rightarrow> cp \<Rightarrow> 'd \<Rightarrow> cp \<times> 'd" where
  "do_dcr_read h cm c d =
     (case vortex_dcr_read h of
        None \<Rightarrow> (c, d)
      | Some rd \<Rightarrow>
          (case rd d (ucast (arg0 cm AND 0xFFF)) (ucast (arg1 cm AND 0xFFFFFFFF)) of
             (v, d1) \<Rightarrow> (c\<lparr>last_dcr_rsp := v\<rparr>, d1)))"

definition do_cache_flush :: "'d hooks \<Rightarrow> cmd \<Rightarrow> 'd \<Rightarrow> 'd" where
  "do_cache_flush h cm d =
     (case vortex_dcr_read h of
        None \<Rightarrow> d
      | Some rd \<Rightarrow> flush_cores rd d 0 (unat (ucast (arg0 cm AND 0xFFFFFFFF) :: u32)))"

definition do_event_sig :: "'d hooks \<Rightarrow> cmd \<Rightarrow> 'd \<Rightarrow> 'd" where
  "do_event_sig h cm d =
     (case dram_write h of None \<Rightarrow> d | Some wr \<Rightarrow> wr d (arg0 cm) (le_bytes 8 (arg1 cm)))"

function dma_copy :: "('d \<Rightarrow> u64 \<Rightarrow> nat \<Rightarrow> u8 list \<times> 'd) \<Rightarrow> ('d \<Rightarrow> u64 \<Rightarrow> u8 list \<Rightarrow> 'd) \<Rightarrow> 'd \<Rightarrow> u64 \<Rightarrow> u64 \<Rightarrow> nat \<Rightarrow> 'd" where
  "dma_copy rd wr d dst src left =
     (if left = 0 then d
      else let n = min left 65536
           in case rd d src n of
                (bs, d1) \<Rightarrow> dma_copy rd wr (wr d1 dst bs) (dst + of_nat n) (src + of_nat n) (left - n))"
  by pat_completeness auto
termination
  by (relation "measure (\<lambda>(rd, wr, d, dst, src, left). left)") auto

declare dma_copy.simps [simp del]

definition do_mem :: "cp_cfg \<Rightarrow> 'd hooks \<Rightarrow> cp \<Rightarrow> cmd \<Rightarrow> 'd \<Rightarrow> 'd option" where
  "do_mem g h c cm d =
     (case (dram_read h, dram_write h) of
        (Some rd, Some wr) \<Rightarrow>
          if arg2 cm = 0 then Some d
          else
            let physical = (cflags cm AND 0x04 \<noteq> 0)
            in if opcode cm = OP_MEM_WRITE then
                 do {
                   (dst, d1) \<leftarrow> cp_translate g h c d (arg0 cm) physical;
                   Some (dma_copy rd wr d1 dst (arg1 cm) (unat (arg2 cm)))
                 }
               else if opcode cm = OP_MEM_READ then
                 do {
                   (src, d1) \<leftarrow> cp_translate g h c d (arg1 cm) physical;
                   Some (dma_copy rd wr d1 (arg0 cm) src (unat (arg2 cm)))
                 }
               else
                 do {
                   (dst, d1) \<leftarrow> cp_translate g h c d (arg0 cm) physical;
                   (src, d2) \<leftarrow> cp_translate g h c d1 (arg1 cm) physical;
                   Some (dma_copy rd wr d2 dst src (unat (arg2 cm)))
                 }
      | _ \<Rightarrow> Some d)"

section \<open>The state machines\<close>

text \<open>One step of a draw bundle; the Boolean says that a launch was started.\<close>

definition exec_inline_cmd :: "cp_cfg \<Rightarrow> 'd hooks \<Rightarrow> cmd \<Rightarrow> cp \<Rightarrow> 'd \<Rightarrow> (bool \<times> cp \<times> 'd) option" where
  "exec_inline_cmd g h cm c d =
     (if opcode cm = OP_LAUNCH then Some (True, c\<lparr>launch_state := PulseStart\<rparr>, d)
      else if opcode cm = OP_LAUNCH_QMD then
        map_option (\<lambda>d1. (True, c\<lparr>launch_state := PulseStart\<rparr>, d1)) (apply_qmd g h c d (arg0 cm))
      else if opcode cm = OP_DCR_WRITE then Some (False, c, do_dcr_write h cm d)
      else if opcode cm = OP_DCR_READ then Some (False, do_dcr_read h cm c d)
      else if opcode cm = OP_CACHE_FLUSH then Some (False, c, do_cache_flush h cm d)
      else Some (False, c, d))"

definition draw_load_step :: "'d hooks \<Rightarrow> cp \<Rightarrow> 'd \<Rightarrow> cp \<times> 'd" where
  "draw_load_step h c d =
     (case dram_read h of
        None \<Rightarrow> (c\<lparr>draw_cmd := cmd_zero\<rparr>, d)
      | Some rd \<Rightarrow>
          (case rd d (draw_phys c + 4 + ucast (draw_step c) * 28) 28 of
             (bs, d1) \<Rightarrow> (c\<lparr>draw_cmd := fst (decode_cmd_bytes bs 0)\<rparr>, d1)))"

definition tick_launch :: "'d hooks \<Rightarrow> cp \<Rightarrow> 'd \<Rightarrow> cp \<times> 'd" where
  "tick_launch h c d =
     (case launch_state c of
        LIdle \<Rightarrow> (c, d)
      | PulseStart \<Rightarrow>
          (c\<lparr>launch_state := WaitBusy\<rparr>, case vortex_start h of None \<Rightarrow> d | Some start \<Rightarrow> start d)
      | WaitBusy \<Rightarrow>
          (case vortex_busy h of
             None \<Rightarrow> (c, d)
           | Some b \<Rightarrow> (case b d of (v, d1) \<Rightarrow> (if v then c\<lparr>launch_state := WaitDrain\<rparr> else c, d1)))
      | WaitDrain \<Rightarrow>
          (case vortex_busy h of
             None \<Rightarrow> (c\<lparr>launch_state := LIdle\<rparr>, d)
           | Some b \<Rightarrow> (case b d of (v, d1) \<Rightarrow> (if v then c else c\<lparr>launch_state := LIdle\<rparr>, d1))))"

definition eng_bid :: "cp_cfg \<Rightarrow> 'd hooks \<Rightarrow> cp \<Rightarrow> 'd \<Rightarrow> (cp \<times> 'd) option" where
  "eng_bid g h c d =
     (let cm = cur_cmd c; op = opcode cm; retire = (\<lambda>d1. (c\<lparr>eng_state := Retire\<rparr>, d1))
      in if cur_is_launch c then
           map_option (\<lambda>d1. (c\<lparr>launch_state := PulseStart, eng_state := WaitDone\<rparr>, d1))
             (if op = OP_LAUNCH_QMD then apply_qmd g h c d (arg0 cm) else Some d)
         else if op = OP_DRAW then
           do {
             (phys, d1) \<leftarrow> cp_translate g h c d (arg0 cm) False;
             let (n, d2) = (case dram_read h of
                              None \<Rightarrow> (0, d1)
                            | Some rd \<Rightarrow> (case rd d1 phys 4 of (bs, d2) \<Rightarrow> (le_word bs, d2)));
             Some (c\<lparr>draw_phys := phys, draw_num_steps := (if n > 256 then 256 else n), draw_step := 0,
                     eng_state := DrawStep\<rparr>, d2)
           }
         else if op = OP_DCR_WRITE then Some (retire (do_dcr_write h cm d))
         else if op = OP_DCR_READ then
           (case do_dcr_read h cm c d of (c1, d1) \<Rightarrow> Some (c1\<lparr>eng_state := Retire\<rparr>, d1))
         else if op = OP_CACHE_FLUSH then Some (retire (do_cache_flush h cm d))
         else if op = OP_EVENT_SIG then Some (retire (do_event_sig h cm d))
         else if op = OP_EVENT_WAIT then
           (case event_wait_satisfied h cm d of (ok, d1) \<Rightarrow> Some (if ok then c\<lparr>eng_state := Retire\<rparr> else c, d1))
         else if op = OP_MEM_WRITE \<or> op = OP_MEM_READ \<or> op = OP_MEM_COPY then
           map_option retire (do_mem g h c cm d)
         else Some (retire d))"

definition tick_engine :: "cp_cfg \<Rightarrow> 'd hooks \<Rightarrow> cp \<Rightarrow> 'd \<Rightarrow> (cp \<times> 'd) option" where
  "tick_engine g h c d =
     (case eng_state c of
        Idle \<Rightarrow>
          (case fetch_if_needed h c d of
             (c1, d1) \<Rightarrow>
               (case load_next_cmd c1 of (ok, c2) \<Rightarrow> Some (if ok then c2\<lparr>eng_state := Decode\<rparr> else c2, d1)))
      | Decode \<Rightarrow> Some (c\<lparr>eng_state := (if cur_is_no_resource c then Retire else Bid)\<rparr>, d)
      | Bid \<Rightarrow> eng_bid g h c d
      | WaitDone \<Rightarrow>
          (if cur_is_launch c \<and> launch_state c \<noteq> LIdle then Some (c, d) else Some (c\<lparr>eng_state := Retire\<rparr>, d))
      | DrawStep \<Rightarrow>
          (if draw_step c \<ge> draw_num_steps c then Some (c\<lparr>eng_state := Retire\<rparr>, d)
           else case draw_load_step h c d of
             (c1, d1) \<Rightarrow>
               do {
                 (launched, c2, d2) \<leftarrow> exec_inline_cmd g h (draw_cmd c1) c1 d1;
                 Some (if launched then c2\<lparr>eng_state := DrawLaunchWait\<rparr> else c2\<lparr>draw_step := draw_step c2 + 1\<rparr>, d2)
               })
      | DrawLaunchWait \<Rightarrow>
          (if launch_state c \<noteq> LIdle then Some (c, d)
           else Some (c\<lparr>draw_step := draw_step c + 1, eng_state := DrawStep\<rparr>, d))
      | Retire \<Rightarrow>
          (let c1 = c\<lparr>q0 := (q0 c)\<lparr>seqnum := seqnum (q0 c) + 1\<rparr>\<rparr>
           in Some (c1\<lparr>cl_cmd_slot := cl_cmd_slot c1 + 1, eng_state := Idle\<rparr>, publish_completion h c1 d)))"

definition tick :: "cp_cfg \<Rightarrow> 'd hooks \<Rightarrow> cp \<Rightarrow> 'd \<Rightarrow> (cp \<times> 'd) option" where
  "tick g h c d =
     (let c0 = c\<lparr>cycle_counter := cycle_counter c + 1\<rparr>
      in if \<not> enabled c0 then Some (c0, d)
         else map_option (\<lambda>(c1, d1). tick_launch h c1 d1) (tick_engine g h c0 d))"

section \<open>The capability registers\<close>

text \<open>Reading a 64-bit word as two registers.\<close>

lemma lo_hi_word: "ucast (lo_word r) OR push_bit 32 (ucast (hi_word r)) = r"
proof -
  have m: "(0xFFFFFFFF :: u64) = mask 32" by (simp add: mask_eq_exp_minus_1)
  show ?thesis unfolding lo_word_def hi_word_def m by (rule word_eq_by_bits) (auto simp: bit_simps)
qed

lemma load_caps_mmio:
  "load_caps (\<lambda>off. Some (mmio_read g c off)) = Some (gpu_dev_caps (gpu g), gpu_isa_caps (gpu g))"
  by (simp add: load_caps_def mmio_read_def lo_hi_word)


text \<open>
  C26.  The runtime sees the configuration the device was built with: reading the four capability registers of
  the command processor and decoding them gives, for every configuration the words can carry, exactly the
  configured numbers of threads, warps, cores, clusters and banks, the issue width, the size of a bank and, on a
  device with local memory, its size; the instruction set word gives back the extensions, the standard letters and
  the register width.  A device without local memory decodes to a local memory of one byte.
\<close>

theorem caps_roundtrip:
  assumes "caps_encodable (gpu g)"
  shows "\<exists>dev isa w. load_caps (\<lambda>off. Some (mmio_read g c off)) = Some (dev, isa)
    \<and> decode_caps dev isa 0x1 = Some (ucast (NUM_THREADS (gpu g)))
    \<and> decode_caps dev isa 0x2 = Some (ucast (NUM_WARPS (gpu g)))
    \<and> decode_caps dev isa 0x3 = Some (ucast (NUM_CLUSTERS (gpu g)) * ucast (NUM_CORES (gpu g)))
    \<and> decode_caps dev isa 0xB = Some (ucast (SOCKET_SIZE (gpu g)))
    \<and> decode_caps dev isa 0xA = Some (ucast (NUM_CLUSTERS (gpu g)))
    \<and> decode_caps dev isa 0xC = Some (ucast (ISSUE_WIDTH (gpu g)))
    \<and> decode_caps dev isa 0x8 = Some (ucast (MEMORY_NUM_BANKS (gpu g)))
    \<and> decode_caps dev isa 0x6 = Some (if LMEM_ENABLED (gpu g) then 2 ^ unat (LMEM_LOG_SIZE (gpu g)) else 1)
    \<and> decode_caps dev isa 0x9 = Some (2 ^ unat (MEMORY_ADDR_WIDTH (gpu g) - clog2 (MEMORY_NUM_BANKS (gpu g))))
    \<and> decode_caps dev isa 0x7 = Some w \<and> drop_bit 32 w = ucast (MISA_EXT (gpu g)) \<and> take_bit 30 w = ucast (MISA_STD (gpu g))
    \<and> 2 ^ (unat (drop_bit 30 w AND 0x3) + 4) = unat (CFG_XLEN (gpu g))"
  by (intro exI[of _ "gpu_dev_caps (gpu g)"] exI[of _ "gpu_isa_caps (gpu g)"])
    (simp add: load_caps_mmio decode_caps_words[OF assms] isa_caps_fields[OF assms] decode_caps_isa)

theorem caps_roundtrip_witness:
  "\<exists>dev isa w. load_caps (\<lambda>off. Some (mmio_read \<lparr>vm_enable = True, rv64 = False, gpu = demo_gpu\<rparr> cp_new off)) = Some (dev, isa)
    \<and> decode_caps dev isa 0x3 = Some 8 \<and> decode_caps dev isa 0x6 = Some 1 \<and> decode_caps dev isa 0x7 = Some w \<and> drop_bit 32 w = 0x13"
proof -
  let ?g = "\<lparr>vm_enable = True, rv64 = False, gpu = demo_gpu\<rparr>"
  have "caps_encodable (gpu ?g)" using demo_gpu_encodable by simp
  from caps_roundtrip[OF this, of cp_new] show ?thesis
    by (elim exE conjE, intro exI conjI) (assumption, simp_all add: demo_gpu_def)
qed

end
