(* ===== verification/Cp_Exec.thy ===== *)
theory Cp_Exec
  imports Cmd_Processor
begin

text \<open>
  What the state machines of the command processor compute: a reference semantics that executes a ring of
  command lines one command after the other, and the proof that the clocked machine reaches the same result.
  The machine may be written to by the host and the device may move at any time; the invariant of the
  machine under such runs is at the end.
\<close>

unbundle bit_operations_syntax

section \<open>Runs of the state machine\<close>

fun ticks :: "cp_cfg \<Rightarrow> 'd hooks \<Rightarrow> nat \<Rightarrow> cp \<times> 'd \<Rightarrow> (cp \<times> 'd) option" where
  "ticks g h 0 s = Some s"
| "ticks g h (Suc n) s = Option.bind (tick g h (fst s) (snd s)) (ticks g h n)"

definition leads :: "cp_cfg \<Rightarrow> 'd hooks \<Rightarrow> cp \<times> 'd \<Rightarrow> cp \<times> 'd \<Rightarrow> bool" where
  "leads g h s t \<longleftrightarrow> (\<exists>n. ticks g h n s = Some t)"

section \<open>Reference semantics of commands\<close>

text \<open>
  What a command does, as one sequential effect on the device and on the response register.  The hooks
  are polled at most \<open>n\<close> times in a row; \<open>None\<close> is a command that does not complete within that bound.
\<close>

fun poll :: "nat \<Rightarrow> ('d \<Rightarrow> bool \<times> 'd) \<Rightarrow> bool \<Rightarrow> 'd \<Rightarrow> 'd option" where
  "poll 0 b v d = None"
| "poll (Suc n) b v d = (case b d of (x, d1) \<Rightarrow> if x = v then Some d1 else poll n b v d1)"

definition run_kernel :: "'d hooks \<Rightarrow> nat \<Rightarrow> 'd \<Rightarrow> 'd option" where
  "run_kernel h n d =
     do {
       b \<leftarrow> vortex_busy h;
       d1 \<leftarrow> poll n b True (case vortex_start h of None \<Rightarrow> d | Some start \<Rightarrow> start d);
       poll n b False d1
     }"

definition step_effect :: "cp_cfg \<Rightarrow> 'd hooks \<Rightarrow> nat \<Rightarrow> cp \<Rightarrow> cmd \<Rightarrow> u32 \<times> 'd \<Rightarrow> (u32 \<times> 'd) option" where
  "step_effect g h n c cm s =
     (let (rsp, d) = s
      in if opcode cm = OP_LAUNCH then map_option (Pair rsp) (run_kernel h n d)
         else if opcode cm = OP_LAUNCH_QMD then
           map_option (Pair rsp) (Option.bind (apply_qmd g h c d (arg0 cm)) (run_kernel h n))
         else if opcode cm = OP_DCR_WRITE then Some (rsp, do_dcr_write h cm d)
         else if opcode cm = OP_DCR_READ then
           Some (case vortex_dcr_read h of
                   None \<Rightarrow> (rsp, d)
                 | Some rd \<Rightarrow> rd d (ucast (arg0 cm AND 0xFFF)) (ucast (arg1 cm AND 0xFFFFFFFF)))
         else if opcode cm = OP_CACHE_FLUSH then Some (rsp, do_cache_flush h cm d)
         else Some (rsp, d))"

fun bundle_effect :: "cp_cfg \<Rightarrow> 'd hooks \<Rightarrow> nat \<Rightarrow> cp \<Rightarrow> u64 \<Rightarrow> nat \<Rightarrow> u32 \<times> 'd \<Rightarrow> (u32 \<times> 'd) option" where
  "bundle_effect g h n c addr 0 s = Some s"
| "bundle_effect g h n c addr (Suc k) s =
     (case hook_read h (snd s) addr 28 of
        (bs, d1) \<Rightarrow>
          Option.bind (step_effect g h n c (fst (decode_cmd_bytes bs 0)) (fst s, d1))
            (bundle_effect g h n c (addr + 28) k))"

definition cmd_effect :: "cp_cfg \<Rightarrow> 'd hooks \<Rightarrow> nat \<Rightarrow> cp \<Rightarrow> cmd \<Rightarrow> u32 \<times> 'd \<Rightarrow> (u32 \<times> 'd) option" where
  "cmd_effect g h n c cm s =
     (let (rsp, d) = s
      in if opcode cm = OP_EVENT_SIG then Some (rsp, do_event_sig h cm d)
         else if opcode cm = OP_EVENT_WAIT then map_option (Pair rsp) (poll n (event_wait_satisfied h cm) True d)
         else if opcode cm \<in> {OP_MEM_WRITE, OP_MEM_READ, OP_MEM_COPY} then map_option (Pair rsp) (do_mem g h c cm d)
         else if opcode cm = OP_DRAW then
           do {
             (phys, d1) \<leftarrow> cp_translate g h c d (arg0 cm) False;
             let (bs, d2) = hook_read h d1 phys 4;
             bundle_effect g h n c (phys + 4) (min 256 (unat (le_word bs :: u32))) (rsp, d2)
           }
         else step_effect g h n c cm s)"

section \<open>Reference semantics of a ring\<close>

text \<open>The state of a run: the response register, the number of retired commands, the device.\<close>

fun line_cmds :: "u8 list \<Rightarrow> nat \<Rightarrow> nat \<Rightarrow> cmd list" where
  "line_cmds buf off 0 = []"
| "line_cmds buf off (Suc k) =
     (case decode_cmd_bytes buf off of (cm, sz) \<Rightarrow> cm # line_cmds buf (off + sz) k)"

fun run_cmds :: "cp_cfg \<Rightarrow> 'd hooks \<Rightarrow> nat \<Rightarrow> cp \<Rightarrow> cmd list \<Rightarrow> u32 \<times> u64 \<times> 'd \<Rightarrow> (u32 \<times> u64 \<times> 'd) option" where
  "run_cmds g h n c [] s = Some s"
| "run_cmds g h n c (cm # cms) s =
     (case s of
        (rsp, seq, d) \<Rightarrow>
          do {
            (rsp1, d1) \<leftarrow> cmd_effect g h n c cm (rsp, d);
            run_cmds g h n c cms (rsp1, seq + 1, publish_completion h (c\<lparr>q0 := (q0 c)\<lparr>seqnum := seq + 1\<rparr>\<rparr>) d1)
          })"

fun run_ring :: "cp_cfg \<Rightarrow> 'd hooks \<Rightarrow> nat \<Rightarrow> cp \<Rightarrow> nat \<Rightarrow> u64 \<Rightarrow> u32 \<times> u64 \<times> 'd \<Rightarrow> (u32 \<times> u64 \<times> 'd) option" where
  "run_ring g h n c 0 hp s = Some s"
| "run_ring g h n c (Suc m) hp s =
     (case s of
        (rsp, seq, d) \<Rightarrow>
          (case hook_read h d (ring_base (q0 c) + (hp AND (push_bit (unat (ring_log2 (q0 c))) 1 - 1))) 64 of
             (bs, d1) \<Rightarrow>
               Option.bind (run_cmds g h n c (line_cmds bs 0 (unpack_from bs 0 5)) (rsp, seq, d1))
                 (run_ring g h n c m (hp + 64))))"


section \<open>Runs\<close>

lemma ticks_add: "ticks g h (m + n) s = Option.bind (ticks g h m s) (ticks g h n)"
  by (induction m arbitrary: s) (auto simp: Option.bind_assoc split: Option.bind_splits)

lemma leads_refl [intro, simp]: "leads g h s s"
  unfolding leads_def by (rule exI[of _ 0]) simp

lemma leads_trans [trans]: "leads g h s t \<Longrightarrow> leads g h t u \<Longrightarrow> leads g h s u"
  unfolding leads_def by (metis ticks_add Option.bind.bind_lunit)

lemma leads_tick: "tick g h c d = Some t \<Longrightarrow> leads g h (c, d) t"
  unfolding leads_def by (rule exI[of _ "Suc 0"]) simp

lemma leads_step: "tick g h c d = Some t \<Longrightarrow> leads g h t u \<Longrightarrow> leads g h (c, d) u"
  by (blast intro: leads_tick leads_trans)

text \<open>The part of the state a command does not touch.\<close>

definition same :: "cp \<Rightarrow> cp \<Rightarrow> bool" where
  "same c c' \<longleftrightarrow> cp_ctrl c' = cp_ctrl c \<and> cp_satp c' = cp_satp c \<and> q0 c' = q0 c \<and> cl_buf c' = cl_buf c
     \<and> cl_cmd_count c' = cl_cmd_count c \<and> cl_cmd_slot c' = cl_cmd_slot c \<and> cl_loaded c' = cl_loaded c"

lemma same_refl [simp]: "same c c"
  by (simp add: same_def)

lemma same_trans [trans]: "same a b \<Longrightarrow> same b c \<Longrightarrow> same a c"
  by (simp add: same_def)

lemma same_enabled: "same c c' \<Longrightarrow> enabled c' = enabled c"
  by (simp add: same_def enabled_def)

lemma satp_translate:
  assumes "cp_satp c' = cp_satp c"
  shows "cp_translate g h c' = cp_translate g h c" "apply_qmd g h c' = apply_qmd g h c" "do_mem g h c' = do_mem g h c"
    "step_effect g h n c' = step_effect g h n c"
proof -
  show t: "cp_translate g h c' = cp_translate g h c"
    using assms unfolding cp_translate_def by metis
  show q: "apply_qmd g h c' = apply_qmd g h c"
    unfolding apply_qmd_def t by simp
  show "do_mem g h c' = do_mem g h c"
    unfolding do_mem_def t by simp
  show "step_effect g h n c' = step_effect g h n c"
    unfolding step_effect_def q by simp
qed

lemma same_satp: "same c c' \<Longrightarrow> cp_satp c' = cp_satp c"
  by (simp add: same_def)

lemmas same_translate = satp_translate[OF same_satp]


section \<open>Launches\<close>

abbreviation (input) waiting :: "cp \<Rightarrow> bool" where
  "waiting c \<equiv> eng_state c = WaitDone \<and> cur_is_launch c \<or> eng_state c = DrawLaunchWait"

lemma enabled_cycle [simp]: "enabled (c\<lparr>cycle_counter := k\<rparr>) = enabled c"
  by (simp add: enabled_def)

lemma tick_enabled:
  "enabled c \<Longrightarrow> tick g h c d =
     map_option (\<lambda>(c1, d1). tick_launch h c1 d1) (tick_engine g h (c\<lparr>cycle_counter := cycle_counter c + 1\<rparr>) d)"
  by (simp add: tick_def Let_def)

lemma tick_waiting:
  assumes "enabled c" "waiting c" "launch_state c \<noteq> LIdle"
  shows "tick g h c d = Some (tick_launch h (c\<lparr>cycle_counter := cycle_counter c + 1\<rparr>) d)"
  using assms by (auto simp: tick_enabled tick_engine_def)

lemma wait_busy_leads:
  assumes "enabled c" "waiting c" "launch_state c = WaitBusy" "vortex_busy h = Some b" "poll n b True d = Some d'"
  shows "\<exists>k. leads g h (c, d) (c\<lparr>cycle_counter := k, launch_state := WaitDrain\<rparr>, d')"
  using assms
proof (induction n arbitrary: c d)
  case (Suc n)
  let ?c = "c\<lparr>cycle_counter := cycle_counter c + 1\<rparr>"
  obtain v d1 where b: "b d = (v, d1)" by fastforce
  have t: "tick g h c d = Some (if v then ?c\<lparr>launch_state := WaitDrain\<rparr> else ?c, d1)"
    using Suc.prems b by (simp add: tick_waiting tick_launch_def)
  show ?case
  proof (cases v)
    case True
    then show ?thesis using t Suc.prems b leads_tick[OF t] by auto
  next
    case False
    then have "\<exists>k. leads g h (?c, d1) (?c\<lparr>cycle_counter := k, launch_state := WaitDrain\<rparr>, d')"
      using Suc.prems b by (intro Suc.IH) auto
    then show ?thesis using leads_step[OF t] False by auto
  qed
qed simp

lemma wait_drain_leads:
  assumes "enabled c" "waiting c" "launch_state c = WaitDrain" "vortex_busy h = Some b" "poll n b False d = Some d'"
  shows "\<exists>k. leads g h (c, d) (c\<lparr>cycle_counter := k, launch_state := LIdle\<rparr>, d')"
  using assms
proof (induction n arbitrary: c d)
  case (Suc n)
  let ?c = "c\<lparr>cycle_counter := cycle_counter c + 1\<rparr>"
  obtain v d1 where b: "b d = (v, d1)" by fastforce
  have t: "tick g h c d = Some (if v then ?c else ?c\<lparr>launch_state := LIdle\<rparr>, d1)"
    using Suc.prems b by (simp add: tick_waiting tick_launch_def)
  show ?case
  proof (cases v)
    case False
    then show ?thesis using t Suc.prems b leads_tick[OF t] by auto
  next
    case True
    then have "\<exists>k. leads g h (?c, d1) (?c\<lparr>cycle_counter := k, launch_state := LIdle\<rparr>, d')"
      using Suc.prems b by (intro Suc.IH) auto
    then show ?thesis using leads_step[OF t] True by auto
  qed
qed simp

text \<open>From the pulse of the start signal to the end of the kernel.\<close>

lemma kernel_leads:
  assumes "enabled c" "waiting c" "launch_state c = PulseStart" "run_kernel h n d = Some d'"
  shows "\<exists>k. leads g h (fst (tick_launch h c d), snd (tick_launch h c d)) (c\<lparr>cycle_counter := k, launch_state := LIdle\<rparr>, d')"
proof -
  from assms(4) obtain b d1 where b: "vortex_busy h = Some b"
    and d1: "poll n b True (snd (tick_launch h c d)) = Some d1" and d': "poll n b False d1 = Some d'"
    using assms(3) by (auto simp: run_kernel_def tick_launch_def bind_eq_Some_conv)
  define e where "e = c\<lparr>launch_state := WaitBusy\<rparr>"
  have e: "fst (tick_launch h c d) = e" using assms(3) by (simp add: tick_launch_def e_def)
  have "\<exists>k. leads g h (e, snd (tick_launch h c d)) (e\<lparr>cycle_counter := k, launch_state := WaitDrain\<rparr>, d1)"
    by (rule wait_busy_leads[OF _ _ _ b d1]) (use assms in \<open>auto simp: e_def enabled_def\<close>)
  then obtain k where k: "leads g h (e, snd (tick_launch h c d)) (e\<lparr>cycle_counter := k, launch_state := WaitDrain\<rparr>, d1)" ..
  have "\<exists>j. leads g h (e\<lparr>cycle_counter := k, launch_state := WaitDrain\<rparr>, d1)
     (e\<lparr>cycle_counter := k, launch_state := WaitDrain, cycle_counter := j, launch_state := LIdle\<rparr>, d')"
    by (rule wait_drain_leads[OF _ _ _ b d']) (use assms in \<open>auto simp: e_def enabled_def\<close>)
  then show ?thesis unfolding e using leads_trans[OF k] by (auto simp: e_def)
qed


text \<open>The command in execution reaches its retirement with the given response and device.\<close>

definition retires :: "cp_cfg \<Rightarrow> 'd hooks \<Rightarrow> cp \<Rightarrow> 'd \<Rightarrow> u32 \<Rightarrow> 'd \<Rightarrow> bool" where
  "retires g h c d rsp' d' \<longleftrightarrow>
     (\<exists>c'. leads g h (c, d) (c', d') \<and> same c c' \<and> eng_state c' = Retire \<and> launch_state c' = LIdle \<and> last_dcr_rsp c' = rsp')"

lemma retires_now:
  assumes "eng_state c = Retire" "launch_state c = LIdle"
  shows "retires g h c d (last_dcr_rsp c) d"
  unfolding retires_def using assms by (intro exI[of _ c]) simp

lemma retires_leads:
  "leads g h (c, d) (e, d1) \<Longrightarrow> same c e \<Longrightarrow> retires g h e d1 rsp' d' \<Longrightarrow> retires g h c d rsp' d'"
  unfolding retires_def by (blast intro: leads_trans same_trans)

lemma retires_tick:
  "tick g h c d = Some (e, d1) \<Longrightarrow> same c e \<Longrightarrow> retires g h e d1 rsp' d' \<Longrightarrow> retires g h c d rsp' d'"
  by (rule retires_leads[OF leads_tick])

section \<open>Draw bundles\<close>

lemma exec_inline_launch:
  assumes "opcode cm = OP_LAUNCH \<or> opcode cm = OP_LAUNCH_QMD"
    and "step_effect g h n c cm (rsp, d) = Some (rsp', d')"
  shows "\<exists>d1. exec_inline_cmd g h cm c d = Some (True, c\<lparr>launch_state := PulseStart\<rparr>, d1)
    \<and> run_kernel h n d1 = Some d' \<and> rsp' = rsp"
  using assms(1)
proof
  assume "opcode cm = OP_LAUNCH"
  then show ?thesis using assms(2) by (simp add: exec_inline_cmd_def step_effect_def)
next
  assume "opcode cm = OP_LAUNCH_QMD"
  then show ?thesis using assms(2)
    by (cases "apply_qmd g h c d (arg0 cm)") (simp_all add: exec_inline_cmd_def step_effect_def)
qed

lemma exec_inline_now:
  assumes "opcode cm \<noteq> OP_LAUNCH" "opcode cm \<noteq> OP_LAUNCH_QMD"
  shows "exec_inline_cmd g h cm c d =
    map_option (\<lambda>(rsp, d'). (False, c\<lparr>last_dcr_rsp := rsp\<rparr>, d')) (step_effect g h n c cm (last_dcr_rsp c, d))"
proof (cases "vortex_dcr_read h")
  case None
  then show ?thesis
    using assms by (simp add: exec_inline_cmd_def step_effect_def do_dcr_read_def)
next
  case (Some rd)
  then show ?thesis
    using assms
    by (cases "rd d (ucast (arg0 cm AND 0xFFF)) (ucast (arg1 cm AND 0xFFFFFFFF))")
      (simp add: exec_inline_cmd_def step_effect_def do_dcr_read_def)
qed

lemma bundle_step_leads:
  assumes "enabled c" "eng_state c = DrawStep" "launch_state c = LIdle" "draw_step c < draw_num_steps c"
    and "hook_read h d (draw_phys c + 4 + ucast (draw_step c) * 28) 28 = (bs, d1)"
    and "step_effect g h n c (fst (decode_cmd_bytes bs 0)) (last_dcr_rsp c, d1) = Some (rsp', d')"
  shows "\<exists>k cm. leads g h (c, d)
    (c\<lparr>cycle_counter := k, draw_cmd := cm, last_dcr_rsp := rsp', draw_step := draw_step c + 1\<rparr>, d')"
proof -
  let ?cm = "fst (decode_cmd_bytes bs 0)"
  let ?c = "c\<lparr>cycle_counter := cycle_counter c + 1, draw_cmd := ?cm\<rparr>"
  have "fst (decode_cmd_bytes (replicate 28 0) 0) = cmd_zero"
    by code_simp
  then have load: "draw_load_step h (c\<lparr>cycle_counter := cycle_counter c + 1\<rparr>) d = (?c, d1)"
    using assms(5) by (auto simp: draw_load_step_def hook_read_def split: option.splits)
  have eff: "step_effect g h n ?c ?cm (last_dcr_rsp ?c, d1) = Some (rsp', d')"
    using assms(6) same_translate(4)[of c ?c g h n] by (simp add: same_def)
  have more: "\<not> draw_num_steps c \<le> draw_step c" using assms(4) by simp
  show ?thesis
  proof (cases "opcode ?cm = OP_LAUNCH \<or> opcode ?cm = OP_LAUNCH_QMD")
    case True
    obtain d2 where x: "exec_inline_cmd g h ?cm ?c d1 = Some (True, ?c\<lparr>launch_state := PulseStart\<rparr>, d2)"
      and r: "run_kernel h n d2 = Some d'" and rsp: "rsp' = last_dcr_rsp ?c"
      using exec_inline_launch[OF True eff] by blast
    let ?e = "?c\<lparr>launch_state := PulseStart, eng_state := DrawLaunchWait\<rparr>"
    have t: "tick g h c d = Some (tick_launch h ?e d2)"
      using assms(1,2) more x by (simp add: tick_enabled tick_engine_def load)
    have "\<exists>k. leads g h (fst (tick_launch h ?e d2), snd (tick_launch h ?e d2)) (?e\<lparr>cycle_counter := k, launch_state := LIdle\<rparr>, d')"
      by (rule kernel_leads[OF _ _ _ r]) (use assms in \<open>simp_all add: enabled_def\<close>)
    then obtain k where k: "leads g h (c, d) (?e\<lparr>cycle_counter := k, launch_state := LIdle\<rparr>, d')"
      using leads_step[OF t] by auto
    have "tick g h (?e\<lparr>cycle_counter := k, launch_state := LIdle\<rparr>) d'
        = Some (?e\<lparr>cycle_counter := k + 1, launch_state := LIdle, draw_step := draw_step c + 1, eng_state := DrawStep\<rparr>, d')"
      using assms(1) by (simp add: tick_def enabled_def tick_engine_def tick_launch_def)
    also have "?e\<lparr>cycle_counter := k + 1, launch_state := LIdle, draw_step := draw_step c + 1, eng_state := DrawStep\<rparr>
        = c\<lparr>cycle_counter := k + 1, draw_cmd := ?cm, last_dcr_rsp := rsp', draw_step := draw_step c + 1\<rparr>"
      by (rule cp.equality) (use assms(2,3) rsp in simp_all)
    finally show ?thesis using leads_trans[OF k leads_tick] by blast
  next
    case False
    then have "exec_inline_cmd g h ?cm ?c d1 = Some (False, ?c\<lparr>last_dcr_rsp := rsp'\<rparr>, d')"
      using eff by (simp add: exec_inline_now[where n = n])
    then have "tick g h c d =
        Some (?c\<lparr>last_dcr_rsp := rsp', draw_step := draw_step c + 1\<rparr>, d')"
      using assms(1-3) more by (simp add: tick_enabled tick_engine_def load tick_launch_def)
    from leads_tick[OF this] show ?thesis by auto
  qed
qed


lemma satp_bundle: "cp_satp c' = cp_satp c \<Longrightarrow> bundle_effect g h n c' addr k s = bundle_effect g h n c addr k s"
proof (induction k arbitrary: addr s)
  case (Suc k)
  have IH: "bundle_effect g h n c' a k = bundle_effect g h n c a k" for a using Suc by blast
  show ?case by (simp only: bundle_effect.simps IH satp_translate(4)[OF Suc.prems])
qed simp

lemmas same_bundle = satp_bundle[OF same_satp]

lemma satp_cmd_effect:
  assumes "cp_satp c' = cp_satp c"
  shows "cmd_effect g h n c' cm s = cmd_effect g h n c cm s"
  unfolding cmd_effect_def satp_translate[OF assms] satp_bundle[OF assms] by (rule refl)

lemma ucast_Suc:
  assumes "(x :: u32) < y"
  shows "(ucast (x + 1) :: u64) = ucast x + 1" "unat (x + 1) = Suc (unat x)"
proof -
  show u: "unat (x + 1) = Suc (unat x)"
    using assms u32_bound[of y] unat_plus_no_wrap[of x 1] by (simp add: word_less_nat_alt)
  have "unat (x + 1) < 4294967296" by (rule u32_bound)
  then show "(ucast (x + 1) :: u64) = ucast x + 1"
    unfolding word_unat_eq_iff using u32_bound[of x] u
    by (simp add: unsigned_ucast_eq unat_word_ariths take_bit_nat_eq_self)
qed

lemma bundle_leads:
  assumes "enabled c" "eng_state c = DrawStep" "launch_state c = LIdle" "draw_step c \<le> draw_num_steps c"
    and "k = unat (draw_num_steps c) - unat (draw_step c)"
    and "bundle_effect g h n c (draw_phys c + 4 + ucast (draw_step c) * 28) k (last_dcr_rsp c, d) = Some (rsp', d')"
  shows "retires g h c d rsp' d'"
  using assms
proof (induction k arbitrary: c d)
  case 0
  then have "draw_step c = draw_num_steps c" by (simp add: word_le_nat_alt word_unat_eq_iff)
  then have "tick g h c d = Some (c\<lparr>cycle_counter := cycle_counter c + 1, eng_state := Retire\<rparr>, d)"
    using 0 by (simp add: tick_enabled tick_engine_def tick_launch_def)
  then show ?case
    by (rule retires_tick) (use 0 retires_now[of "c\<lparr>cycle_counter := cycle_counter c + 1, eng_state := Retire\<rparr>" g h d] in \<open>simp_all add: same_def\<close>)
next
  case (Suc k)
  have lt: "draw_step c < draw_num_steps c" using Suc.prems(5) by (simp add: word_less_nat_alt)
  obtain bs d1 where rd: "hook_read h d (draw_phys c + 4 + ucast (draw_step c) * 28) 28 = (bs, d1)" by fastforce
  with Suc.prems(6) obtain rsp2 d2
    where eff: "step_effect g h n c (fst (decode_cmd_bytes bs 0)) (last_dcr_rsp c, d1) = Some (rsp2, d2)"
      and rest: "bundle_effect g h n c (draw_phys c + 4 + ucast (draw_step c) * 28 + 28) k (rsp2, d2) = Some (rsp', d')"
    by (auto simp: bind_eq_Some_conv)
  obtain j cm where l: "leads g h (c, d)
      (c\<lparr>cycle_counter := j, draw_cmd := cm, last_dcr_rsp := rsp2, draw_step := draw_step c + 1\<rparr>, d2)"
    using bundle_step_leads[OF Suc.prems(1-3) lt rd eff] by blast
  define e where "e = c\<lparr>cycle_counter := j, draw_cmd := cm, last_dcr_rsp := rsp2, draw_step := draw_step c + 1\<rparr>"
  have ce: "same c e" by (simp add: same_def e_def)
  have a: "draw_phys c + 4 + ucast (draw_step c) * 28 + 28 = draw_phys e + 4 + ucast (draw_step e) * 28"
    using ucast_Suc(1)[OF lt] by (simp add: e_def algebra_simps)
  have "retires g h e d2 rsp' d'"
  proof (rule Suc.IH)
    show "draw_step e \<le> draw_num_steps e" "k = unat (draw_num_steps e) - unat (draw_step e)"
      using ucast_Suc(2)[OF lt] Suc.prems(5) lt by (simp_all add: e_def word_le_nat_alt word_less_nat_alt)
    show "bundle_effect g h n e (draw_phys e + 4 + ucast (draw_step e) * 28) k (last_dcr_rsp e, d2) = Some (rsp', d')"
      using rest unfolding a same_bundle[OF ce] by (simp add: e_def)
    show "enabled e" using same_enabled[OF ce] Suc.prems(1) by simp
  qed (use Suc.prems in \<open>simp_all add: e_def\<close>)
  then show ?case by (rule retires_leads[OF l[folded e_def] ce])
qed


section \<open>One command\<close>

text \<open>A tick outside of a launch is a step of the engine.\<close>

lemma tick_quiet:
  assumes "enabled c" "tick_engine g h (c\<lparr>cycle_counter := cycle_counter c + 1\<rparr>) d = Some (e, d1)" "launch_state e = LIdle"
  shows "tick g h c d = Some (e, d1)"
  using assms by (simp add: tick_enabled tick_launch_def)

abbreviation (input) clocked :: "cp \<Rightarrow> cp" where
  "clocked c \<equiv> c\<lparr>cycle_counter := cycle_counter c + 1\<rparr>"

lemma bid_retires:
  assumes "enabled c" "eng_state c = Bid" "launch_state c = LIdle"
    and "eng_bid g h (clocked c) d = Some (clocked c\<lparr>eng_state := Retire, last_dcr_rsp := rsp'\<rparr>, d')"
  shows "retires g h c d rsp' d'"
proof (rule retires_tick)
  let ?e = "clocked c\<lparr>eng_state := Retire, last_dcr_rsp := rsp'\<rparr>"
  show "tick g h c d = Some (?e, d')"
    by (rule tick_quiet) (use assms in \<open>simp_all add: tick_engine_def\<close>)
  show "same c ?e" by (simp add: same_def)
  show "retires g h ?e d' rsp' d'" using retires_now[of ?e g h d'] assms(3) by simp
qed

lemma event_wait_retires:
  assumes "enabled c" "eng_state c = Bid" "launch_state c = LIdle" "\<not> cur_is_launch c" "opcode (cur_cmd c) = OP_EVENT_WAIT"
    and "poll n (event_wait_satisfied h (cur_cmd c)) True d = Some d'"
  shows "retires g h c d (last_dcr_rsp c) d'"
  using assms
proof (induction n arbitrary: c d)
  case (Suc n)
  obtain v d1 where e: "event_wait_satisfied h (cur_cmd c) d = (v, d1)" by fastforce
  have b: "eng_bid g h (clocked c) d = Some (if v then clocked c\<lparr>eng_state := Retire\<rparr> else clocked c, d1)"
    using Suc.prems(4,5) e by (simp add: eng_bid_def)
  show ?case
  proof (cases v)
    case True
    then show ?thesis using Suc.prems b e by (intro bid_retires) simp_all
  next
    case False
    have t: "tick g h c d = Some (clocked c, d1)"
      by (rule tick_quiet) (use Suc.prems b False in \<open>simp_all add: tick_engine_def\<close>)
    have r: "retires g h (clocked c) d1 (last_dcr_rsp (clocked c)) d'"
      by (rule Suc.IH) (use Suc.prems e False in simp_all)
    show ?thesis using retires_tick[OF t _ r] by (simp add: same_def)
  qed
qed simp


lemma launch_retires:
  assumes "enabled c" "eng_state c = Bid" "launch_state c = LIdle" "cur_is_launch c"
    and "(if opcode (cur_cmd c) = OP_LAUNCH_QMD then apply_qmd g h c d (arg0 (cur_cmd c)) else Some d) = Some d1"
    and "run_kernel h n d1 = Some d'"
  shows "retires g h c d (last_dcr_rsp c) d'"
proof -
  let ?e = "clocked c\<lparr>launch_state := PulseStart, eng_state := WaitDone\<rparr>"
  have "apply_qmd g h (clocked c) = apply_qmd g h c"
    by (rule same_translate) (simp add: same_def)
  then have "(if opcode (cur_cmd c) = OP_LAUNCH_QMD then apply_qmd g h (clocked c) d (arg0 (cur_cmd c)) else Some d) = Some d1"
    using assms(5) by (simp split: if_splits)
  then have t: "tick g h c d = Some (tick_launch h ?e d1)"
    using assms(1-4) by (simp add: tick_enabled tick_engine_def eng_bid_def Let_def)
  have "\<exists>k. leads g h (fst (tick_launch h ?e d1), snd (tick_launch h ?e d1)) (?e\<lparr>cycle_counter := k, launch_state := LIdle\<rparr>, d')"
    by (rule kernel_leads[OF _ _ _ assms(6)]) (use assms(1,4) in \<open>simp_all add: enabled_def\<close>)
  then obtain k where k: "leads g h (c, d) (?e\<lparr>cycle_counter := k, launch_state := LIdle\<rparr>, d')" (is "leads g h _ (?f, d')")
    using leads_step[OF t] by auto
  let ?r = "clocked ?f\<lparr>eng_state := Retire\<rparr>"
  have f: "tick g h ?f d' = Some (?r, d')"
    by (rule tick_quiet) (use assms(1) in \<open>simp_all add: tick_engine_def enabled_def\<close>)
  have r: "retires g h ?r d' (last_dcr_rsp ?r) d'"
    by (rule retires_now) simp_all
  have "retires g h ?f d' (last_dcr_rsp ?r) d'"
    by (rule retires_tick[OF f _ r]) (simp add: same_def)
  from retires_leads[OF k _ this] show ?thesis by (simp add: same_def)
qed

lemma draw_retires:
  assumes "enabled c" "eng_state c = Bid" "launch_state c = LIdle" "\<not> cur_is_launch c" "opcode (cur_cmd c) = OP_DRAW"
    and "cp_translate g h c d (arg0 (cur_cmd c)) False = Some (phys, d1)" "hook_read h d1 phys 4 = (bs, d2)"
    and "bundle_effect g h n c (phys + 4) (min 256 (unat (le_word bs :: u32))) (last_dcr_rsp c, d2) = Some (rsp', d')"
  shows "retires g h c d rsp' d'"
proof -
  define m where "m = (if (le_word bs :: u32) > 256 then 256 else le_word bs :: u32)"
  define e where "e = clocked c\<lparr>draw_phys := phys, draw_num_steps := m, draw_step := 0, eng_state := DrawStep\<rparr>"
  have ce: "same c e" "same c (clocked c)" by (simp_all add: same_def e_def)
  have z: "le_word (replicate 4 0) = (0 :: u32)" by code_simp
  have "tick_engine g h (clocked c) d = Some (e, d2)"
    using assms(2,4-7) same_translate(1)[OF ce(2), of g h] z
    by (cases "dram_read h") (auto simp: tick_engine_def eng_bid_def hook_read_def e_def m_def)
  then have t: "tick g h c d = Some (e, d2)"
    by (rule tick_quiet[OF assms(1)]) (simp add: e_def assms(3))
  have "retires g h e d2 rsp' d'"
  proof (rule bundle_leads)
    have "unat m = min 256 (unat (le_word bs :: u32))"
      by (simp add: m_def word_less_nat_alt)
    then show "min 256 (unat (le_word bs :: u32)) = unat (draw_num_steps e) - unat (draw_step e)"
      by (simp add: e_def)
    show "bundle_effect g h n e (draw_phys e + 4 + ucast (draw_step e) * 28) (min 256 (unat (le_word bs :: u32)))
       (last_dcr_rsp e, d2) = Some (rsp', d')"
      unfolding same_bundle[OF ce(1)] using assms(8) by (simp add: e_def)
    show "enabled e" using assms(1) same_enabled[OF ce(1)] by simp
  qed (simp_all add: e_def assms(3))
  then show ?thesis by (rule retires_tick[OF t ce(1)])
qed


lemma step_bid:
  assumes "\<not> cur_is_launch c" "opcode (cur_cmd c) \<noteq> OP_LAUNCH" "opcode (cur_cmd c) \<noteq> OP_LAUNCH_QMD"
    "opcode (cur_cmd c) \<noteq> OP_EVENT_SIG" "opcode (cur_cmd c) \<noteq> OP_EVENT_WAIT" "opcode (cur_cmd c) \<noteq> OP_MEM_WRITE"
    "opcode (cur_cmd c) \<noteq> OP_MEM_READ" "opcode (cur_cmd c) \<noteq> OP_MEM_COPY" "opcode (cur_cmd c) \<noteq> OP_DRAW"
  shows "eng_bid g h c d = map_option (\<lambda>(rsp', d'). (c\<lparr>eng_state := Retire, last_dcr_rsp := rsp'\<rparr>, d'))
    (step_effect g h n c (cur_cmd c) (last_dcr_rsp c, d))"
proof (cases "vortex_dcr_read h")
  case None
  then show ?thesis
    using assms by (simp add: eng_bid_def Let_def step_effect_def do_dcr_read_def)
next
  case (Some rd)
  obtain v d1 where "rd d (ucast (arg0 (cur_cmd c) AND 0xFFF)) (ucast (arg1 (cur_cmd c) AND 0xFFFFFFFF)) = (v, d1)"
    by fastforce
  with Some show ?thesis
    using assms by (simp add: eng_bid_def Let_def step_effect_def do_dcr_read_def)
qed


lemma mem_bid:
  assumes "\<not> cur_is_launch c"
    and "opcode (cur_cmd c) = OP_MEM_WRITE \<or> opcode (cur_cmd c) = OP_MEM_READ \<or> opcode (cur_cmd c) = OP_MEM_COPY"
  shows "eng_bid g h c d = map_option (\<lambda>d1. (c\<lparr>eng_state := Retire\<rparr>, d1)) (do_mem g h c (cur_cmd c) d)"
  using assms(2) by (elim disjE) (simp_all add: eng_bid_def assms(1))

lemma cmd_retires:
  assumes "enabled c" "eng_state c = Bid" "launch_state c = LIdle"
    and launch: "cur_is_launch c \<longleftrightarrow> opcode (cur_cmd c) = OP_LAUNCH \<or> opcode (cur_cmd c) = OP_LAUNCH_QMD"
    and eff: "cmd_effect g h n c (cur_cmd c) (last_dcr_rsp c, d) = Some (rsp', d')"
  shows "retires g h c d rsp' d'"
proof -
  have c: "same c (clocked c)" by (simp add: same_def)
  consider "opcode (cur_cmd c) = OP_LAUNCH" | "opcode (cur_cmd c) = OP_LAUNCH_QMD" | "opcode (cur_cmd c) = OP_EVENT_SIG"
    | "opcode (cur_cmd c) = OP_EVENT_WAIT" | "opcode (cur_cmd c) = OP_DRAW"
    | "opcode (cur_cmd c) = OP_MEM_WRITE \<or> opcode (cur_cmd c) = OP_MEM_READ \<or> opcode (cur_cmd c) = OP_MEM_COPY"
    | "opcode (cur_cmd c) \<notin> {OP_LAUNCH, OP_LAUNCH_QMD, OP_EVENT_SIG, OP_EVENT_WAIT, OP_DRAW, OP_MEM_WRITE, OP_MEM_READ, OP_MEM_COPY}"
    by blast
  then show ?thesis
  proof cases
    case 1
    then show ?thesis using eff launch_retires[OF assms(1-3), of g h d d n d'] launch
      by (auto simp: cmd_effect_def step_effect_def)
  next
    case 2
    then show ?thesis using eff launch_retires[OF assms(1-3)] launch
      by (auto simp: cmd_effect_def step_effect_def bind_eq_Some_conv)
  next
    case 3
    then show ?thesis using eff launch
      by (intro bid_retires[OF assms(1-3)]) (simp add: cmd_effect_def eng_bid_def)
  next
    case 4
    then show ?thesis using eff launch event_wait_retires[OF assms(1-3)]
      by (auto simp: cmd_effect_def)
  next
    case 5
    then obtain phys d1 where tr: "cp_translate g h c d (arg0 (cur_cmd c)) False = Some (phys, d1)"
      using eff by (auto simp: cmd_effect_def bind_eq_Some_conv)
    obtain bs d2 where hr: "hook_read h d1 phys 4 = (bs, d2)" by fastforce
    have "bundle_effect g h n c (phys + 4) (min 256 (unat (le_word bs :: u32))) (last_dcr_rsp c, d2) = Some (rsp', d')"
      using eff 5 tr hr by (simp add: cmd_effect_def)
    with tr hr show ?thesis using 5 launch by (intro draw_retires[OF assms(1-3)]) simp_all
  next
    case 6
    then have "do_mem g h (clocked c) (cur_cmd c) d = Some d'" "rsp' = last_dcr_rsp c"
      using eff same_translate(3)[OF c, of g h] by (auto simp: cmd_effect_def)
    moreover have "\<not> cur_is_launch (clocked c)" using 6 launch by auto
    ultimately show ?thesis
      using mem_bid[of "clocked c" g h d] 6 by (intro bid_retires[OF assms(1-3)]) simp
  next
    case 7
    then have "step_effect g h n (clocked c) (cur_cmd c) (last_dcr_rsp c, d) = Some (rsp', d')"
      using eff unfolding same_translate(4)[OF c] by (simp add: cmd_effect_def)
    with 7 launch show ?thesis
      by (intro bid_retires[OF assms(1-3)]) (simp add: step_bid[of "clocked c" g h d n])
  qed
qed


section \<open>Lines and the ring\<close>

lemma publish_cong:
  "cmpl_addr (q0 c') = cmpl_addr (q0 c) \<Longrightarrow> seqnum (q0 c') = seqnum (q0 c) \<Longrightarrow>
     publish_completion h c' d = publish_completion h c d"
  by (simp add: publish_completion_def split: option.splits)

lemma run_cmds_cong:
  assumes "cp_satp c' = cp_satp c" "cmpl_addr (q0 c') = cmpl_addr (q0 c)"
  shows "run_cmds g h n c' cms s = run_cmds g h n c cms s"
proof (induction cms arbitrary: s)
  case (Cons cm cms)
  have "run_cmds g h n c' cms = run_cmds g h n c cms" using Cons by blast
  moreover have "publish_completion h (c'\<lparr>q0 := (q0 c')\<lparr>seqnum := k\<rparr>\<rparr>) d = publish_completion h (c\<lparr>q0 := (q0 c)\<lparr>seqnum := k\<rparr>\<rparr>) d" for k d
    by (rule publish_cong) (use assms in simp_all)
  ultimately show ?case by (simp only: run_cmds.simps satp_cmd_effect[OF assms(1)])
qed simp

definition cur_slot :: "cp \<Rightarrow> cmd" where
  "cur_slot c = fst (decode_cmd_bytes (cl_buf c) (slot_offset (cl_buf c) 0 (cl_cmd_slot c)))"

lemma cmd_leads:
  assumes "enabled c" "eng_state c = Idle" "launch_state c = LIdle" "cl_loaded c" "cl_cmd_slot c < cl_cmd_count c"
    and "cmd_effect g h n c (cur_slot c) (last_dcr_rsp c, d) = Some (rsp', d')"
  defines "r \<equiv> c\<lparr>q0 := (q0 c)\<lparr>seqnum := seqnum (q0 c) + 1\<rparr>, cl_cmd_slot := cl_cmd_slot c + 1\<rparr>"
  shows "\<exists>c'. leads g h (c, d) (c', publish_completion h r d') \<and> same r c' \<and> eng_state c' = Idle
    \<and> launch_state c' = LIdle \<and> last_dcr_rsp c' = rsp'"
proof -
  let ?nr = "opcode (cur_slot c) = OP_NOP \<or> opcode (cur_slot c) = OP_FENCE"
  define c1 where "c1 = clocked c\<lparr>cur_cmd := cur_slot c,
    cur_is_launch := opcode (cur_slot c) = OP_LAUNCH \<or> opcode (cur_slot c) = OP_LAUNCH_QMD, cur_is_no_resource := ?nr,
    eng_state := Decode\<rparr>"
  define c2 where "c2 = clocked c1\<lparr>eng_state := (if ?nr then Retire else Bid)\<rparr>"
  have s: "same c c1" "same c c2" by (simp_all add: same_def c1_def c2_def)
  have t1: "tick g h c d = Some (c1, d)"
    by (rule tick_quiet[OF assms(1)])
      (use assms in \<open>simp_all add: tick_engine_def fetch_if_needed_def load_next_cmd_def c1_def cur_slot_def Let_def\<close>)
  have t2: "tick g h c1 d = Some (c2, d)"
    by (rule tick_quiet)
      (use assms same_enabled[OF s(1)] in \<open>simp_all add: tick_engine_def c1_def c2_def\<close>)
  have l: "leads g h (c, d) (c2, d)" by (rule leads_step[OF t1 leads_tick[OF t2]])
  have "retires g h c2 d rsp' d'"
  proof (cases ?nr)
    case True
    then have "rsp' = last_dcr_rsp c" "d' = d"
      using assms(6) by (auto simp: cmd_effect_def step_effect_def)
    then show ?thesis
      using retires_now[of c2 g h d] True assms(3) by (simp add: c1_def c2_def)
  next
    case False
    show ?thesis
    proof (rule cmd_retires)
      show "cmd_effect g h n c2 (cur_cmd c2) (last_dcr_rsp c2, d) = Some (rsp', d')"
        using assms(6) unfolding satp_cmd_effect[OF same_satp[OF s(2)]] by (simp add: c1_def c2_def)
    qed (use False assms same_enabled[OF s(2)] in \<open>simp_all add: c1_def c2_def\<close>)
  qed
  then obtain e where e: "leads g h (c2, d) (e, d')" "same c2 e" "eng_state e = Retire" "launch_state e = LIdle"
    "last_dcr_rsp e = rsp'" unfolding retires_def by blast
  have ce: "same c e" by (rule same_trans[OF s(2) e(2)])
  define f where "f = clocked e\<lparr>q0 := (q0 e)\<lparr>seqnum := seqnum (q0 e) + 1\<rparr>, cl_cmd_slot := cl_cmd_slot e + 1, eng_state := Idle\<rparr>"
  have "tick g h e d' = Some (f, publish_completion h (clocked e\<lparr>q0 := (q0 e)\<lparr>seqnum := seqnum (q0 e) + 1\<rparr>\<rparr>) d')"
    by (rule tick_quiet) (use assms(1) same_enabled[OF ce] e in \<open>simp_all add: tick_engine_def f_def Let_def\<close>)
  moreover have "publish_completion h (clocked e\<lparr>q0 := (q0 e)\<lparr>seqnum := seqnum (q0 e) + 1\<rparr>\<rparr>) d' = publish_completion h r d'"
    by (rule publish_cong) (use ce in \<open>simp_all add: same_def r_def\<close>)
  ultimately have "leads g h (e, d') (f, publish_completion h r d')" by (simp add: leads_tick)
  with l e(1) have "leads g h (c, d) (f, publish_completion h r d')" using leads_trans by blast
  moreover have "same r f" using ce by (simp add: same_def f_def r_def)
  ultimately show ?thesis using e(4,5) by (intro exI[of _ f]) (simp add: f_def)
qed


lemma slot_offset_Suc:
  "slot_offset buf off (Suc s) = slot_offset buf off s + snd (decode_cmd_bytes buf (slot_offset buf off s))"
  by (induction s arbitrary: off) simp_all

lemma line_leads:
  assumes "enabled c" "eng_state c = Idle" "launch_state c = LIdle" "cl_loaded c" "cl_cmd_count c = cl_cmd_slot c + k"
    and "run_cmds g h n c (line_cmds (cl_buf c) (slot_offset (cl_buf c) 0 (cl_cmd_slot c)) k)
       (last_dcr_rsp c, seqnum (q0 c), d) = Some (rsp', seq', d')"
  shows "\<exists>c'. leads g h (c, d) (c', d') \<and> same (c\<lparr>q0 := (q0 c)\<lparr>seqnum := seq'\<rparr>, cl_cmd_slot := cl_cmd_count c\<rparr>) c'
    \<and> eng_state c' = Idle \<and> launch_state c' = LIdle \<and> last_dcr_rsp c' = rsp'"
  using assms
proof (induction k arbitrary: c d)
  case 0
  then show ?case by (intro exI[of _ c]) (simp add: same_def)
next
  case (Suc k)
  define r where "r = c\<lparr>q0 := (q0 c)\<lparr>seqnum := seqnum (q0 c) + 1\<rparr>, cl_cmd_slot := cl_cmd_slot c + 1\<rparr>"
  let ?off = "slot_offset (cl_buf c) 0 (cl_cmd_slot c)"
  have p: "publish_completion h (c\<lparr>q0 := (q0 c)\<lparr>seqnum := seqnum (q0 c) + 1\<rparr>\<rparr>) d = publish_completion h r d" for d
    by (rule publish_cong) (simp_all add: r_def)
  from Suc.prems(6) obtain rsp1 d1
    where eff: "cmd_effect g h n c (cur_slot c) (last_dcr_rsp c, d) = Some (rsp1, d1)"
      and rest: "run_cmds g h n c (line_cmds (cl_buf c) (?off + snd (decode_cmd_bytes (cl_buf c) ?off)) k)
        (rsp1, seqnum (q0 c) + 1, publish_completion h r d1) = Some (rsp', seq', d')"
    by (auto simp: cur_slot_def bind_eq_Some_conv p case_prod_unfold)
  have "cl_cmd_slot c < cl_cmd_count c" using Suc.prems(5) by simp
  from cmd_leads[OF Suc.prems(1-4) this eff, folded r_def] obtain e
    where e: "leads g h (c, d) (e, publish_completion h r d1)" "same r e" "eng_state e = Idle"
      "launch_state e = LIdle" "last_dcr_rsp e = rsp1" by blast
  have eq: "cp_ctrl e = cp_ctrl c" "cp_satp e = cp_satp c" "q0 e = (q0 c)\<lparr>seqnum := seqnum (q0 c) + 1\<rparr>" "cl_buf e = cl_buf c"
    "cl_cmd_count e = cl_cmd_count c" "cl_cmd_slot e = cl_cmd_slot c + 1" "cl_loaded e = cl_loaded c"
    using e(2) by (simp_all add: same_def r_def)
  have "\<exists>c'. leads g h (e, publish_completion h r d1) (c', d')
    \<and> same (e\<lparr>q0 := (q0 e)\<lparr>seqnum := seq'\<rparr>, cl_cmd_slot := cl_cmd_count e\<rparr>) c'
    \<and> eng_state c' = Idle \<and> launch_state c' = LIdle \<and> last_dcr_rsp c' = rsp'"
  proof (rule Suc.IH)
    have "run_cmds g h n e cms s = run_cmds g h n c cms s" for cms s
      by (rule run_cmds_cong) (simp_all add: eq)
    then show "run_cmds g h n e (line_cmds (cl_buf e) (slot_offset (cl_buf e) 0 (cl_cmd_slot e)) k)
       (last_dcr_rsp e, seqnum (q0 e), publish_completion h r d1) = Some (rsp', seq', d')"
      using rest slot_offset_Suc[of "cl_buf c" 0 "cl_cmd_slot c"] by (simp add: eq e(5))
  qed (use Suc.prems eq e in \<open>simp_all add: enabled_def\<close>)
  then obtain f where f: "leads g h (e, publish_completion h r d1) (f, d')"
    "same (e\<lparr>q0 := (q0 e)\<lparr>seqnum := seq'\<rparr>, cl_cmd_slot := cl_cmd_count e\<rparr>) f"
    "eng_state f = Idle" "launch_state f = LIdle" "last_dcr_rsp f = rsp'" by blast
  have "leads g h (c, d) (f, d')" by (rule leads_trans[OF e(1) f(1)])
  moreover have "same (c\<lparr>q0 := (q0 c)\<lparr>seqnum := seq'\<rparr>, cl_cmd_slot := cl_cmd_count c\<rparr>) f"
    using f(2) by (simp add: same_def eq)
  ultimately show ?case using f(3-5) by blast
qed


text \<open>What executing the ring does not depend on and does not touch.\<close>

definition settled :: "cp \<Rightarrow> bool" where
  "settled c \<longleftrightarrow> enabled c \<and> eng_state c = Idle \<and> launch_state c = LIdle \<and> \<not> cl_loaded c"

definition same_setup :: "cp \<Rightarrow> cp \<Rightarrow> bool" where
  "same_setup c c' \<longleftrightarrow> cp_ctrl c' = cp_ctrl c \<and> cp_satp c' = cp_satp c \<and> ring_base (q0 c') = ring_base (q0 c)
     \<and> head_addr (q0 c') = head_addr (q0 c) \<and> cmpl_addr (q0 c') = cmpl_addr (q0 c) \<and> ring_log2 (q0 c') = ring_log2 (q0 c)
     \<and> control (q0 c') = control (q0 c) \<and> tail (q0 c') = tail (q0 c)"

lemma same_setupD:
  assumes "same_setup c c'"
  shows "cp_satp c' = cp_satp c" "ring_base (q0 c') = ring_base (q0 c)" "cmpl_addr (q0 c') = cmpl_addr (q0 c)"
    "ring_log2 (q0 c') = ring_log2 (q0 c)" "tail (q0 c') = tail (q0 c)"
  using assms by (simp_all add: same_setup_def)

lemma same_setup_trans [trans]: "same_setup a b \<Longrightarrow> same_setup b c \<Longrightarrow> same_setup a c"
  by (simp add: same_setup_def)

lemma run_ring_cong:
  assumes "same_setup c c'"
  shows "run_ring g h n c' m hp s = run_ring g h n c m hp s"
proof (induction m arbitrary: hp s)
  case (Suc m)
  have "run_ring g h n c' m = run_ring g h n c m" using Suc by blast
  moreover have "run_cmds g h n c' cms s = run_cmds g h n c cms s" for cms s
    by (rule run_cmds_cong) (use same_setupD[OF assms] in simp_all)
  ultimately show ?case by (simp only: run_ring.simps same_setupD[OF assms])
qed simp

text \<open>Fetching and executing one line.  The fetch and the first decode happen in the same tick.\<close>

lemma leads_merge:
  assumes "tick g h c d = tick g h e d1" "leads g h (e, d1) (f, d2)" "tick g h f d2 = Some t"
  shows "leads g h (c, d) t"
proof -
  obtain k where k: "ticks g h k (e, d1) = Some (f, d2)" using assms(2) by (auto simp: leads_def)
  have "ticks g h (k + 1) (e, d1) = Some t" using k assms(3) by (simp only: ticks_add) simp
  then have "ticks g h (Suc k) (c, d) = Some t" using assms(1) by simp
  then show ?thesis unfolding leads_def by blast
qed

lemma fetch_leads:
  assumes "settled c" "head (q0 c) < tail (q0 c)" "dram_read h = Some rd"
    and "rd d (ring_base (q0 c) + (head (q0 c) AND (push_bit (unat (ring_log2 (q0 c))) 1 - 1))) 64 = (bs, d1)"
    and "run_cmds g h n c (line_cmds bs 0 (unpack_from bs 0 5)) (last_dcr_rsp c, seqnum (q0 c), d1) = Some (rsp', seq', d')"
  shows "\<exists>c'. leads g h (c, d) (c', d') \<and> settled c' \<and> same_setup c c' \<and> head (q0 c') = head (q0 c) + 64
    \<and> seqnum (q0 c') = seq' \<and> last_dcr_rsp c' = rsp'"
proof -
  define e where "e = c\<lparr>cl_buf := bs, cl_loaded := True, cl_cmd_slot := 0, cl_cmd_count := unpack_from bs 0 5\<rparr>"
  have c: "enabled c" "eng_state c = Idle" "launch_state c = LIdle" "\<not> cl_loaded c"
    using assms(1) by (simp_all add: settled_def)
  have more: "\<not> tail (q0 c) \<le> head (q0 c)" using assms(2) by simp
  have "fetch_if_needed h (clocked c) d = (clocked e, d1)" "fetch_if_needed h (clocked e) d1 = (clocked e, d1)"
    using assms(3,4) c more by (simp_all add: fetch_if_needed_def e_def unpack_cl_def Let_def)
  then have t: "tick g h c d = tick g h e d1"
    using c by (simp add: tick_def enabled_def tick_engine_def e_def)
  have "run_cmds g h n e cms s = run_cmds g h n c cms s" for cms s
    by (rule run_cmds_cong) (simp_all add: e_def)
  then have "\<exists>f. leads g h (e, d1) (f, d') \<and> same (e\<lparr>q0 := (q0 e)\<lparr>seqnum := seq'\<rparr>, cl_cmd_slot := cl_cmd_count e\<rparr>) f
    \<and> eng_state f = Idle \<and> launch_state f = LIdle \<and> last_dcr_rsp f = rsp'"
    by (intro line_leads[where k = "unpack_from bs 0 5" and n = n]) (use assms(5) c in \<open>simp_all add: e_def enabled_def\<close>)
  then obtain f where f: "leads g h (e, d1) (f, d')"
    "same (e\<lparr>q0 := (q0 e)\<lparr>seqnum := seq'\<rparr>, cl_cmd_slot := cl_cmd_count e\<rparr>) f"
    "eng_state f = Idle" "launch_state f = LIdle" "last_dcr_rsp f = rsp'" by blast
  have eq: "cp_ctrl f = cp_ctrl c" "cp_satp f = cp_satp c" "q0 f = (q0 c)\<lparr>seqnum := seq'\<rparr>" "cl_cmd_slot f = cl_cmd_count f"
    "cl_loaded f"
    using f(2) by (simp_all add: same_def e_def)
  define r where "r = clocked f\<lparr>q0 := (q0 f)\<lparr>head := head (q0 f) + 64\<rparr>, cl_loaded := False\<rparr>"
  have "enabled f" using c(1) by (simp add: enabled_def eq)
  then have "tick g h f d' = Some (r, d')"
    by (rule tick_quiet) (use f eq in \<open>simp_all add: tick_engine_def fetch_if_needed_def load_next_cmd_def r_def\<close>)
  from leads_merge[OF t f(1) this] show ?thesis
    using c f(3-5) by (intro exI[of _ r]) (simp add: r_def eq settled_def same_setup_def enabled_def)
qed

lemma ring_leads:
  assumes "settled c" "dram_read h = Some rd" "unat (tail (q0 c)) = unat (head (q0 c)) + 64 * m"
    and "run_ring g h n c m (head (q0 c)) (last_dcr_rsp c, seqnum (q0 c), d) = Some (rsp', seq', d')"
  shows "\<exists>c'. leads g h (c, d) (c', d') \<and> settled c' \<and> same_setup c c' \<and> head (q0 c') = tail (q0 c)
    \<and> seqnum (q0 c') = seq' \<and> last_dcr_rsp c' = rsp'"
  using assms
proof (induction m arbitrary: c d)
  case 0
  then show ?case by (intro exI[of _ c]) (simp add: same_setup_def word_unat_eq_iff)
next
  case (Suc m)
  have lt: "head (q0 c) < tail (q0 c)" using Suc.prems(3) by (simp add: word_less_nat_alt)
  obtain bs d1 where rd: "rd d (ring_base (q0 c) + (head (q0 c) AND (push_bit (unat (ring_log2 (q0 c))) 1 - 1))) 64 = (bs, d1)"
    by fastforce
  with Suc.prems(2,4) obtain rsp1 seq1 d2
    where r1: "run_cmds g h n c (line_cmds bs 0 (unpack_from bs 0 5)) (last_dcr_rsp c, seqnum (q0 c), d1) = Some (rsp1, seq1, d2)"
      and r2: "run_ring g h n c m (head (q0 c) + 64) (rsp1, seq1, d2) = Some (rsp', seq', d')"
    by (auto simp: hook_read_def bind_eq_Some_conv)
  obtain e where e: "leads g h (c, d) (e, d2)" "settled e" "same_setup c e" "head (q0 e) = head (q0 c) + 64"
    "seqnum (q0 e) = seq1" "last_dcr_rsp e = rsp1"
    using fetch_leads[OF Suc.prems(1) lt Suc.prems(2) rd r1] by blast
  have "\<exists>c'. leads g h (e, d2) (c', d') \<and> settled c' \<and> same_setup e c' \<and> head (q0 c') = tail (q0 e)
    \<and> seqnum (q0 c') = seq' \<and> last_dcr_rsp c' = rsp'"
  proof (rule Suc.IH[OF e(2) Suc.prems(2)])
    have "unat (head (q0 c) + 64) = unat (head (q0 c)) + 64"
      using Suc.prems(3) u64_bound[of "tail (q0 c)"] unat_plus_no_wrap[of "head (q0 c)" 64] by simp
    then show "unat (tail (q0 e)) = unat (head (q0 e)) + 64 * m"
      using Suc.prems(3) by (simp add: e(4) same_setupD[OF e(3)])
    show "run_ring g h n e m (head (q0 e)) (last_dcr_rsp e, seqnum (q0 e), d2) = Some (rsp', seq', d')"
      using r2 by (simp add: run_ring_cong[OF e(3)] e(4-6))
  qed
  then show ?case
    using leads_trans[OF e(1)] same_setup_trans[OF e(3)] same_setupD(5)[OF e(3)] by metis
qed

unbundle bit_operations_syntax

section \<open>The invariant of the state machines\<close>

text \<open>A clock edge, a register write of the host, or a move of the device.\<close>

inductive cp_step :: "cp_cfg \<Rightarrow> 'd hooks \<Rightarrow> cp \<times> 'd \<Rightarrow> cp \<times> 'd \<Rightarrow> bool" for g h where
  clock: "tick g h c d = Some s \<Longrightarrow> cp_step g h (c, d) s"
| host: "cp_step g h (c, d) (mmio_write c off value, d)"
| device: "cp_step g h (c, d) (c, d')"

text \<open>
  The line in the buffer is counted right and not overrun; an engine that is not idle executes the command of
  the current slot; a draw stays within its steps; a launch is under way only while the engine waits for it.
\<close>

definition line_ok :: "cp \<Rightarrow> bool" where
  "line_ok c \<longleftrightarrow> 64 dvd unat (head (q0 c))
     \<and> (cl_loaded c \<longrightarrow> cl_cmd_slot c \<le> cl_cmd_count c \<and> cl_cmd_count c = unpack_from (cl_buf c) 0 5)"

definition exec_ok :: "cp \<Rightarrow> bool" where
  "exec_ok c \<longleftrightarrow> cl_loaded c \<and> cl_cmd_slot c < cl_cmd_count c \<and> cur_cmd c = cur_slot c
     \<and> (cur_is_launch c \<longleftrightarrow> opcode (cur_cmd c) = OP_LAUNCH \<or> opcode (cur_cmd c) = OP_LAUNCH_QMD)"

definition draw_ok :: "cp \<Rightarrow> bool" where
  "draw_ok c \<longleftrightarrow> opcode (cur_cmd c) = OP_DRAW \<and> draw_step c \<le> draw_num_steps c \<and> draw_num_steps c \<le> 256"

definition cp_ok :: "cp \<Rightarrow> bool" where
  "cp_ok c \<longleftrightarrow> line_ok c \<and>
     (case eng_state c of
        Idle \<Rightarrow> launch_state c = LIdle
      | WaitDone \<Rightarrow> exec_ok c \<and> cur_is_launch c
      | DrawStep \<Rightarrow> exec_ok c \<and> draw_ok c \<and> launch_state c = LIdle
      | DrawLaunchWait \<Rightarrow> exec_ok c \<and> draw_ok c \<and> draw_step c < draw_num_steps c
      | _ \<Rightarrow> exec_ok c \<and> launch_state c = LIdle)"

lemma unpack_from_le: "unpack_from buf off n \<le> n"
  by (induction n arbitrary: off) (simp_all add: Let_def)

lemma unpack_from_fits:
  "s < unpack_from buf off n \<Longrightarrow> slot_offset buf off s + snd (decode_cmd_bytes buf (slot_offset buf off s)) \<le> 64"
proof (induction n arbitrary: off s)
  case (Suc n)
  then show ?case by (cases s) (auto simp: Let_def split: if_splits)
qed simp

lemma ok_frame [simp]:
  "line_ok (c\<lparr>cp_ctrl := x1\<rparr>) = line_ok c" "exec_ok (c\<lparr>cp_ctrl := x1\<rparr>) = exec_ok c" "draw_ok (c\<lparr>cp_ctrl := x1\<rparr>) = draw_ok c"
  "line_ok (c\<lparr>cp_satp := x2\<rparr>) = line_ok c" "exec_ok (c\<lparr>cp_satp := x2\<rparr>) = exec_ok c" "draw_ok (c\<lparr>cp_satp := x2\<rparr>) = draw_ok c"
  "line_ok (c\<lparr>cycle_counter := x2\<rparr>) = line_ok c" "exec_ok (c\<lparr>cycle_counter := x2\<rparr>) = exec_ok c"
  "draw_ok (c\<lparr>cycle_counter := x2\<rparr>) = draw_ok c"
  "line_ok (c\<lparr>last_dcr_rsp := x1\<rparr>) = line_ok c" "exec_ok (c\<lparr>last_dcr_rsp := x1\<rparr>) = exec_ok c"
  "draw_ok (c\<lparr>last_dcr_rsp := x1\<rparr>) = draw_ok c"
  "line_ok (c\<lparr>eng_state := x3\<rparr>) = line_ok c" "exec_ok (c\<lparr>eng_state := x3\<rparr>) = exec_ok c" "draw_ok (c\<lparr>eng_state := x3\<rparr>) = draw_ok c"
  "line_ok (c\<lparr>launch_state := x4\<rparr>) = line_ok c" "exec_ok (c\<lparr>launch_state := x4\<rparr>) = exec_ok c"
  "draw_ok (c\<lparr>launch_state := x4\<rparr>) = draw_ok c"
  "line_ok (c\<lparr>draw_cmd := x5\<rparr>) = line_ok c" "exec_ok (c\<lparr>draw_cmd := x5\<rparr>) = exec_ok c" "draw_ok (c\<lparr>draw_cmd := x5\<rparr>) = draw_ok c"
  "line_ok (c\<lparr>draw_step := x6\<rparr>) = line_ok c" "exec_ok (c\<lparr>draw_step := x6\<rparr>) = exec_ok c"
  "line_ok (c\<lparr>draw_num_steps := x6\<rparr>) = line_ok c" "exec_ok (c\<lparr>draw_num_steps := x6\<rparr>) = exec_ok c"
  "line_ok (c\<lparr>draw_phys := x7\<rparr>) = line_ok c" "exec_ok (c\<lparr>draw_phys := x7\<rparr>) = exec_ok c" "draw_ok (c\<lparr>draw_phys := x7\<rparr>) = draw_ok c"
  by (simp_all add: line_ok_def exec_ok_def draw_ok_def cur_slot_def)

lemma ok_queue:
  "exec_ok (c\<lparr>q0 := q\<rparr>) = exec_ok c" "draw_ok (c\<lparr>q0 := q\<rparr>) = draw_ok c"
  "head q = head (q0 c) \<Longrightarrow> line_ok (c\<lparr>q0 := q\<rparr>) = line_ok c"
  by (simp_all add: line_ok_def exec_ok_def draw_ok_def cur_slot_def)

lemma cp_ok_host: "cp_ok c \<Longrightarrow> cp_ok (mmio_write c off value)"
  by (simp add: mmio_write_def queue_write_def cp_ok_def ok_queue cong: eng_state.case_cong)

lemma cp_ok_launch: "cp_ok c \<Longrightarrow> cp_ok (fst (tick_launch h c d))"
  by (cases "launch_state c"; cases "eng_state c")
    (auto simp: cp_ok_def tick_launch_def split: option.split prod.split)


lemma head_aligned: "64 dvd unat x \<Longrightarrow> 64 dvd unat (x + 64 :: u64)"
  by (simp add: unat_word_ariths dvd_mod)

lemma fetch_ok: "line_ok c \<Longrightarrow> line_ok (fst (fetch_if_needed h c d))"
  by (auto simp: fetch_if_needed_def unpack_cl_def line_ok_def Let_def split: option.split prod.split)

lemma fetch_launch_state [simp]: "launch_state (fst (fetch_if_needed h c d)) = launch_state c"
  "eng_state (fst (fetch_if_needed h c d)) = eng_state c"
  by (auto simp: fetch_if_needed_def unpack_cl_def Let_def split: option.split prod.split)

lemma load_ok:
  assumes "line_ok c" "load_next_cmd c = (ok, c1)"
  shows "line_ok c1 \<and> (ok \<longrightarrow> exec_ok c1) \<and> launch_state c1 = launch_state c \<and> eng_state c1 = eng_state c"
  using assms
  by (auto simp: load_next_cmd_def line_ok_def exec_ok_def cur_slot_def Let_def head_aligned split: if_splits)

lemma cp_ok_idle:
  assumes "cp_ok c" "eng_state c = Idle" "tick_engine g h c d = Some (c1, d1)"
  shows "cp_ok c1"
proof -
  obtain e d2 where f: "fetch_if_needed h c d = (e, d2)" by fastforce
  obtain ok c2 where l: "load_next_cmd e = (ok, c2)" by fastforce
  have e: "line_ok e" "launch_state e = LIdle" "eng_state e = Idle"
    using fetch_ok[of c h d] fetch_launch_state[of h c d] assms(1,2) by (simp_all add: f cp_ok_def)
  have "c1 = (if ok then c2\<lparr>eng_state := Decode\<rparr> else c2)"
    using assms(2,3) f l by (simp add: tick_engine_def)
  then show ?thesis using load_ok[OF e(1) l] e by (simp add: cp_ok_def)
qed

lemma cp_ok_bid:
  assumes "cp_ok c" "eng_state c = Bid" "eng_bid g h c d = Some (c1, d1)"
  shows "cp_ok c1"
proof -
  have c: "line_ok c" "exec_ok c" "launch_state c = LIdle" using assms(1,2) by (simp_all add: cp_ok_def)
  have r: "cp_ok (c\<lparr>eng_state := Retire\<rparr>)" "cp_ok (c\<lparr>last_dcr_rsp := v, eng_state := Retire\<rparr>)" for v
    using c by (simp_all add: cp_ok_def)
  consider "cur_is_launch c" | "\<not> cur_is_launch c" "opcode (cur_cmd c) = OP_DRAW"
    | "\<not> cur_is_launch c" "opcode (cur_cmd c) \<noteq> OP_DRAW" by blast
  then show ?thesis
  proof cases
    case 1
    then have "c1 = c\<lparr>launch_state := PulseStart, eng_state := WaitDone\<rparr>"
      using assms(3) by (auto simp: eng_bid_def Let_def)
    then show ?thesis using c 1 by (simp add: cp_ok_def)
  next
    case 2
    then obtain phys n where "c1 = c\<lparr>draw_phys := phys, draw_num_steps := (if n > 256 then 256 else n), draw_step := 0,
       eng_state := DrawStep\<rparr>"
      using assms(3) by (auto simp: eng_bid_def Let_def bind_eq_Some_conv case_prod_unfold)
    then show ?thesis using c 2 by (simp add: cp_ok_def draw_ok_def not_less)
  next
    case 3
    then have "c1 = c \<or> c1 = c\<lparr>eng_state := Retire\<rparr> \<or> (\<exists>v. c1 = c\<lparr>last_dcr_rsp := v, eng_state := Retire\<rparr>)"
      using assms(3)
      by (auto simp: eng_bid_def Let_def do_dcr_read_def case_prod_unfold split: if_splits option.splits)
    then show ?thesis using r assms(1) by auto
  qed
qed


lemma exec_inline_state:
  assumes "exec_inline_cmd g h cm c d = Some (launched, c1, d1)"
  shows "if launched then c1 = c\<lparr>launch_state := PulseStart\<rparr> else c1 = c \<or> (\<exists>v. c1 = c\<lparr>last_dcr_rsp := v\<rparr>)"
proof -
  consider "opcode cm = OP_LAUNCH" | "opcode cm = OP_LAUNCH_QMD" | "opcode cm \<noteq> OP_LAUNCH" "opcode cm \<noteq> OP_LAUNCH_QMD"
    by blast
  then show ?thesis
  proof cases
    case 3
    then show ?thesis using assms by (auto simp: exec_inline_now[where n = 0])
  qed (use assms in \<open>auto simp: exec_inline_cmd_def\<close>)
qed

lemma draw_load_state: "\<exists>m. fst (draw_load_step h c d) = c\<lparr>draw_cmd := m\<rparr>"
  by (auto simp: draw_load_step_def split: option.split prod.split)

lemma draw_step_Suc:
  assumes "draw_ok c" "draw_step c < draw_num_steps c"
  shows "draw_ok (c\<lparr>draw_step := draw_step c + 1\<rparr>)"
  using assms ucast_Suc(2)[OF assms(2)] by (simp add: draw_ok_def word_le_nat_alt word_less_nat_alt)

lemma cp_ok_draw:
  assumes "cp_ok c" "eng_state c = DrawStep" "tick_engine g h c d = Some (c1, d1)"
  shows "cp_ok c1"
proof (cases "draw_num_steps c \<le> draw_step c")
  case True
  then have "c1 = c\<lparr>eng_state := Retire\<rparr>" using assms(2,3) by (simp add: tick_engine_def)
  then show ?thesis using assms(1,2) by (simp add: cp_ok_def)
next
  case False
  obtain m d2 where ld: "draw_load_step h c d = (c\<lparr>draw_cmd := m\<rparr>, d2)"
    using draw_load_state[of h c d] by (metis prod.collapse)
  obtain launched c2 d3 where x: "exec_inline_cmd g h m (c\<lparr>draw_cmd := m\<rparr>) d2 = Some (launched, c2, d3)"
    and c1: "c1 = (if launched then c2\<lparr>eng_state := DrawLaunchWait\<rparr> else c2\<lparr>draw_step := draw_step c2 + 1\<rparr>)"
    using assms(2,3) False ld by (auto simp: tick_engine_def bind_eq_Some_conv)
  have ok: "line_ok c" "exec_ok c" "draw_ok c" "launch_state c = LIdle" "draw_step c < draw_num_steps c"
    using assms(1,2) False by (simp_all add: cp_ok_def)
  show ?thesis
  proof (cases launched)
    case True
    then show ?thesis using exec_inline_state[OF x] c1 ok by (simp add: cp_ok_def)
  next
    case False
    then show ?thesis using exec_inline_state[OF x] c1 ok draw_step_Suc[of c2] assms(2)
      by (auto simp: cp_ok_def draw_ok_def)
  qed
qed

lemma cp_ok_engine:
  assumes "cp_ok c" "tick_engine g h c d = Some (c1, d1)"
  shows "cp_ok c1"
proof (cases "eng_state c")
  case Idle
  then show ?thesis by (rule cp_ok_idle[OF assms(1) _ assms(2)])
next
  case Decode
  then show ?thesis using assms by (auto simp: tick_engine_def cp_ok_def)
next
  case Bid
  then show ?thesis using assms cp_ok_bid[of c g h d c1 d1] by (simp add: tick_engine_def)
next
  case WaitDone
  then show ?thesis using assms by (auto simp: tick_engine_def cp_ok_def split: if_splits)
next
  case DrawStep
  then show ?thesis by (rule cp_ok_draw[OF assms(1) _ assms(2)])
next
  case DrawLaunchWait
  then show ?thesis
    using assms draw_step_Suc[of c] by (auto simp: tick_engine_def cp_ok_def split: if_splits)
next
  case Retire
  then show ?thesis
    using assms by (auto simp: tick_engine_def cp_ok_def line_ok_def exec_ok_def Let_def)
qed

lemma cp_ok_tick:
  assumes "cp_ok c" "tick g h c d = Some (c1, d1)"
  shows "cp_ok c1"
proof -
  let ?c = "c\<lparr>cycle_counter := cycle_counter c + 1\<rparr>"
  have c: "cp_ok ?c" using assms(1) by (simp add: cp_ok_def cong: eng_state.case_cong)
  show ?thesis
  proof (cases "enabled c")
    case True
    then obtain c2 d2 where e: "tick_engine g h ?c d = Some (c2, d2)" and l: "tick_launch h c2 d2 = (c1, d1)"
      using assms(2) by (auto simp: tick_enabled)
    show ?thesis using cp_ok_launch[OF cp_ok_engine[OF c e], of h d2] by (simp add: l)
  next
    case False
    then show ?thesis using assms(2) c by (simp add: tick_def)
  qed
qed

lemma cp_ok_new: "cp_ok cp_new"
  by (simp add: cp_ok_def cp_new_def line_ok_def queue0_new_def)

lemma cp_reachable_ok: "(cp_step g h)\<^sup>*\<^sup>* s t \<Longrightarrow> cp_ok (fst s) \<Longrightarrow> cp_ok (fst t)"
proof (induction rule: rtranclp_induct)
  case (step t u)
  from step.hyps(2) show ?case
  proof cases
    case (clock c d)
    then show ?thesis using cp_ok_tick[of c g h d] step by (cases u) simp
  qed (use step cp_ok_host in auto)
qed simp

text \<open>
  C17.  Whatever the host writes into the registers, however the device behind the hooks behaves and in whatever
  order clock edges, register writes and moves of the device come, the state machines keep in step: a kernel
  launch is under way only while the engine waits for it (for a launch command, or for a launch step of a draw),
  so a second launch cannot start before the first has drained; an engine that is not idle works on the command
  of the current slot of a loaded line, the slot is one of at most five, that command lies inside the 64 bytes
  of the line, and a draw is never walked past its at most 256 steps.
\<close>

theorem cp_machine_invariant:
  assumes "(cp_step g h)\<^sup>*\<^sup>* (cp_new, d0) (c, d)"
  shows "(launch_state c \<noteq> LIdle \<longrightarrow>
            (eng_state c = WaitDone \<and> (opcode (cur_cmd c) = OP_LAUNCH \<or> opcode (cur_cmd c) = OP_LAUNCH_QMD)
             \<or> eng_state c = DrawLaunchWait \<and> opcode (cur_cmd c) = OP_DRAW))
    \<and> (eng_state c \<noteq> Idle \<longrightarrow>
         cl_loaded c \<and> cl_cmd_slot c < cl_cmd_count c \<and> cl_cmd_count c \<le> 5
         \<and> (let off = slot_offset (cl_buf c) 0 (cl_cmd_slot c)
             in cur_cmd c = fst (decode_cmd_bytes (cl_buf c) off) \<and> off + snd (decode_cmd_bytes (cl_buf c) off) \<le> 64))
    \<and> (eng_state c = DrawStep \<or> eng_state c = DrawLaunchWait \<longrightarrow>
         draw_step c \<le> draw_num_steps c \<and> draw_num_steps c \<le> 256)"
proof -
  have ok: "cp_ok c" using cp_reachable_ok[OF assms] cp_ok_new by simp
  have x: "exec_ok c" if "eng_state c \<noteq> Idle" using ok that by (cases "eng_state c") (simp_all add: cp_ok_def)
  have n: "cl_cmd_count c = unpack_from (cl_buf c) 0 5" if "cl_loaded c" using ok that by (simp add: cp_ok_def line_ok_def)
  have "launch_state c \<noteq> LIdle \<longrightarrow>
      (eng_state c = WaitDone \<and> (opcode (cur_cmd c) = OP_LAUNCH \<or> opcode (cur_cmd c) = OP_LAUNCH_QMD)
       \<or> eng_state c = DrawLaunchWait \<and> opcode (cur_cmd c) = OP_DRAW)"
    using ok by (cases "eng_state c") (auto simp: cp_ok_def exec_ok_def draw_ok_def)
  moreover have "cl_cmd_count c \<le> 5"
    "slot_offset (cl_buf c) 0 (cl_cmd_slot c) + snd (decode_cmd_bytes (cl_buf c) (slot_offset (cl_buf c) 0 (cl_cmd_slot c))) \<le> 64"
    if "eng_state c \<noteq> Idle"
    using x[OF that] n unpack_from_le[of "cl_buf c" 0 5] unpack_from_fits[of "cl_cmd_slot c" "cl_buf c" 0 5]
    by (simp_all add: exec_ok_def)
  moreover have "draw_step c \<le> draw_num_steps c \<and> draw_num_steps c \<le> 256" if "eng_state c = DrawStep \<or> eng_state c = DrawLaunchWait"
    using ok that by (auto simp: cp_ok_def draw_ok_def)
  ultimately show ?thesis
    using x by (simp add: Let_def exec_ok_def cur_slot_def)
qed


section \<open>The ring is executed\<close>

text \<open>
  C16.  The clocked machine executes the ring: from an idle enabled processor with \<open>m\<close> lines between head and tail,
  if the sequential reference run of those lines completes (each line read from memory when its turn comes, its
  commands executed in order with the effects of the reference semantics, the completion count published after
  each one, kernels and event waits ending within \<open>n\<close> polls), then after finitely many ticks the machine has reached
  exactly the device state, response register and number of retired commands of the reference run, has consumed
  the ring up to its tail and is no longer busy.
\<close>

theorem cp_executes_ring:
  assumes "settled c" "dram_read h = Some rd" "unat (tail (q0 c)) = unat (head (q0 c)) + 64 * m"
    and "run_ring g h n c m (head (q0 c)) (last_dcr_rsp c, seqnum (q0 c), d) = Some (rsp', seq', d')"
  shows "\<exists>k c'. ticks g h k (c, d) = Some (c', d') \<and> head (q0 c') = tail (q0 c) \<and> tail (q0 c') = tail (q0 c)
    \<and> seqnum (q0 c') = seq' \<and> last_dcr_rsp c' = rsp' \<and> \<not> busy c'"
proof -
  obtain c' where c: "leads g h (c, d) (c', d')" "settled c'" "same_setup c c'" "head (q0 c') = tail (q0 c)"
    "seqnum (q0 c') = seq'" "last_dcr_rsp c' = rsp'"
    using ring_leads[OF assms] by blast
  have "tail (q0 c') = tail (q0 c)" using same_setupD(5)[OF c(3)] .
  moreover from this have "\<not> busy c'" using c(2,4) by (simp add: busy_def settled_def)
  moreover obtain k where "ticks g h k (c, d) = Some (c', d')" using c(1) by (auto simp: leads_def)
  ultimately show ?thesis using c(4-6) by blast
qed

text \<open>A concrete device: memory, the log of register writes, the answers of the busy line.\<close>

type_synonym cpd_dev = "(u64 \<Rightarrow> u8) \<times> (u32 \<times> u32) list \<times> bool list"

fun cpd_busy :: "cpd_dev \<Rightarrow> bool \<times> cpd_dev" where
  "cpd_busy (m, l, []) = (False, (m, l, []))"
| "cpd_busy (m, l, b # bs) = (b, (m, l, bs))"

definition cpd_hooks :: "cpd_dev hooks" where
  "cpd_hooks = \<lparr>
     dram_read = Some (\<lambda>(m, l, b) a n. (map (\<lambda>i. m (a + of_nat i)) [0..<n], (m, l, b))),
     dram_write = Some (\<lambda>(m, l, b) a bs. (\<lambda>x. if unat (x - a) < length bs then bs ! unat (x - a) else m x, l, b)),
     vortex_dcr_write = Some (\<lambda>(m, l, b) a v. (m, l @ [(a, v)], b)),
     vortex_dcr_read = None,
     vortex_start = Some id,
     vortex_busy = Some cpd_busy\<rparr>"

definition cpd_line :: "u8 list" where
  "cpd_line = [0x04, 0, 0, 0] @ le_bytes 8 (0x00C :: u64) @ le_bytes 8 (0x1234 :: u64) @ [0x06, 0, 0, 0] @ replicate 40 0"

definition cpd_state :: "bool list \<Rightarrow> cpd_dev" where
  "cpd_state b = (\<lambda>a. if 0x1000 \<le> a \<and> a < 0x1040 then cpd_line ! unat (a - 0x1000) else 0, [], b)"

definition cpd_cp :: cp where
  "cpd_cp = cp_new\<lparr>cp_ctrl := 1, q0 := queue0_new\<lparr>ring_base := 0x1000, control := 1, tail := 64\<rparr>\<rparr>"

definition cpd_cfg :: cp_cfg where
  "cpd_cfg = \<lparr>vm_enable = False, rv64 = True, gpu = demo_gpu\<rparr>"

lemma cpd_run:
  "map_option (\<lambda>(r, s, d). (r, s, snd d))
     (run_ring cpd_cfg cpd_hooks 3 cpd_cp 1 0 (0, 0, cpd_state [False, True, False])) = Some (0, 2, [(0x00C, 0x1234)], [])"
  by code_simp


theorem cp_executes_ring_witness:
  "\<exists>k c' m. ticks cpd_cfg cpd_hooks k (cpd_cp, cpd_state [False, True, False]) = Some (c', (m, [(0x00C, 0x1234)], []))
    \<and> head (q0 c') = 64 \<and> seqnum (q0 c') = 2 \<and> \<not> busy c'"
proof -
  obtain m where r: "run_ring cpd_cfg cpd_hooks 3 cpd_cp 1 (head (q0 cpd_cp))
      (last_dcr_rsp cpd_cp, seqnum (q0 cpd_cp), cpd_state [False, True, False]) = Some (0, 2, (m, [(0x00C, 0x1234)], []))"
    using cpd_run by (auto simp: cpd_cp_def cp_new_def queue0_new_def)
  have s: "settled cpd_cp"
    by (simp add: settled_def enabled_def cpd_cp_def cp_new_def queue0_new_def)
  have t: "unat (tail (q0 cpd_cp)) = unat (head (q0 cpd_cp)) + 64 * 1" "tail (q0 cpd_cp) = 64"
    by (simp_all add: cpd_cp_def cp_new_def queue0_new_def)
  obtain rd where d: "dram_read cpd_hooks = Some rd" by (simp add: cpd_hooks_def)
  from cp_executes_ring[OF s d t(1) r] show ?thesis by (auto simp: t(2))
qed

text \<open>
  C25.  A kernel that ends before the busy line is sampled is lost: the launch machine waits to see the busy line
  high before it waits to see it low, so once the line stays low the launch command never retires.  The
  processor stays busy for ever, and neither the head of the ring nor the completion count moves.
\<close>

theorem cp_misses_short_kernel:
  assumes "enabled c" "eng_state c = WaitDone" "cur_is_launch c" "launch_state c = WaitBusy"
    and "vortex_busy h = Some b" "\<And>d. \<not> fst (b d)"
  shows "\<exists>c' d'. ticks g h k (c, d) = Some (c', d') \<and> eng_state c' = WaitDone \<and> q0 c' = q0 c \<and> busy c'"
  using assms(1-4)
proof (induction k arbitrary: c d)
  case 0
  then show ?case by (simp add: busy_def)
next
  case (Suc k)
  let ?c = "c\<lparr>cycle_counter := cycle_counter c + 1\<rparr>"
  have "tick g h c d = Some (?c, snd (b d))"
    using Suc.prems assms(5,6) by (simp add: tick_waiting tick_launch_def case_prod_unfold)
  moreover have "\<exists>c' d'. ticks g h k (?c, snd (b d)) = Some (c', d') \<and> eng_state c' = WaitDone \<and> q0 c' = q0 ?c \<and> busy c'"
    by (rule Suc.IH) (use Suc.prems in simp_all)
  ultimately show ?case by simp
qed

theorem cp_misses_short_kernel_witness:
  "\<forall>k. \<exists>c' d'. ticks cpd_cfg (cpd_hooks\<lparr>vortex_busy := Some (Pair False)\<rparr>) k
      (cpd_cp\<lparr>eng_state := WaitDone, cur_is_launch := True, launch_state := WaitBusy\<rparr>, cpd_state []) = Some (c', d')
    \<and> eng_state c' = WaitDone \<and> seqnum (q0 c') = 0 \<and> busy c'"
proof
  fix k
  let ?c = "cpd_cp\<lparr>eng_state := WaitDone, cur_is_launch := True, launch_state := WaitBusy\<rparr>"
  have "\<exists>c' d'. ticks cpd_cfg (cpd_hooks\<lparr>vortex_busy := Some (Pair False)\<rparr>) k (?c, cpd_state []) = Some (c', d')
    \<and> eng_state c' = WaitDone \<and> q0 c' = q0 ?c \<and> busy c'"
    by (rule cp_misses_short_kernel[where b = "Pair False"])
      (simp_all add: enabled_def cpd_cp_def cp_new_def queue0_new_def)
  then show "\<exists>c' d'. ticks cpd_cfg (cpd_hooks\<lparr>vortex_busy := Some (Pair False)\<rparr>) k (?c, cpd_state []) = Some (c', d')
    \<and> eng_state c' = WaitDone \<and> seqnum (q0 c') = 0 \<and> busy c'"
    by (auto simp: cpd_cp_def queue0_new_def)
qed

lemma ticks_steps: "ticks g h k s = Some t \<Longrightarrow> (cp_step g h)\<^sup>*\<^sup>* s t"
proof (induction k arbitrary: s)
  case (Suc k)
  then obtain u where u: "tick g h (fst s) (snd s) = Some u" "ticks g h k u = Some t" by (auto simp: bind_eq_Some_conv)
  have "cp_step g h s u" using clock[OF u(1)] by simp
  then show ?case using Suc.IH[OF u(2)] by simp
qed simp

lemma host_steps: "(cp_step g h)\<^sup>*\<^sup>* (c, d) (fold (\<lambda>(off, v) c. mmio_write c off v) ws c, d)"
proof (induction ws arbitrary: c)
  case (Cons w ws)
  obtain off v where w: "w = (off, v)" by fastforce
  have "cp_step g h (c, d) (mmio_write c off v, d)" by (rule host)
  then show ?case using Cons[of "mmio_write c off v"] by (simp add: w)
qed simp

definition cpd_setup :: cp where
  "cpd_setup = fold (\<lambda>(off, v) c. mmio_write c off v) [(0x000, 1), (0x100, 0x1000), (0x11C, 1), (0x120, 64), (0x124, 0)] cp_new"

lemma cpd_launch:
  "map_option (\<lambda>(c, d). (eng_state c, launch_state c, cl_cmd_slot c)) (ticks cpd_cfg cpd_hooks 7 (cpd_setup, cpd_state []))
     = Some (WaitDone, WaitBusy, 1)"
  by code_simp

theorem cp_machine_invariant_witness:
  "\<exists>c d. (cp_step cpd_cfg cpd_hooks)\<^sup>*\<^sup>* (cp_new, cpd_state []) (c, d) \<and> launch_state c = WaitBusy
     \<and> (opcode (cur_cmd c) = OP_LAUNCH \<or> opcode (cur_cmd c) = OP_LAUNCH_QMD) \<and> cl_cmd_count c \<le> 5"
proof -
  obtain c d where t: "ticks cpd_cfg cpd_hooks 7 (cpd_setup, cpd_state []) = Some (c, d)"
    and c: "eng_state c = WaitDone" "launch_state c = WaitBusy" using cpd_launch by auto
  have r: "(cp_step cpd_cfg cpd_hooks)\<^sup>*\<^sup>* (cp_new, cpd_state []) (c, d)"
    using host_steps ticks_steps[OF t] unfolding cpd_setup_def by (rule rtranclp_trans)
  then show ?thesis using cp_machine_invariant[OF r] c by (intro exI[of _ c] exI[of _ d]) (auto simp: Let_def)
qed

end
