(* ===== verification/Cp_Dma.thy ===== *)
theory Cp_Dma
  imports Cp_Exec Ram
begin

text \<open>
  What the command processor's memory commands do to a memory that behaves like an array of bytes: the
  interface of such a memory, the copy engine, and the replay of launch descriptors.
\<close>

unbundle bit_operations_syntax

section \<open>Moving bytes\<close>

lemma move_bytes_join:
  assumes "n + k < 2 ^ 64" "n + k \<le> unat (dst - src :: u64)"
  shows "move_bytes (move_bytes m dst src n) (dst + of_nat n) (src + of_nat n) k = move_bytes m dst src (n + k)"
proof
  fix x
  have u: "unat (of_nat n :: u64) = n" using assms(1) by (simp add: unat_of_nat)
  have off: "unat (x - (dst + of_nat n)) = (if n \<le> unat (x - dst) then unat (x - dst) - n else unat (x - dst) + 2 ^ 64 - n)"
    using u by (simp add: unat_sub_if_size diff_diff_eq[symmetric] word_size)
  have src: "src + of_nat n + (x - (dst + of_nat n)) = src + (x - dst)" by simp
  show "move_bytes (move_bytes m dst src n) (dst + of_nat n) (src + of_nat n) k x = move_bytes m dst src (n + k) x"
  proof (cases "n \<le> unat (x - dst) \<and> unat (x - dst) < n + k")
    case True
    have r: "src + (x - dst) - dst = (x - dst) - (dst - src)" by simp
    have "unat (src + (x - dst) - dst) = unat (x - dst) + 2 ^ 64 - unat (dst - src)"
      unfolding r unat_sub_if_size[of "x - dst" "dst - src"] using True assms(2) by (simp add: word_size)
    moreover have "\<not> a < n" if "a = b + 2 ^ 64 - c" "n \<le> b" "c < 18446744073709551616" for a b c :: nat
      using that by simp
    ultimately have "\<not> unat (src + (x - dst) - dst) < n" using True[THEN conjunct1] u64_bound by blast
    moreover have "unat (x - dst) - n < k" "n \<le> unat (x - dst)" "unat (x - dst) < n + k"
      using True by (auto simp: less_diff_conv2)
    ultimately show ?thesis using off src by (simp add: move_bytes_def)
  next
    case False
    then show ?thesis using assms(1) off u64_bound[of "x - dst"] by (auto simp: move_bytes_def)
  qed
qed

section \<open>The memory interface\<close>

text \<open>
  \<open>byte\<close> is the content of the memory behind the two hooks and \<open>span\<close> says which ranges they serve as one
  piece.  A read may change the state behind the hook, but not the content.
\<close>

locale byte_store =
  fixes rd :: "'d \<Rightarrow> u64 \<Rightarrow> nat \<Rightarrow> u8 list \<times> 'd"
    and wr :: "'d \<Rightarrow> u64 \<Rightarrow> u8 list \<Rightarrow> 'd"
    and byte :: "'d \<Rightarrow> u64 \<Rightarrow> u8"
    and span :: "'d \<Rightarrow> u64 \<Rightarrow> nat \<Rightarrow> bool"
  assumes rd_bytes: "span d a n \<Longrightarrow> fst (rd d a n) = map (\<lambda>i. byte d (a + of_nat i)) [0..<n]"
    and rd_same: "span d a n \<Longrightarrow> byte (snd (rd d a n)) = byte d \<and> span (snd (rd d a n)) = span d"
    and wr_bytes: "span d a (length bs) \<Longrightarrow> byte (wr d a bs) = put_bytes (byte d) a bs"
    and wr_span: "span d a (length bs) \<Longrightarrow> span (wr d a bs) = span d"
    and span_part: "span d a n \<Longrightarrow> i + k \<le> n \<Longrightarrow> span d (a + of_nat i) k"
    and span_size: "span d a n \<Longrightarrow> n < 2 ^ 64"
begin

lemma rd_length: "span d a n \<Longrightarrow> length (fst (rd d a n)) = n"
  by (simp add: rd_bytes)

lemma copy_chunk:
  assumes "span d dst n" "span d src n"
  shows "byte (wr (snd (rd d src n)) dst (fst (rd d src n))) = move_bytes (byte d) dst src n"
    "span (wr (snd (rd d src n)) dst (fst (rd d src n))) = span d"
proof -
  have s: "span (snd (rd d src n)) dst (length (fst (rd d src n)))"
    using assms rd_same[OF assms(2)] rd_length[OF assms(2)] by simp
  have n: "n < 2 ^ 64" by (rule span_size[OF assms(1)])
  show "byte (wr (snd (rd d src n)) dst (fst (rd d src n))) = move_bytes (byte d) dst src n"
  proof
    fix x
    have "of_nat (unat (x - dst)) = x - dst" by simp
    then show "byte (wr (snd (rd d src n)) dst (fst (rd d src n))) x = move_bytes (byte d) dst src n x"
      unfolding wr_bytes[OF s] using n
      by (simp add: put_bytes_at rd_same[OF assms(2)] rd_bytes[OF assms(2)] move_bytes_def)
  qed
  show "span (wr (snd (rd d src n)) dst (fst (rd d src n))) = span d"
    using wr_span[OF s] rd_same[OF assms(2)] by simp
qed

text \<open>
  The copy goes through a buffer of 64 KiB: it is exact when the transfer fits the buffer or when the
  destination does not start inside the source.
\<close>

lemma dma_copy_move:
  assumes "span d dst n" "span d src n" "n \<le> unat (dst - src)"
  shows "byte (dma_copy rd wr d dst src n) = move_bytes (byte d) dst src n \<and> span (dma_copy rd wr d dst src n) = span d"
  using assms
proof (induction n arbitrary: d dst src rule: less_induct)
  case (less n)
  show ?case
  proof (cases "n = 0")
    case True
    then show ?thesis by (simp add: dma_copy.simps[of _ _ _ _ _ 0] move_bytes_0)
  next
    case False
    define m where "m = min n 65536"
    define e where "e = wr (snd (rd d src m)) dst (fst (rd d src m))"
    have m: "m \<le> n" "m \<noteq> 0" using False by (simp_all add: m_def)
    have sp: "span d dst m" "span d src m" "span d (dst + of_nat m) (n - m)" "span d (src + of_nat m) (n - m)"
      using m less.prems span_part[of d dst n 0 m] span_part[of d src n 0 m] span_part[of d dst n m "n - m"]
        span_part[of d src n m "n - m"] by simp_all
    have e: "byte e = move_bytes (byte d) dst src m" "span e = span d"
      using copy_chunk[OF sp(1,2)] by (simp_all add: e_def)
    have "dma_copy rd wr d dst src n = dma_copy rd wr e (dst + of_nat m) (src + of_nat m) (n - m)"
      using False by (subst dma_copy.simps) (simp add: Let_def m_def[symmetric] e_def case_prod_unfold)
    moreover have "byte (dma_copy rd wr e (dst + of_nat m) (src + of_nat m) (n - m))
        = move_bytes (byte e) (dst + of_nat m) (src + of_nat m) (n - m)
      \<and> span (dma_copy rd wr e (dst + of_nat m) (src + of_nat m) (n - m)) = span e"
      by (rule less.IH) (use m sp less.prems in \<open>simp_all add: e\<close>)
    moreover have "move_bytes (move_bytes (byte d) dst src m) (dst + of_nat m) (src + of_nat m) (n - m)
        = move_bytes (byte d) dst src n"
      using move_bytes_join[of m "n - m" dst src "byte d"] m less.prems span_size[OF less.prems(1)] by simp
    ultimately show ?thesis using e by simp
  qed
qed

lemma dma_copy_small:
  assumes "span d dst n" "span d src n" "n \<le> 65536"
  shows "byte (dma_copy rd wr d dst src n) = move_bytes (byte d) dst src n \<and> span (dma_copy rd wr d dst src n) = span d"
proof (cases "n = 0")
  case False
  then have "dma_copy rd wr d dst src n = wr (snd (rd d src n)) dst (fst (rd d src n))"
    using assms(3) by (subst dma_copy.simps) (simp add: dma_copy.simps[of _ _ _ _ _ 0] Let_def case_prod_unfold)
  then show ?thesis using copy_chunk[OF assms(1,2)] by simp
qed (simp add: dma_copy.simps[of _ _ _ _ _ 0] move_bytes_0)

text \<open>A byte string in memory.\<close>

definition holds :: "'d \<Rightarrow> u64 \<Rightarrow> u8 list \<Rightarrow> bool" where
  "holds d a bs \<longleftrightarrow> span d a (length bs) \<and> map (\<lambda>i. byte d (a + of_nat i)) [0..<length bs] = bs"

lemma holds_rd: "holds d a bs \<Longrightarrow> fst (rd d a (length bs)) = bs"
  by (simp add: holds_def rd_bytes)

lemma holds_append:
  assumes "holds d a (xs @ ys)"
  shows "holds d a xs" "holds d (a + of_nat (length xs)) ys"
proof -
  have eq: "byte d (a + of_nat i) = (xs @ ys) ! i" if "i < length xs + length ys" for i
    using assms that unfolding holds_def by (metis (no_types, lifting) length_append length_upt minus_nat.diff_0 nth_map_upt add_0)
  have sp: "span d a (length xs + length ys)" using assms by (simp add: holds_def)
  show "holds d a xs"
    using span_part[OF sp, of 0 "length xs"] eq by (auto simp: holds_def nth_append intro!: nth_equalityI)
  show "holds d (a + of_nat (length xs)) ys"
    using span_part[OF sp, of "length xs" "length ys"] eq[of "length xs + _"]
    by (auto simp: holds_def nth_append add.assoc intro!: nth_equalityI)
qed

lemma holds_cong: "byte e = byte d \<Longrightarrow> span e = span d \<Longrightarrow> holds e = holds d"
  by (simp add: holds_def fun_eq_iff)

end

section \<open>Address translation\<close>

text \<open>The entries a walk visits satisfy a predicate on their addresses.\<close>

fun walk_in :: "bool \<Rightarrow> (u64 \<Rightarrow> bool) \<Rightarrow> (u64 \<Rightarrow> u64) \<Rightarrow> u64 list \<Rightarrow> nat \<Rightarrow> u64 \<Rightarrow> bool" where
  "walk_in w P entry vpn i base =
     (P (pt_entry_addr w base (vpn ! i)) \<and>
      (case pte_of w (entry (pt_entry_addr w base (vpn ! i))) of
         None \<Rightarrow> True
       | Some p \<Rightarrow> (case i of 0 \<Rightarrow> True | Suc j \<Rightarrow> walk_in w P entry vpn j (pte_ppn p))))"

declare walk_in.simps [simp del]

context byte_store
begin

definition entry_at :: "bool \<Rightarrow> 'd \<Rightarrow> u64 \<Rightarrow> u64" where
  "entry_at w d a = le_word (map (\<lambda>i. byte d (a + of_nat i)) [0..<VM_PTE_SIZE w])"

lemma cp_walk_leaf:
  assumes "dram_read h = Some rd"
    and "walk_in w (\<lambda>a. span d a (VM_PTE_SIZE w)) (entry_at w d) vpn i base"
    and "pt_leaf w (entry_at w d) vpn i base = Some (p, l)"
  shows "\<exists>d'. cp_walk w h vpn d i base = Some (Some (pte_ppn p, l), d') \<and> byte d' = byte d \<and> span d' = span d"
  using assms(2,3)
proof (induction i arbitrary: d base)
  case 0
  let ?a = "pt_entry_addr w base (vpn ! 0)"
  have sp: "span d ?a (VM_PTE_SIZE w)" using 0(1) by (simp add: walk_in.simps)
  have r: "le_word (fst (rd d ?a (VM_PTE_SIZE w))) = entry_at w d ?a" by (simp add: rd_bytes[OF sp] entry_at_def)
  show ?case
    using 0(2) rd_same[OF sp] r
    by (auto simp: pt_leaf.simps cp_walk.simps hook_read_def assms(1) case_prod_unfold split: option.splits if_splits)
next
  case (Suc i)
  let ?a = "pt_entry_addr w base (vpn ! Suc i)"
  have sp: "span d ?a (VM_PTE_SIZE w)" using Suc.prems(1) by (simp add: walk_in.simps)
  have r: "le_word (fst (rd d ?a (VM_PTE_SIZE w))) = entry_at w d ?a" by (simp add: rd_bytes[OF sp] entry_at_def)
  define e where "e = snd (rd d ?a (VM_PTE_SIZE w))"
  have e: "byte e = byte d" "span e = span d" "entry_at w e = entry_at w d"
    using rd_same[OF sp] by (simp_all add: e_def entry_at_def fun_eq_iff)
  obtain q where q: "pte_of w (entry_at w d ?a) = Some q" "pte_v q"
    using Suc.prems(2) by (auto simp: pt_leaf.simps split: option.splits if_splits)
  show ?case
  proof (cases "\<not> pte_r q \<and> \<not> pte_w q \<and> \<not> pte_x q")
    case True
    have "\<exists>d'. cp_walk w h vpn e i (pte_ppn q) = Some (Some (pte_ppn p, l), d') \<and> byte d' = byte e \<and> span d' = span e"
      by (rule Suc.IH) (use Suc.prems q True in \<open>simp_all add: e pt_leaf.simps[of w _ _ "Suc i"] walk_in.simps[of w _ _ _ "Suc i"]\<close>)
    then show ?thesis
      using q True r by (simp add: cp_walk.simps[of w _ _ _ "Suc i"] hook_read_def assms(1) case_prod_unfold e_def[symmetric] e)
  next
    case False
    then have "p = q" "l = Suc i" using Suc.prems(2) q by (auto simp: pt_leaf.simps split: if_splits)
    then show ?thesis
      using q False r e by (auto simp: cp_walk.simps[of w _ _ _ "Suc i"] hook_read_def assms(1) case_prod_unfold e_def[symmetric])
  qed
qed

end

section \<open>Launch descriptors\<close>

text \<open>The pairs of a descriptor as they lie in memory.\<close>

definition pair_bytes :: "(u32 \<times> u32) list \<Rightarrow> u8 list" where
  "pair_bytes ps = concat (map (\<lambda>(a, v). le_bytes 4 a @ le_bytes 4 v) ps)"

text \<open>A memory beside a register file that the descriptor is replayed into.\<close>

locale launch_store = byte_store rd wr byte span
  for rd :: "'d \<Rightarrow> u64 \<Rightarrow> nat \<Rightarrow> u8 list \<times> 'd" and wr byte span +
  fixes dcr :: "'d \<Rightarrow> u32 \<Rightarrow> u32 \<Rightarrow> 'd"
    and regs :: "'d \<Rightarrow> 'k"
    and put_reg :: "'k \<Rightarrow> u32 \<Rightarrow> u32 \<Rightarrow> 'k"
  assumes dcr_regs: "regs (dcr d r v) = put_reg (regs d) r v"
    and dcr_same: "byte (dcr d r v) = byte d \<and> span (dcr d r v) = span d"
    and rd_regs: "span d a n \<Longrightarrow> regs (snd (rd d a n)) = regs d"
begin

lemma qmd_replay_regs:
  assumes "holds d addr (pair_bytes ps)"
  shows "regs (qmd_replay rd dcr d addr (length ps)) = fold (\<lambda>(a, v) k. put_reg k (a AND 0xFFF) v) ps (regs d)
    \<and> byte (qmd_replay rd dcr d addr (length ps)) = byte d"
  using assms
proof (induction ps arbitrary: d addr)
  case (Cons p ps)
  obtain a v where p: "p = (a, v)" by fastforce
  let ?b = "le_bytes 4 a @ le_bytes 4 v"
  have "holds d addr (?b @ pair_bytes ps)" using Cons.prems by (simp add: p pair_bytes_def)
  note h = holds_append[OF this]
  have r: "fst (rd d addr 8) = ?b" using holds_rd[OF h(1)] by simp
  have sp: "span d addr 8" using h(1) by (simp add: holds_def)
  define e where "e = dcr (snd (rd d addr 8)) (a AND 0xFFF) v"
  have e: "byte e = byte d" "span e = span d" "regs e = put_reg (regs d) (a AND 0xFFF) v"
    using rd_same[OF sp] rd_regs[OF sp] dcr_same[of "snd (rd d addr 8)"] by (simp_all add: e_def dcr_regs)
  have "holds e (addr + 8) (pair_bytes ps)" using h(2) holds_cong[OF e(1,2)] by simp
  from Cons.IH[OF this] show ?case
    using r by (simp add: p e case_prod_unfold e_def[symmetric] le_word_bytes)
qed simp

end

end
