(* ===== verification/Simx_Driver.thy ===== *)
theory Simx_Driver
  imports Cp_Dma Launch
begin

text \<open>
  The simulator back end of the runtime, \<open>vx_device\<close> of \<open>src/vortex/sw/runtime/simx/vortex.cpp\<close>: the register
  channel with its bursts of ticks, the host memory regions the command processor can see, and the hooks
  that connect the command processor to the memory and to the processor, with the register routing of
  \<open>src/vortex/sim/simx/processor.cpp\<close>.

  The clusters of the processor, the simulation of a kernel and the scheduling of the thread it runs on are
  parameters.
\<close>

unbundle bit_operations_syntax

section \<open>The processor\<close>

record 'c proc =
  proc_kmu :: kmu
  proc_clusters :: "'c list"

text \<open>
  The environment: register accesses of a cluster (the Boolean is a zero return code), the cache flush, the
  run of a kernel, and how often the future of a run is found not ready.
\<close>

record 'c sim_env =
  cluster_write :: "'c \<Rightarrow> u32 \<Rightarrow> u32 \<Rightarrow> bool \<times> 'c"
  cluster_read :: "'c \<Rightarrow> u32 \<Rightarrow> u32 \<Rightarrow> u32 \<Rightarrow> bool \<times> u32 \<times> 'c"
  flush_caches :: "'c list \<Rightarrow> ram \<Rightarrow> 'c list \<times> ram"
  proc_run :: "'c proc \<Rightarrow> ram \<Rightarrow> 'c proc \<times> ram"
  run_polls :: "'c proc \<Rightarrow> ram \<Rightarrow> nat"

fun clusters_write :: "'c sim_env \<Rightarrow> 'c list \<Rightarrow> u32 \<Rightarrow> u32 \<Rightarrow> bool \<times> 'c list" where
  "clusters_write v [] addr val = (True, [])"
| "clusters_write v (c # cs) addr val =
     (case cluster_write v c addr val of
        (ok, c1) \<Rightarrow> if \<not> ok then (False, c1 # cs) else map_prod id ((#) c1) (clusters_write v cs addr val))"

definition proc_dcr_write :: "'c sim_env \<Rightarrow> 'c proc \<Rightarrow> u32 \<Rightarrow> u32 \<Rightarrow> bool \<times> 'c proc" where
  "proc_dcr_write v p addr val =
     (let is_kmu_dcr = (addr \<ge> 0x010 \<and> addr < 0x024)
      in if is_kmu_dcr then (True, p\<lparr>proc_kmu := kmu_dcr_write (proc_kmu p) addr val\<rparr>)
         else map_prod id (\<lambda>cs. p\<lparr>proc_clusters := cs\<rparr>) (clusters_write v (proc_clusters p) addr val))"

fun clusters_read :: "'c sim_env \<Rightarrow> 'c list \<Rightarrow> u32 \<Rightarrow> u32 \<Rightarrow> u32 \<Rightarrow> bool \<times> u32 \<times> 'c list" where
  "clusters_read v [] addr tag val = (True, val, [])"
| "clusters_read v (c # cs) addr tag val =
     (case cluster_read v c addr tag val of
        (ok, val1, c1) \<Rightarrow>
          if \<not> ok then (False, val1, c1 # cs)
          else map_prod id (map_prod id ((#) c1)) (clusters_read v cs addr tag val1))"

definition proc_dcr_read :: "'c sim_env \<Rightarrow> 'c proc \<Rightarrow> ram \<Rightarrow> u32 \<Rightarrow> u32 \<Rightarrow> u32 \<Rightarrow> bool \<times> u32 \<times> 'c proc \<times> ram" where
  "proc_dcr_read v p r addr tag val =
     (if addr = 0x000 then
        (case flush_caches v (proc_clusters p) r of (cs, r1) \<Rightarrow> (True, 0, p\<lparr>proc_clusters := cs\<rparr>, r1))
      else
        (case clusters_read v (proc_clusters p) addr tag val of
           (ok, val1, cs) \<Rightarrow> (ok, val1, p\<lparr>proc_clusters := cs\<rparr>, r)))"

section \<open>The device\<close>

text \<open>
  \<open>s_future\<close> is \<open>None\<close> before the first launch and afterwards the number of further polls that find the
  run not ready.  \<open>s_regions\<close> is the ordered map of host allocations; host memory is a function.
\<close>

record 'c simx =
  s_ram :: ram
  s_proc :: "'c proc"
  s_future :: "nat option"
  s_regions :: "(u64 \<times> u64) list"
  s_host :: "u64 \<Rightarrow> u8"

fun region_put :: "u64 \<Rightarrow> u64 \<Rightarrow> (u64 \<times> u64) list \<Rightarrow> (u64 \<times> u64) list" where
  "region_put base sz [] = [(base, sz)]"
| "region_put base sz ((b, s) # rs) =
     (if base < b then (base, sz) # (b, s) # rs
      else if base = b then (base, sz) # rs
      else (b, s) # region_put base sz rs)"

definition aligned_size :: "u64 \<Rightarrow> u64 \<Rightarrow> u64" where
  "aligned_size sz alignment = (sz + alignment - 1) AND NOT (alignment - 1)"

text \<open>\<open>alloc\<close> is the allocator of the C library; the line size is a parameter.\<close>

definition host_mem_alloc :: "(u64 \<Rightarrow> u64 \<Rightarrow> u64 option) \<Rightarrow> u64 \<Rightarrow> 'c simx \<Rightarrow> u64 \<Rightarrow> (u64 \<times> 'c simx) option" where
  "host_mem_alloc alloc block d sz =
     (let asize = aligned_size sz block
      in case alloc block asize of
           None \<Rightarrow> None
         | Some ptr \<Rightarrow> Some (ptr, d\<lparr>s_regions := region_put ptr asize (s_regions d)\<rparr>))"

definition host_mem_free :: "'c simx \<Rightarrow> u64 \<Rightarrow> 'c simx option" where
  "host_mem_free d cp_addr =
     (if cp_addr \<notin> fst ` set (s_regions d) then None
      else Some (d\<lparr>s_regions := filter (\<lambda>(b, s). b \<noteq> cp_addr) (s_regions d)\<rparr>))"

text \<open>The last region that starts at or before the address.\<close>

definition host_region_ptr :: "'c simx \<Rightarrow> u64 \<Rightarrow> u64 option" where
  "host_region_ptr d addr =
     (case rev (takeWhile (\<lambda>(b, s). b \<le> addr) (s_regions d)) of
        [] \<Rightarrow> None
      | (b, s) # _ \<Rightarrow> if addr \<ge> b \<and> addr < b + s then Some addr else None)"

section \<open>The hooks\<close>

text \<open>
  The memory has no capacity limit and no access control here, so its operations never throw; the branch for an
  exception is not reached.
\<close>

definition simx_read :: "'c simx \<Rightarrow> u64 \<Rightarrow> nat \<Rightarrow> u8 list \<times> 'c simx" where
  "simx_read d addr n =
     (case host_region_ptr d addr of
        Some hp \<Rightarrow> (map (\<lambda>i. s_host d (hp + of_nat i)) [0..<n], d)
      | None \<Rightarrow>
          (case ram_read (s_ram d) addr (of_nat n) of
             (Inr bs, r) \<Rightarrow> (bs, d\<lparr>s_ram := r\<rparr>)
           | (Inl e, r) \<Rightarrow> ([], d\<lparr>s_ram := r\<rparr>)))"

definition simx_write :: "'c simx \<Rightarrow> u64 \<Rightarrow> u8 list \<Rightarrow> 'c simx" where
  "simx_write d addr bs =
     (case host_region_ptr d addr of
        Some hp \<Rightarrow> d\<lparr>s_host := put_bytes (s_host d) hp bs\<rparr>
      | None \<Rightarrow> d\<lparr>s_ram := snd (ram_write (s_ram d) addr bs)\<rparr>)"

definition simx_dcr_write :: "'c sim_env \<Rightarrow> 'c simx \<Rightarrow> u32 \<Rightarrow> u32 \<Rightarrow> 'c simx" where
  "simx_dcr_write v d addr val = d\<lparr>s_proc := snd (proc_dcr_write v (s_proc d) addr val)\<rparr>"

definition simx_dcr_read :: "'c sim_env \<Rightarrow> 'c simx \<Rightarrow> u32 \<Rightarrow> u32 \<Rightarrow> u32 \<times> 'c simx" where
  "simx_dcr_read v d addr tag =
     (let d1 = d\<lparr>s_future := map_option (\<lambda>_. 0) (s_future d)\<rparr>
      in case proc_dcr_read v (s_proc d1) (s_ram d1) addr tag 0 of
           (_, val, p, r) \<Rightarrow> (val, d1\<lparr>s_proc := p, s_ram := r\<rparr>))"

text \<open>
  A launch runs the processor in another thread.  Here its effect on processor and memory takes place at the start,
  and the number of polls that find it running is an argument.  Accesses that race with that thread are not modelled.
\<close>

definition simx_start :: "'c sim_env \<Rightarrow> 'c simx \<Rightarrow> 'c simx" where
  "simx_start v d =
     (case proc_run v (s_proc d) (s_ram d) of
        (p, r) \<Rightarrow> d\<lparr>s_future := Some (run_polls v (s_proc d) (s_ram d)), s_proc := p, s_ram := r\<rparr>)"

definition simx_busy :: "'c simx \<Rightarrow> bool \<times> 'c simx" where
  "simx_busy d =
     (case s_future d of
        None \<Rightarrow> (False, d)
      | Some 0 \<Rightarrow> (False, d)
      | Some (Suc n) \<Rightarrow> (True, d\<lparr>s_future := Some n\<rparr>))"

definition make_cp_hooks :: "'c sim_env \<Rightarrow> 'c simx hooks" where
  "make_cp_hooks v = \<lparr>dram_read = Some simx_read, dram_write = Some simx_write,
     vortex_dcr_write = Some (simx_dcr_write v), vortex_dcr_read = Some (simx_dcr_read v),
     vortex_start = Some (simx_start v), vortex_busy = Some simx_busy\<rparr>"

section \<open>The register channel\<close>

fun burst :: "cp_cfg \<Rightarrow> 'd hooks \<Rightarrow> nat \<Rightarrow> cp \<times> 'd \<Rightarrow> (cp \<times> 'd) option" where
  "burst g h 0 s = Some s"
| "burst g h (Suc n) s = (if busy (fst s) then Option.bind (tick g h (fst s) (snd s)) (burst g h n) else Some s)"

definition cp_reg_write :: "cp_cfg \<Rightarrow> 'd hooks \<Rightarrow> cp \<times> 'd \<Rightarrow> u32 \<Rightarrow> u32 \<Rightarrow> (cp \<times> 'd) option" where
  "cp_reg_write g h s off value = burst g h 256 (mmio_write (fst s) off value, snd s)"

definition cp_reg_read :: "cp_cfg \<Rightarrow> 'd hooks \<Rightarrow> cp \<times> 'd \<Rightarrow> u32 \<Rightarrow> (u32 \<times> cp \<times> 'd) option" where
  "cp_reg_read g h s off = map_option (\<lambda>s1. (mmio_read g (fst s1) off, s1)) (burst g h 256 s)"

text \<open>The initial content of host memory and the clusters of the processor are arguments.\<close>

definition vx_device_new :: "(u64 \<Rightarrow> u8) \<Rightarrow> 'c list \<Rightarrow> (cp \<times> 'c simx) option" where
  "vx_device_new host clusters =
     map_option (\<lambda>r. (cp_new, \<lparr>s_ram = ram_enable_acl r False, s_proc = \<lparr>proc_kmu = kmu_init, proc_clusters = clusters\<rparr>,
       s_future = None, s_regions = [], s_host = host\<rparr>)) (ram_new 0 4096)"

section \<open>The memory behind the hooks\<close>

definition simx_ok :: "'c simx \<Rightarrow> bool" where
  "simx_ok d \<longleftrightarrow> ram_ok (s_ram d) \<and> capacity (s_ram d) = 0 \<and> \<not> check_acl (s_ram d)"

definition hit :: "'c simx \<Rightarrow> u64 \<Rightarrow> bool" where
  "hit d x \<longleftrightarrow> host_region_ptr d x \<noteq> None"

definition simx_byte :: "'c simx \<Rightarrow> u64 \<Rightarrow> u8" where
  "simx_byte d x = (if hit d x then s_host d x else ram_byte (s_ram d) x)"

text \<open>A range that lies entirely in host regions or entirely outside of them.\<close>

definition simx_span :: "'c simx \<Rightarrow> u64 \<Rightarrow> nat \<Rightarrow> bool" where
  "simx_span d a n \<longleftrightarrow> simx_ok d \<and> n < 2 ^ 64
     \<and> ((\<forall>i < n. hit d (a + of_nat i)) \<or> (\<forall>i < n. \<not> hit d (a + of_nat i)))"

lemma host_region_ptr_addr: "host_region_ptr d a = Some x \<Longrightarrow> x = a"
  by (auto simp: host_region_ptr_def split: list.splits if_splits)

lemma hit_frame [simp]:
  "hit (d\<lparr>s_ram := r\<rparr>) = hit d" "hit (d\<lparr>s_proc := p\<rparr>) = hit d" "hit (d\<lparr>s_host := m\<rparr>) = hit d" "hit (d\<lparr>s_future := f\<rparr>) = hit d"
  by (simp_all add: hit_def host_region_ptr_def fun_eq_iff)

lemma simx_read_host:
  assumes "hit d a"
  shows "simx_read d a n = (map (\<lambda>i. s_host d (a + of_nat i)) [0..<n], d)"
  using assms by (auto simp: hit_def simx_read_def dest: host_region_ptr_addr)

lemma simx_read_ram:
  assumes "\<not> hit d a" "simx_ok d" "n < 2 ^ 64"
  shows "\<exists>r. simx_read d a n = (map (\<lambda>i. ram_byte (s_ram d) (a + of_nat i)) [0..<n], d\<lparr>s_ram := r\<rparr>)
    \<and> ram_byte r = ram_byte (s_ram d) \<and> simx_ok (d\<lparr>s_ram := r\<rparr>)"
proof -
  have n: "unat (of_nat n :: u64) = n" using assms(3) by (simp add: unat_of_nat)
  obtain r where "ram_read (s_ram d) a (of_nat n) = (Inr (map (\<lambda>i. ram_byte (s_ram d) (a + of_nat i)) [0..<n]), r)"
    "ram_ok r" "ram_frame (s_ram d) r" "ram_byte r = ram_byte (s_ram d)"
    using ram_read_spec[of "s_ram d" a "of_nat n"] assms(2) n by (auto simp: simx_ok_def range_ok_def)
  then show ?thesis
    using assms(1,2) by (auto simp: hit_def simx_read_def simx_ok_def ram_frame_def)
qed

lemma simx_write_host: "hit d a \<Longrightarrow> simx_write d a bs = d\<lparr>s_host := put_bytes (s_host d) a bs\<rparr>"
  by (auto simp: hit_def simx_write_def dest: host_region_ptr_addr)

lemma simx_write_ram:
  assumes "\<not> hit d a" "simx_ok d"
  shows "\<exists>r. simx_write d a bs = d\<lparr>s_ram := r\<rparr> \<and> ram_byte r = put_bytes (ram_byte (s_ram d)) a bs \<and> simx_ok (d\<lparr>s_ram := r\<rparr>)"
proof -
  obtain r where "ram_write (s_ram d) a bs = (None, r)" "ram_ok r" "ram_frame (s_ram d) r"
    "ram_byte r = put_bytes (ram_byte (s_ram d)) a bs"
    using ram_write_spec[of "s_ram d" a bs] assms(2) by (auto simp: simx_ok_def range_ok_def)
  then show ?thesis
    using assms by (auto simp: hit_def simx_write_def simx_ok_def ram_frame_def)
qed

lemma simx_span_same:
  assumes "simx_ok d" "simx_ok e" "hit e = hit d"
  shows "simx_span e = simx_span d"
  using assms by (simp add: simx_span_def fun_eq_iff)

lemma put_bytes_select:
  assumes "length bs < 2 ^ 64" "\<And>i. i < length bs \<Longrightarrow> P (a + of_nat i)"
  shows "(if P x then put_bytes m a bs x else m' x) = put_bytes (\<lambda>x. if P x then m x else m' x) a bs x"
proof -
  have "P x" if "unat (x - a) < length bs"
    using assms(2)[OF that] by simp
  then show ?thesis using assms(1) by (simp add: put_bytes_at)
qed

lemma simx_read_spec:
  assumes "simx_span d a n"
  shows "fst (simx_read d a n) = map (\<lambda>i. simx_byte d (a + of_nat i)) [0..<n]"
    "simx_byte (snd (simx_read d a n)) = simx_byte d" "simx_span (snd (simx_read d a n)) = simx_span d"
    "s_proc (snd (simx_read d a n)) = s_proc d"
proof -
  have ok: "simx_ok d" "n < 2 ^ 64" using assms by (simp_all add: simx_span_def)
  have "fst (simx_read d a n) = map (\<lambda>i. simx_byte d (a + of_nat i)) [0..<n] \<and>
    simx_byte (snd (simx_read d a n)) = simx_byte d \<and> simx_span (snd (simx_read d a n)) = simx_span d
    \<and> s_proc (snd (simx_read d a n)) = s_proc d"
  proof (cases "hit d a")
    case True
    then have "\<forall>i < n. hit d (a + of_nat i)"
      using assms by (cases "n = 0") (auto simp: simx_span_def dest: spec[of _ 0])
    then show ?thesis using True by (simp add: simx_read_host simx_byte_def)
  next
    case False
    then have "\<forall>i < n. \<not> hit d (a + of_nat i)"
      using assms by (cases "n = 0") (auto simp: simx_span_def dest: spec[of _ 0])
    moreover obtain r where r: "simx_read d a n = (map (\<lambda>i. ram_byte (s_ram d) (a + of_nat i)) [0..<n], d\<lparr>s_ram := r\<rparr>)"
      "ram_byte r = ram_byte (s_ram d)" "simx_ok (d\<lparr>s_ram := r\<rparr>)"
      using simx_read_ram[OF False ok] by blast
    moreover have "simx_span (d\<lparr>s_ram := r\<rparr>) = simx_span d" by (rule simx_span_same[OF ok(1) r(3)]) simp
    ultimately show ?thesis by (simp add: simx_byte_def fun_eq_iff)
  qed
  then show "fst (simx_read d a n) = map (\<lambda>i. simx_byte d (a + of_nat i)) [0..<n]"
    "simx_byte (snd (simx_read d a n)) = simx_byte d" "simx_span (snd (simx_read d a n)) = simx_span d"
    "s_proc (snd (simx_read d a n)) = s_proc d" by blast+
qed

lemma simx_write_spec:
  assumes "simx_span d a (length bs)"
  shows "simx_byte (simx_write d a bs) = put_bytes (simx_byte d) a bs" "simx_span (simx_write d a bs) = simx_span d"
    "s_proc (simx_write d a bs) = s_proc d"
proof -
  have ok: "simx_ok d" "length bs < 2 ^ 64" using assms by (simp_all add: simx_span_def)
  have "simx_byte (simx_write d a bs) = put_bytes (simx_byte d) a bs \<and> simx_span (simx_write d a bs) = simx_span d
    \<and> s_proc (simx_write d a bs) = s_proc d"
  proof (cases "hit d a")
    case True
    then have "hit d (a + of_nat i)" if "i < length bs" for i
      using assms that by (auto simp: simx_span_def dest: spec[of _ 0])
    then have b: "(if hit d x then put_bytes (s_host d) a bs x else ram_byte (s_ram d) x) = put_bytes (simx_byte d) a bs x" for x
      using put_bytes_select[OF ok(2), of "hit d" a x "s_host d" "ram_byte (s_ram d)"] by (simp add: simx_byte_def[abs_def])
    let ?e = "d\<lparr>s_host := put_bytes (s_host d) a bs\<rparr>"
    have "simx_byte ?e x = (if hit d x then put_bytes (s_host d) a bs x else ram_byte (s_ram d) x)" for x
      by (simp add: simx_byte_def)
    then have "simx_byte ?e = put_bytes (simx_byte d) a bs" unfolding b by (rule ext)
    moreover have "simx_ok ?e" using ok by (simp add: simx_ok_def)
    ultimately show ?thesis
      using True simx_span_same[OF ok(1), of ?e] by (simp add: simx_write_host)
  next
    case False
    then have "\<not> hit d (a + of_nat i)" if "i < length bs" for i
      using assms that by (auto simp: simx_span_def dest: spec[of _ 0])
    moreover have "(\<lambda>x. if \<not> hit d x then ram_byte (s_ram d) x else s_host d x) = simx_byte d"
      by (auto simp: simx_byte_def)
    ultimately have b: "(if \<not> hit d x then put_bytes (ram_byte (s_ram d)) a bs x else s_host d x) = put_bytes (simx_byte d) a bs x" for x
      using put_bytes_select[OF ok(2), of "\<lambda>x. \<not> hit d x" a x "ram_byte (s_ram d)" "s_host d"] by metis
    obtain r where r: "simx_write d a bs = d\<lparr>s_ram := r\<rparr>" "ram_byte r = put_bytes (ram_byte (s_ram d)) a bs" "simx_ok (d\<lparr>s_ram := r\<rparr>)"
      using simx_write_ram[OF False ok(1)] by blast
    have "simx_span (d\<lparr>s_ram := r\<rparr>) = simx_span d" by (rule simx_span_same[OF ok(1) r(3)]) simp
    moreover have "simx_byte (d\<lparr>s_ram := r\<rparr>) x = (if \<not> hit d x then put_bytes (ram_byte (s_ram d)) a bs x else s_host d x)" for x
      by (simp add: simx_byte_def r(2))
    then have "simx_byte (d\<lparr>s_ram := r\<rparr>) = put_bytes (simx_byte d) a bs" unfolding b by (rule ext)
    ultimately show ?thesis using r by simp
  qed
  then show "simx_byte (simx_write d a bs) = put_bytes (simx_byte d) a bs" "simx_span (simx_write d a bs) = simx_span d"
    "s_proc (simx_write d a bs) = s_proc d" by blast+
qed

definition route_kmu :: "kmu \<Rightarrow> u32 \<Rightarrow> u32 \<Rightarrow> kmu" where
  "route_kmu k addr val = (if addr \<ge> 0x010 \<and> addr < 0x024 then kmu_dcr_write k addr val else k)"

interpretation sx: launch_store simx_read simx_write simx_byte simx_span "simx_dcr_write v" "\<lambda>d. proc_kmu (s_proc d)" route_kmu
  for v
proof
  fix d :: "'a simx" and a i n k
  assume "simx_span d a n" "i + k \<le> n"
  moreover have "a + of_nat i + of_nat j = a + of_nat (i + j)" for j by simp
  ultimately show "simx_span d (a + of_nat i) k"
    unfolding simx_span_def by (metis (no_types, lifting) add_less_cancel_left order.strict_trans2 le_add2 order.trans not_less)
next
  fix d :: "'a simx" and r val
  show "simx_byte (simx_dcr_write v d r val) = simx_byte d \<and> simx_span (simx_dcr_write v d r val) = simx_span d"
    by (auto simp: simx_dcr_write_def simx_byte_def simx_span_def simx_ok_def fun_eq_iff)
  show "proc_kmu (s_proc (simx_dcr_write v d r val)) = route_kmu (proc_kmu (s_proc d)) r val"
    by (simp add: simx_dcr_write_def proc_dcr_write_def route_kmu_def Let_def)
qed (simp_all add: simx_read_spec simx_write_spec, simp add: simx_span_def)

section \<open>Transfers and descriptors\<close>

lemma translate_off: "\<not> vm_enable g \<or> physical \<or> cp_satp c = 0 \<Longrightarrow> cp_translate g h c d a physical = Some (a, d)"
  by (auto simp: cp_translate_def)

lemma hooks_simps [simp]:
  "dram_read (make_cp_hooks v) = Some simx_read" "dram_write (make_cp_hooks v) = Some simx_write"
  "vortex_dcr_write (make_cp_hooks v) = Some (simx_dcr_write v)" "vortex_dcr_read (make_cp_hooks v) = Some (simx_dcr_read v)"
  "vortex_start (make_cp_hooks v) = Some (simx_start v)" "vortex_busy (make_cp_hooks v) = Some simx_busy"
  by (simp_all add: make_cp_hooks_def)

lemma do_mem_copy:
  assumes "\<not> vm_enable g \<or> cflags cm AND 0x04 \<noteq> 0 \<or> cp_satp c = 0" "arg2 cm \<noteq> 0"
  shows "do_mem g (make_cp_hooks v) c cm d = Some (dma_copy simx_read simx_write d (arg0 cm) (arg1 cm) (unat (arg2 cm)))"
  using assms by (simp add: do_mem_def translate_off Let_def)

text \<open>
  C21.  The memory commands copy.  Without translation, a transfer command whose source and destination lie each
  in one piece of host or device memory leaves memory, host regions and device memory taken together, as a
  \<open>memmove\<close> would: the destination holds the bytes the source held before, everything else is unchanged.  The
  condition on the ranges is the one the code needs: the transfer fits the 64 KiB buffer, or the destination
  does not start inside the source.
\<close>

theorem simx_dma_copies:
  assumes "\<not> vm_enable g \<or> cflags cm AND 0x04 \<noteq> 0 \<or> cp_satp c = 0"
    and "simx_span d (arg0 cm) (unat (arg2 cm))" "simx_span d (arg1 cm) (unat (arg2 cm))"
    and "unat (arg2 cm) \<le> 65536 \<or> arg2 cm \<le> arg0 cm - arg1 cm"
  shows "\<exists>d'. do_mem g (make_cp_hooks v) c cm d = Some d'
    \<and> simx_byte d' = move_bytes (simx_byte d) (arg0 cm) (arg1 cm) (unat (arg2 cm))"
proof (cases "arg2 cm = 0")
  case True
  then show ?thesis by (simp add: do_mem_def move_bytes_0)
next
  case False
  have "simx_byte (dma_copy simx_read simx_write d (arg0 cm) (arg1 cm) (unat (arg2 cm)))
      = move_bytes (simx_byte d) (arg0 cm) (arg1 cm) (unat (arg2 cm))"
    using assms(4) sx.dma_copy_small[OF assms(2,3)] sx.dma_copy_move[OF assms(2,3)] by (auto simp: word_le_nat_alt)
  then show ?thesis using do_mem_copy[OF assms(1) False] by blast
qed

lemma pack_bytes: "concat (map (le_bytes 4) (pack ps)) = le_bytes 4 (of_nat (length ps) :: u32) @ pair_bytes ps"
proof -
  have "concat (map (le_bytes 4) (flat ps)) = pair_bytes ps"
    by (induction ps) (auto simp: flat_def pair_bytes_def)
  then show ?thesis by (simp add: pack_def)
qed

lemma writes_in_range:
  assumes "enqueue_launch_writes tpw a r = Some ws"
  shows "length ws \<le> 64" "\<forall>(x, val) \<in> set ws. 0x010 \<le> x \<and> x < 0x024"
  using assms by (auto simp: enqueue_launch_writes_def Let_def split: option.splits bind_splits if_splits)

lemma route_program:
  assumes "\<forall>(x, val) \<in> set ws. 0x010 \<le> x \<and> x < 0x024"
  shows "fold (\<lambda>(a, val) k. route_kmu k (a AND 0xFFF) val) ws k = program_kmu k ws"
  using assms
proof (induction ws arbitrary: k)
  case (Cons w ws)
  obtain a val where w: "w = (a, val)" by fastforce
  then have a: "0x010 \<le> a" "a < 0x024" using Cons.prems by auto
  have "unat a < 2 ^ 12" using a(2) by (simp add: word_less_nat_alt)
  then have "take_bit 12 a = a" by (simp add: word_unat_eq_iff unsigned_take_bit_eq take_bit_nat_eq_self)
  then have "a AND 0xFFF = a" by (simp add: take_bit_eq_mask mask_eq_exp_minus_1)
  then show ?case using Cons a by (simp add: w program_kmu_def route_kmu_def)
qed (simp add: program_kmu_def)

text \<open>
  C19.  A packed launch reaches the kernel management unit.  With address translation off, when memory holds, at the address in the command, the
  descriptor the runtime packs for an accepted launch, the command processor reads it back and programs the
  kernel management unit of the simulated processor with exactly the register writes of the direct launch
  path, in their order, and changes no byte of memory.
\<close>

theorem qmd_programs_kmu:
  assumes "stage_qmd tpw args r = Some q" "bs = concat (map (le_bytes 4) q)"
    and "simx_span d a (length bs)" "\<forall>i < length bs. simx_byte d (a + of_nat i) = bs ! i"
    and "\<not> vm_enable g \<or> cp_satp c = 0"
  shows "\<exists>ws d'. enqueue_launch_writes tpw args r = Some ws \<and> apply_qmd g (make_cp_hooks v) c d a = Some d'
    \<and> proc_kmu (s_proc d') = program_kmu (proc_kmu (s_proc d)) ws \<and> simx_byte d' = simx_byte d"
proof -
  obtain ws where ws: "enqueue_launch_writes tpw args r = Some ws" and q: "q = pack ws"
    using assms(1) by (auto simp: stage_qmd_pack)
  note w = writes_in_range[OF ws]
  have b: "bs = le_bytes 4 (of_nat (length ws) :: u32) @ pair_bytes ws" using assms(2) by (simp add: q pack_bytes)
  have "sx.holds d a bs" using assms(3,4) by (auto simp: sx.holds_def intro!: nth_equalityI)
  then have h: "sx.holds d a (le_bytes 4 (of_nat (length ws) :: u32))" "sx.holds d (a + 4) (pair_bytes ws)"
    using sx.holds_append unfolding b by force+
  have sp: "simx_span d a 4" using h(1) by (simp add: sx.holds_def)
  obtain bs4 d1 where rd: "simx_read d a 4 = (bs4, d1)" by fastforce
  then have d1: "simx_byte d1 = simx_byte d" "simx_span d1 = simx_span d" "s_proc d1 = s_proc d"
    and bs4: "bs4 = le_bytes 4 (of_nat (length ws) :: u32)"
    using simx_read_spec[OF sp] sx.holds_rd[OF h(1)] by simp_all
  have n: "min 64 (unat (le_word bs4 :: u32)) = length ws"
    using w(1) by (simp add: bs4 le_word_bytes unat_of_nat)
  have "sx.holds d1 (a + 4) (pair_bytes ws)" using h(2) sx.holds_cong[OF d1(1,2)] by simp
  from sx.qmd_replay_regs[OF this, of v] have
    "proc_kmu (s_proc (qmd_replay simx_read (simx_dcr_write v) d1 (a + 4) (length ws))) = program_kmu (proc_kmu (s_proc d)) ws"
    "simx_byte (qmd_replay simx_read (simx_dcr_write v) d1 (a + 4) (length ws)) = simx_byte d"
    using route_program[OF w(2)] d1 by simp_all
  moreover have "apply_qmd g (make_cp_hooks v) c d a = Some (qmd_replay simx_read (simx_dcr_write v) d1 (a + 4) (length ws))"
    using assms(5) by (auto simp: apply_qmd_def translate_off rd n)
  ultimately show ?thesis using ws by blast
qed

section \<open>Polling\<close>

fun poll_reads :: "cp_cfg \<Rightarrow> 'd hooks \<Rightarrow> u32 \<Rightarrow> nat \<Rightarrow> cp \<times> 'd \<Rightarrow> (cp \<times> 'd) option" where
  "poll_reads g h off 0 s = Some s"
| "poll_reads g h off (Suc j) s = Option.bind (cp_reg_read g h s off) (\<lambda>(_, s1). poll_reads g h off j s1)"

lemma tick_not_busy:
  assumes "\<not> busy c"
  shows "tick g h c d = Some (c\<lparr>cycle_counter := cycle_counter c + 1\<rparr>, d)"
proof (cases "enabled c")
  case True
  then have "eng_state c = Idle" "launch_state c = LIdle" "\<not> cl_loaded c" "tail (q0 c) \<le> head (q0 c)"
    using assms by (auto simp: busy_def)
  then show ?thesis
    using True by (simp add: tick_enabled tick_engine_def fetch_if_needed_def load_next_cmd_def tick_launch_def)
qed (simp add: tick_def)

lemma ticks_not_busy: "\<not> busy c \<Longrightarrow> \<exists>x. ticks g h k (c, d) = Some (c\<lparr>cycle_counter := x\<rparr>, d)"
proof (induction k arbitrary: c)
  case 0
  then show ?case by (intro exI[of _ "cycle_counter c"]) simp
next
  case (Suc k)
  have "\<not> busy (c\<lparr>cycle_counter := cycle_counter c + 1\<rparr>)" using Suc.prems by (simp add: busy_def)
  from Suc.IH[OF this] show ?case using tick_not_busy[OF Suc.prems, of g h d] by auto
qed

lemma burst_ticks:
  assumes "ticks g h k s = Some t" "\<not> busy (fst t)"
  shows "\<exists>m u. burst g h n s = Some u \<and> ticks g h m s = Some u \<and> m \<le> k \<and> (busy (fst s) \<and> 0 < n \<longrightarrow> 0 < m)"
  using assms
proof (induction n arbitrary: s k)
  case 0
  show ?case by (intro exI[of _ 0] exI[of _ s]) simp
next
  case (Suc n)
  show ?case
  proof (cases "busy (fst s)")
    case False
    then show ?thesis by (intro exI[of _ 0] exI[of _ s]) simp
  next
    case True
    then have "k \<noteq> 0" using Suc.prems by (cases k) auto
    then obtain k' where k': "k = Suc k'" by (cases k) auto
    obtain s1 where s1: "tick g h (fst s) (snd s) = Some s1" "ticks g h k' s1 = Some t"
      using Suc.prems(1) by (auto simp: k' bind_eq_Some_conv)
    obtain m u where "burst g h n s1 = Some u" "ticks g h m s1 = Some u" "m \<le> k'"
      using Suc.IH[OF s1(2) Suc.prems(2)] by blast
    then show ?thesis using True s1(1) k' by (intro exI[of _ "Suc m"] exI[of _ u]) simp
  qed
qed

lemma poll_reads_reach:
  assumes "ticks g h k s = Some (c', d')" "\<not> busy c'"
  shows "\<exists>j x. poll_reads g h off j s = Some (c'\<lparr>cycle_counter := x\<rparr>, d')"
  using assms(1)
proof (induction k arbitrary: s rule: less_induct)
  case (less k)
  show ?case
  proof (cases "busy (fst s)")
    case False
    obtain x where "c' = (fst s)\<lparr>cycle_counter := x\<rparr>" "d' = snd s"
      using ticks_not_busy[OF False, of g h k "snd s"] less.prems by auto
    then have "poll_reads g h off 0 s = Some (c'\<lparr>cycle_counter := cycle_counter (fst s)\<rparr>, d')" by (cases s) simp
    then show ?thesis by blast
  next
    case True
    obtain m u where m: "burst g h 256 s = Some u" "ticks g h m s = Some u" "m \<le> k" "0 < m"
      using burst_ticks[OF less.prems, of 256] assms(2) True by auto
    have "ticks g h (m + (k - m)) s = Some (c', d')" using m(3) less.prems by simp
    then have "ticks g h (k - m) u = Some (c', d')" unfolding ticks_add by (simp add: m(2))
    from less.IH[OF _ this] m obtain j x where "poll_reads g h off j u = Some (c'\<lparr>cycle_counter := x\<rparr>, d')" by auto
    then have "poll_reads g h off (Suc j) s = Some (c'\<lparr>cycle_counter := x\<rparr>, d')" by (simp add: cp_reg_read_def m(1))
    then show ?thesis by blast
  qed
qed

text \<open>
  C18.  Polling ends.  The back end has no thread that clocks the command processor: it advances only in bursts
  of at most 256 ticks inside register accesses.  Still, when the commands in the ring complete (as in the
  reference run), a host that keeps reading the completion register sees, after finitely many reads, the number
  of retired commands, with all effects of the commands in memory and in the processor.
\<close>

theorem polling_sees_completion:
  assumes "settled c" "dram_read h = Some rd" "unat (tail (q0 c)) = unat (head (q0 c)) + 64 * m"
    and "run_ring g h n c m (head (q0 c)) (last_dcr_rsp c, seqnum (q0 c), d) = Some (rsp', seq', d')"
  shows "\<exists>j c1 c2. poll_reads g h 0x128 j (c, d) = Some (c1, d')
    \<and> cp_reg_read g h (c1, d') 0x128 = Some (lo_word seq', c2, d') \<and> \<not> busy c2"
proof -
  obtain c' where c: "leads g h (c, d) (c', d')" "settled c'" "same_setup c c'" "head (q0 c') = tail (q0 c)" "seqnum (q0 c') = seq'"
    using ring_leads[OF assms] by blast
  then obtain k where k: "ticks g h k (c, d) = Some (c', d')" by (auto simp: leads_def)
  have nb: "\<not> busy c'" using c(2,4) same_setupD(5)[OF c(3)] by (simp add: busy_def settled_def)
  obtain j x where j: "poll_reads g h 0x128 j (c, d) = Some (c'\<lparr>cycle_counter := x\<rparr>, d')"
    using poll_reads_reach[OF k nb] by blast
  let ?e = "c'\<lparr>cycle_counter := x\<rparr>"
  have e: "\<not> busy ?e" using nb by (simp add: busy_def)
  have "burst g h 256 (?e, d') = Some (?e, d')"
    using e burst.simps(2)[of g h 255 "(?e, d')"] by simp
  then have "cp_reg_read g h (?e, d') 0x128 = Some (lo_word seq', ?e, d')"
    by (simp add: cp_reg_read_def mmio_read_def queue_read_def c(5))
  then show ?thesis using j e by blast
qed

section \<open>A concrete device\<close>

definition sim_demo :: "ram \<Rightarrow> u8 list \<Rightarrow> nat simx" where
  "sim_demo r bs = \<lparr>s_ram = r, s_proc = \<lparr>proc_kmu = kmu_init, proc_clusters = []\<rparr>, s_future = None,
     s_regions = [(0x1000, 0x1000)], s_host = put_bytes (\<lambda>_. 0) 0x1000 bs\<rparr>"

lemma sim_demo_hit: "hit (sim_demo r bs) x \<longleftrightarrow> 0x1000 \<le> x \<and> x < 0x2000"
  by (simp add: hit_def host_region_ptr_def sim_demo_def)

lemma offset_range:
  assumes "unat b + n \<le> 2 ^ 63" "i < n"
  shows "unat (b + of_nat i :: u64) = unat b + i"
proof -
  have "unat (of_nat i :: u64) = i" using assms by (simp add: unat_of_nat)
  then show ?thesis using assms unat_plus_no_wrap[of b "of_nat i"] by simp
qed

lemma sim_demo_span:
  assumes "simx_ok (sim_demo r bs)" "unat a + n \<le> 2 ^ 63" "0x1000 \<le> unat a \<and> unat a + n \<le> 0x2000 \<or> 0x2000 \<le> unat a"
  shows "simx_span (sim_demo r bs) a n"
proof -
  have "hit (sim_demo r bs) (a + of_nat i) \<longleftrightarrow> 0x1000 \<le> unat a + i \<and> unat a + i < 0x2000" if "i < n" for i
    using offset_range[OF assms(2) that] by (simp add: sim_demo_hit word_le_nat_alt word_less_nat_alt)
  then show ?thesis using assms by (auto simp: simx_span_def)
qed

lemma sim_demo_ram: "\<exists>r. ram_new 0 4096 = Some r \<and> (\<forall>bs. simx_ok (sim_demo r bs))"
proof -
  obtain r where "ram_new 0 4096 = Some r" by (simp add: ram_new_def ispow2_def)
  then show ?thesis using ram_new_ok(1,3,4)[of 0 4096 r] by (simp add: simx_ok_def sim_demo_def)
qed

lemma sim_demo_byte:
  assumes "i < length bs" "length bs \<le> 0x1000"
  shows "simx_byte (sim_demo r bs) (0x1000 + of_nat i) = bs ! i"
proof -
  have u: "unat (of_nat i :: u64) = i" using assms by (simp add: unat_of_nat)
  then have "hit (sim_demo r bs) (0x1000 + of_nat i)"
    using assms unat_plus_no_wrap[of "0x1000" "of_nat i :: u64"] by (simp add: sim_demo_hit word_le_nat_alt word_less_nat_alt)
  then show ?thesis using assms u by (simp add: simx_byte_def sim_demo_def put_bytes_at)
qed

definition sim_env0 :: "nat sim_env" where
  "sim_env0 = \<lparr>cluster_write = (\<lambda>c _ _. (True, c)), cluster_read = (\<lambda>c _ _ val. (True, val, c)), flush_caches = Pair,
     proc_run = Pair, run_polls = (\<lambda>_ _. 1)\<rparr>"

theorem simx_dma_copies_witness:
  "\<exists>r d'. do_mem cpd_cfg (make_cp_hooks sim_env0) cp_new
       \<lparr>opcode = 1, cflags = 0, reserved = 0, arg0 = 0x80000000, arg1 = 0x1000, arg2 = 2\<rparr> (sim_demo r [7, 9]) = Some d'
     \<and> simx_byte d' 0x80000001 = 9"
proof -
  obtain r where r: "simx_ok (sim_demo r [7, 9])" using sim_demo_ram by blast
  let ?cm = "\<lparr>opcode = 1, cflags = 0, reserved = 0, arg0 = 0x80000000, arg1 = 0x1000, arg2 = 2\<rparr> :: cmd"
  have "\<exists>d'. do_mem cpd_cfg (make_cp_hooks sim_env0) cp_new ?cm (sim_demo r [7, 9]) = Some d'
    \<and> simx_byte d' = move_bytes (simx_byte (sim_demo r [7, 9])) (arg0 ?cm) (arg1 ?cm) (unat (arg2 ?cm))"
    by (rule simx_dma_copies) (use sim_demo_span[OF r] in \<open>simp_all add: cpd_cfg_def\<close>)
  moreover have "move_bytes (simx_byte (sim_demo r [7, 9])) (arg0 ?cm) (arg1 ?cm) (unat (arg2 ?cm)) 0x80000001 = 9"
    using sim_demo_byte[of 1 "[7, 9]" r] by (simp add: move_bytes_def)
  ultimately show ?thesis by metis
qed

theorem qmd_programs_kmu_witness:
  "\<exists>r q d'. stage_qmd 4 None demo_rec = Some q
     \<and> apply_qmd cpd_cfg (make_cp_hooks sim_env0) cp_new (sim_demo r (concat (map (le_bytes 4) q))) 0x1000 = Some d'
     \<and> kmu_lmem_size (proc_kmu (s_proc d')) = 64"
proof -
  obtain ws where ws: "enqueue_launch_writes 4 None demo_rec = Some ws" using demo_writes by blast
  then have q: "stage_qmd 4 None demo_rec = Some (pack ws)" by (simp add: stage_qmd_pack)
  define bs where "bs = concat (map (le_bytes 4) (pack ws))"
  have "length (pair_bytes ws) = 8 * length ws" by (induction ws) (auto simp: pair_bytes_def)
  then have len: "length bs \<le> 0x1000" using writes_in_range(1)[OF ws] by (simp add: bs_def pack_bytes)
  obtain r where r: "simx_ok (sim_demo r bs)" using sim_demo_ram by blast
  have "\<exists>ws' d'. enqueue_launch_writes 4 None demo_rec = Some ws'
    \<and> apply_qmd cpd_cfg (make_cp_hooks sim_env0) cp_new (sim_demo r bs) 0x1000 = Some d'
    \<and> proc_kmu (s_proc d') = program_kmu (proc_kmu (s_proc (sim_demo r bs))) ws' \<and> simx_byte d' = simx_byte (sim_demo r bs)"
    by (rule qmd_programs_kmu[OF q bs_def])
      (use sim_demo_span[OF r, of "0x1000" "length bs"] sim_demo_byte[of _ bs r] len in \<open>simp_all add: cpd_cfg_def\<close>)
  then obtain d' where d: "apply_qmd cpd_cfg (make_cp_hooks sim_env0) cp_new (sim_demo r bs) 0x1000 = Some d'"
    "proc_kmu (s_proc d') = program_kmu kmu_init ws" using ws by (auto simp: sim_demo_def)
  have "kmu_lmem_size (program_kmu kmu_init ws) = 64"
    using ws by (auto simp: enqueue_launch_writes_def demo_rec_def upto_ndim_def mk_dim3_def warp_step_def udiv_def program_Cons Let_def demo_info_def)
  then show ?thesis using q d unfolding bs_def by metis
qed

theorem polling_sees_completion_witness:
  "\<exists>j c1 c2 d'. poll_reads cpd_cfg cpd_hooks 0x128 j (cpd_cp, cpd_state [False, True, False]) = Some (c1, d')
    \<and> cp_reg_read cpd_cfg cpd_hooks (c1, d') 0x128 = Some (2, c2, d') \<and> \<not> busy c2"
proof -
  obtain d' where r: "run_ring cpd_cfg cpd_hooks 3 cpd_cp 1 (head (q0 cpd_cp))
      (last_dcr_rsp cpd_cp, seqnum (q0 cpd_cp), cpd_state [False, True, False]) = Some (0, 2, d')"
    using cpd_run by (auto simp: cpd_cp_def cp_new_def queue0_new_def)
  have s: "settled cpd_cp" "unat (tail (q0 cpd_cp)) = unat (head (q0 cpd_cp)) + 64 * 1"
    by (simp_all add: settled_def enabled_def cpd_cp_def cp_new_def queue0_new_def)
  obtain rd where d: "dram_read cpd_hooks = Some rd" by (simp add: cpd_hooks_def)
  have "lo_word 2 = 2" by (simp add: lo_word_def)
  then show ?thesis using polling_sees_completion[OF s(1) d s(2) r] by metis
qed

end
