(* ===== verification/Mem_Alloc.thy ===== *)
theory Mem_Alloc
  imports Prelude "HOL-Library.Multiset" "HOL-Library.Monad_Syntax"
begin

text \<open>
  The device memory allocator of the runtime, \<open>MemoryAllocator\<close> of \<open>src/vortex/sw/common/mem_alloc.h\<close>.  The doubly
  linked lists of a page are lists of blocks, a block is its address and size and is identified by its
  address; the linked list of pages is a list in which a pointer is a position.

  An operation that dereferences a null pointer or fails the assertion of a destructor has the result \<open>None\<close>; a
  return code of -1 is an inner \<open>None\<close>.
\<close>

unbundle bit_operations_syntax

section \<open>State\<close>

type_synonym block = "u64 \<times> u64"

record page =
  pg_addr :: u64
  pg_size :: u64
  pg_used :: "block list"
  pg_freeS :: "block list"
  pg_freeM :: "block list"

record allocator =
  al_base :: u64
  al_capacity :: u64
  al_pageAlign :: u32
  al_blockAlign :: u32
  al_pages :: "page list"
  al_allocated :: u64

definition allocator_new :: "u64 \<Rightarrow> u64 \<Rightarrow> u32 \<Rightarrow> u32 \<Rightarrow> allocator" where
  "allocator_new base cap pageAlign blockAlign =
     \<lparr>al_base = base, al_capacity = cap, al_pageAlign = pageAlign, al_blockAlign = blockAlign, al_pages = [], al_allocated = 0\<rparr>"

definition page_new :: "u64 \<Rightarrow> u64 \<Rightarrow> page" where
  "page_new addr sz = \<lparr>pg_addr = addr, pg_size = sz, pg_used = [], pg_freeS = [(addr, sz)], pg_freeM = [(addr, sz)]\<rparr>"

definition al_free :: "allocator \<Rightarrow> u64" where
  "al_free a = al_capacity a - al_allocated a"

text \<open>\<open>alignSize\<close> asserts that the alignment is a power of two; the operations that call it fail otherwise.\<close>

definition align_assert :: "u64 \<Rightarrow> bool" where
  "align_assert alignment \<longleftrightarrow> alignment AND (alignment - 1) = 0"

definition alignSize :: "u64 \<Rightarrow> u64 \<Rightarrow> u64" where
  "alignSize sz alignment = (sz + alignment - 1) AND NOT (alignment - 1)"

section \<open>The lists of a page\<close>

fun remove_block :: "u64 \<Rightarrow> block list \<Rightarrow> block list" where
  "remove_block a [] = []"
| "remove_block a (b # bs) = (if fst b = a then bs else b # remove_block a bs)"

fun insert_addr :: "block \<Rightarrow> block list \<Rightarrow> block list" where
  "insert_addr b [] = [b]"
| "insert_addr b (c # cs) = (if fst c < fst b then c # insert_addr b cs else b # c # cs)"

fun insert_size :: "block \<Rightarrow> block list \<Rightarrow> block list" where
  "insert_size b [] = [b]"
| "insert_size b (c # cs) = (if snd c > snd b then c # insert_size b cs else b # c # cs)"

definition insertUsedList :: "block \<Rightarrow> page \<Rightarrow> page" where
  "insertUsedList b p = p\<lparr>pg_used := b # pg_used p\<rparr>"

definition removeUsedList :: "block \<Rightarrow> page \<Rightarrow> page" where
  "removeUsedList b p = p\<lparr>pg_used := remove_block (fst b) (pg_used p)\<rparr>"

definition insertFreeMList :: "block \<Rightarrow> page \<Rightarrow> page" where
  "insertFreeMList b p = p\<lparr>pg_freeM := insert_addr b (pg_freeM p)\<rparr>"

definition removeFreeMList :: "block \<Rightarrow> page \<Rightarrow> page" where
  "removeFreeMList b p = p\<lparr>pg_freeM := remove_block (fst b) (pg_freeM p)\<rparr>"

definition insertFreeSList :: "block \<Rightarrow> page \<Rightarrow> page" where
  "insertFreeSList b p = p\<lparr>pg_freeS := insert_size b (pg_freeS p)\<rparr>"

definition removeFreeSList :: "block \<Rightarrow> page \<Rightarrow> page" where
  "removeFreeSList b p = p\<lparr>pg_freeS := remove_block (fst b) (pg_freeS p)\<rparr>"

section \<open>Pages\<close>

definition page_empty :: "page \<Rightarrow> bool" where
  "page_empty p \<longleftrightarrow> pg_used p = []"

definition page_allocate :: "u32 \<Rightarrow> u64 \<Rightarrow> block \<Rightarrow> page \<Rightarrow> page" where
  "page_allocate blockAlign sz b p =
     (let p1 = removeFreeSList b (removeFreeMList b p); extra = snd b - sz
      in if extra \<ge> ucast blockAlign then
           let new = (fst b + sz, extra)
           in insertUsedList (fst b, sz) (insertFreeSList new (insertFreeMList new p1))
         else insertUsedList b p1)"

text \<open>The neighbours of a block in the address list.\<close>

fun prev_block :: "u64 \<Rightarrow> block list \<Rightarrow> block option" where
  "prev_block a (b # c # cs) = (if fst c = a then Some b else prev_block a (c # cs))"
| "prev_block a _ = None"

fun next_block :: "u64 \<Rightarrow> block list \<Rightarrow> block option" where
  "next_block a (b # c # cs) = (if fst b = a then Some c else next_block a (c # cs))"
| "next_block a _ = None"

fun resize_block :: "u64 \<Rightarrow> u64 \<Rightarrow> block list \<Rightarrow> block list" where
  "resize_block a sz [] = []"
| "resize_block a sz (b # bs) = (if fst b = a then (a, sz) # bs else b # resize_block a sz bs)"

definition merge_left :: "block \<Rightarrow> page \<Rightarrow> block \<times> page" where
  "merge_left b p =
     (case prev_block (fst b) (pg_freeM p) of
        None \<Rightarrow> (b, p)
      | Some prev \<Rightarrow>
          if fst b = fst prev + snd prev then
            let sz = snd prev + snd b
            in ((fst prev, sz),
                removeFreeSList prev (p\<lparr>pg_freeM := remove_block (fst b) (resize_block (fst prev) sz (pg_freeM p))\<rparr>))
          else (b, p))"

definition merge_right :: "block \<Rightarrow> page \<Rightarrow> block \<times> page" where
  "merge_right b p =
     (case next_block (fst b) (pg_freeM p) of
        None \<Rightarrow> (b, p)
      | Some nxt \<Rightarrow>
          if fst nxt = fst b + snd b then
            let sz = snd b + snd nxt
            in ((fst b, sz),
                removeFreeSList nxt (p\<lparr>pg_freeM := remove_block (fst nxt) (resize_block (fst b) sz (pg_freeM p))\<rparr>))
          else (b, p))"

definition page_release :: "block \<Rightarrow> page \<Rightarrow> page" where
  "page_release b p =
     (let p1 = insertFreeMList b (removeUsedList b p);
          (b2, p2) = merge_left b p1;
          (b3, p3) = merge_right b2 p2
      in insertFreeSList b3 p3)"

fun last_fit :: "u64 \<Rightarrow> block \<Rightarrow> block list \<Rightarrow> block" where
  "last_fit sz b [] = b"
| "last_fit sz b (c # cs) = (if snd c \<ge> sz then last_fit sz c cs else b)"

definition findFreeBlock :: "u64 \<Rightarrow> page \<Rightarrow> block option" where
  "findFreeBlock sz p =
     (case pg_freeS p of
        [] \<Rightarrow> None
      | b # bs \<Rightarrow> if snd b \<ge> sz then Some (last_fit sz b bs) else None)"

definition findUsedBlock :: "u64 \<Rightarrow> page \<Rightarrow> block option" where
  "findUsedBlock addr p =
     (if addr \<ge> pg_addr p \<and> addr < pg_addr p + pg_size p then find (\<lambda>b. fst b = addr) (pg_used p) else None)"

text \<open>The assertions of the destructor of a page.\<close>

definition page_delete_ok :: "page \<Rightarrow> bool" where
  "page_delete_ok p \<longleftrightarrow> pg_used p = [] \<and> length (pg_freeM p) = 1"

section \<open>The list of pages\<close>

text \<open>\<open>createPage\<close> returns the position of the new page.\<close>

fun insert_page :: "page \<Rightarrow> page list \<Rightarrow> nat \<times> page list" where
  "insert_page p [] = (0, [p])"
| "insert_page p (q # qs) =
     (if pg_addr q < pg_addr p then map_prod Suc ((#) q) (insert_page p qs) else (0, p # q # qs))"

definition createPage :: "u64 \<Rightarrow> u64 \<Rightarrow> page list \<Rightarrow> nat \<times> page list" where
  "createPage addr sz pages =
     (let p = page_new addr sz
      in case pages of
           [] \<Rightarrow> (0, [p])
         | q # qs \<Rightarrow>
             if pg_addr q > addr then (0, p # q # qs) else map_prod Suc ((#) q) (insert_page p qs))"

definition deletePage :: "nat \<Rightarrow> page list \<Rightarrow> page list option" where
  "deletePage i pages = (if page_delete_ok (pages ! i) then Some (take i pages @ drop (Suc i) pages) else None)"

fun next_gap :: "u64 \<Rightarrow> u64 \<Rightarrow> page list \<Rightarrow> u64 + u64" where
  "next_gap sz endOfLastPage [] = Inl endOfLastPage"
| "next_gap sz endOfLastPage (p # ps) =
     (if endOfLastPage + sz \<le> pg_addr p then Inr endOfLastPage else next_gap sz (pg_addr p + pg_size p) ps)"

definition findNextAddress :: "u64 \<Rightarrow> allocator \<Rightarrow> u64 option" where
  "findNextAddress sz a =
     (if al_pages a = [] then Some (al_base a)
      else case next_gap sz (al_base a) (al_pages a) of
             Inr addr \<Rightarrow> Some addr
           | Inl e \<Rightarrow> if e + sz \<le> al_base a + al_capacity a then Some e else None)"

definition hasPageOverlap :: "u64 \<Rightarrow> u64 \<Rightarrow> page list \<Rightarrow> bool" where
  "hasPageOverlap start sz pages \<longleftrightarrow>
     list_ex (\<lambda>p. start < pg_addr p + pg_size p \<and> start + sz > pg_addr p) pages"

section \<open>The allocator\<close>

fun first_free :: "u64 \<Rightarrow> page list \<Rightarrow> (nat \<times> block) option" where
  "first_free sz [] = None"
| "first_free sz (p # ps) =
     (case findFreeBlock sz p of
        Some b \<Rightarrow> Some (0, b)
      | None \<Rightarrow> map_option (map_prod Suc id) (first_free sz ps))"

fun first_used :: "u64 \<Rightarrow> page list \<Rightarrow> (nat \<times> block) option" where
  "first_used addr [] = None"
| "first_used addr (p # ps) =
     (case findUsedBlock addr p of
        Some b \<Rightarrow> Some (0, b)
      | None \<Rightarrow> map_option (map_prod Suc id) (first_used addr ps))"

definition place :: "u64 \<Rightarrow> nat \<Rightarrow> block \<Rightarrow> page list \<Rightarrow> allocator \<Rightarrow> allocator" where
  "place sz i b pages a =
     a\<lparr>al_pages := pages[i := page_allocate (al_blockAlign a) sz b (pages ! i)], al_allocated := al_allocated a + sz\<rparr>"

definition al_reserve :: "u64 \<Rightarrow> u64 \<Rightarrow> allocator \<Rightarrow> (bool \<times> allocator) option" where
  "al_reserve addr size0 a =
     (if size0 = 0 then Some (False, a)
      else if \<not> align_assert (ucast (al_pageAlign a)) then None
      else let sz = alignSize size0 (ucast (al_pageAlign a))
           in if addr + sz > al_base a + al_capacity a then Some (False, a)
              else if hasPageOverlap addr sz (al_pages a) then Some (False, a)
              else case createPage addr sz (al_pages a) of
                     (i, pages) \<Rightarrow>
                       map_option (\<lambda>b. (True, place sz i b pages a)) (findFreeBlock sz (pages ! i)))"

definition al_allocate :: "u64 \<Rightarrow> allocator \<Rightarrow> (u64 option \<times> allocator) option" where
  "al_allocate size0 a =
     (if size0 = 0 then Some (None, a)
      else if \<not> align_assert (ucast (al_blockAlign a)) then None
      else let sz = alignSize size0 (ucast (al_blockAlign a))
           in case first_free sz (al_pages a) of
                Some (i, b) \<Rightarrow> Some (Some (fst b), place sz i b (al_pages a) a)
              | None \<Rightarrow>
                  if \<not> align_assert (ucast (al_pageAlign a)) then None
                  else let pageSize = alignSize sz (ucast (al_pageAlign a))
                  in case findNextAddress pageSize a of
                       None \<Rightarrow> Some (None, a)
                     | Some pageAddr \<Rightarrow>
                         (case createPage pageAddr pageSize (al_pages a) of
                            (i, pages) \<Rightarrow>
                              map_option (\<lambda>b. (Some (fst b), place sz i b pages a)) (findFreeBlock sz (pages ! i))))"

definition al_release :: "u64 \<Rightarrow> allocator \<Rightarrow> (bool \<times> allocator) option" where
  "al_release addr a =
     (case first_used addr (al_pages a) of
        None \<Rightarrow> Some (False, a)
      | Some (i, b) \<Rightarrow>
          let p = page_release b (al_pages a ! i); pages = (al_pages a)[i := p]
          in do {
               pages1 \<leftarrow> (if page_empty p then deletePage i pages else Some pages);
               Some (True, a\<lparr>al_pages := pages1, al_allocated := al_allocated a - snd b\<rparr>)
             })"

text \<open>The two 32-bit getters, and the destructor: with virtual memory it releases what is still in use.\<close>

definition al_baseAddress :: "allocator \<Rightarrow> u32" where
  "al_baseAddress a = ucast (al_base a)"

definition al_capacity32 :: "allocator \<Rightarrow> u32" where
  "al_capacity32 a = ucast (al_capacity a)"

definition release_used :: "page \<Rightarrow> page" where
  "release_used p = fold page_release (pg_used p) p"

definition allocator_delete_ok :: "bool \<Rightarrow> allocator \<Rightarrow> bool" where
  "allocator_delete_ok vm_enable a \<longleftrightarrow>
     list_all (\<lambda>p. page_delete_ok (if vm_enable then release_used p else p)) (al_pages a)"

section \<open>The layout of a page\<close>

text \<open>
  A page is an address-ordered sequence of blocks, used ones marked, that tile it without gaps, no two free
  ones next to each other.  The three lists of the page are views of that sequence.
\<close>

type_synonym layout = "(block \<times> bool) list"

fun tiles :: "u64 \<Rightarrow> u64 \<Rightarrow> layout \<Rightarrow> bool" where
  "tiles lo hi [] \<longleftrightarrow> lo = hi"
| "tiles lo hi ((b, u) # L) \<longleftrightarrow>
     fst b = lo \<and> snd b \<noteq> 0 \<and> unat lo + unat (snd b) \<le> unat hi \<and> tiles (lo + snd b) hi L"

definition no_free_pair :: "layout \<Rightarrow> bool" where
  "no_free_pair L \<longleftrightarrow> successively (\<lambda>e f. snd e \<or> snd f) L"

definition frees :: "layout \<Rightarrow> block list" where
  "frees L = map fst (filter (\<lambda>e. \<not> snd e) L)"

definition useds :: "layout \<Rightarrow> block list" where
  "useds L = map fst (filter snd L)"

definition views :: "layout \<Rightarrow> page \<Rightarrow> bool" where
  "views L p \<longleftrightarrow> pg_freeM p = frees L \<and> mset (pg_used p) = mset (useds L) \<and> mset (pg_freeS p) = mset (frees L)
     \<and> sorted_wrt (\<lambda>b c. snd c \<le> snd b) (pg_freeS p)"

lemma frees_simps [simp]: "frees [] = []" "frees (L @ K) = frees L @ frees K"
  "frees ((b, u) # L) = (if u then frees L else b # frees L)"
  by (simp_all add: frees_def)

lemma useds_simps [simp]: "useds [] = []" "useds (L @ K) = useds L @ useds K"
  "useds ((b, u) # L) = (if u then b # useds L else useds L)"
  by (simp_all add: useds_def)

lemma frees_useds: "set (frees L) \<union> set (useds L) = fst ` set L"
  by (auto simp: frees_def useds_def)

lemma layout_sets: "b \<in> set (frees L) \<longleftrightarrow> (b, False) \<in> set L" "b \<in> set (useds L) \<longleftrightarrow> (b, True) \<in> set L"
  by (force simp: frees_def useds_def)+

lemma unat_end: "unat lo + unat sz \<le> unat (hi :: u64) \<Longrightarrow> unat (lo + sz :: u64) = unat lo + unat sz"
  using u64_bound[of hi] unat_plus_no_wrap[of lo sz] by simp

lemma tiles_le: "tiles lo hi L \<Longrightarrow> unat lo \<le> unat hi"
  by (cases "(lo, hi, L)" rule: tiles.cases) auto

lemma tiles_append: "tiles lo hi (L @ K) \<longleftrightarrow> (\<exists>mid. tiles lo mid L \<and> tiles mid hi K)"
proof (induction L arbitrary: lo)
  case (Cons e L)
  obtain b u where e: "e = (b, u)" by fastforce
  show ?case
  proof
    assume "tiles lo hi ((e # L) @ K)"
    then obtain mid where m: "tiles (lo + snd b) mid L" "tiles mid hi K" "fst b = lo" "snd b \<noteq> 0"
      "unat lo + unat (snd b) \<le> unat hi" using Cons by (auto simp: e)
    then have "unat lo + unat (snd b) \<le> unat mid" using tiles_le[OF m(1)] unat_end[OF m(5)] by simp
    then show "\<exists>mid. tiles lo mid (e # L) \<and> tiles mid hi K" using m by (intro exI[of _ mid]) (simp add: e)
  next
    assume "\<exists>mid. tiles lo mid (e # L) \<and> tiles mid hi K"
    then obtain mid where m: "tiles (lo + snd b) mid L" "tiles mid hi K" "fst b = lo" "snd b \<noteq> 0"
      "unat lo + unat (snd b) \<le> unat mid" by (auto simp: e)
    then have "unat lo + unat (snd b) \<le> unat hi" using tiles_le[OF m(2)] by simp
    then show "tiles lo hi ((e # L) @ K)" using m Cons by (auto simp: e)
  qed
qed simp

lemma tiles_block:
  assumes "tiles lo hi L" "(b, u) \<in> set L"
  shows "unat lo \<le> unat (fst b)" "unat (fst b) + unat (snd b) \<le> unat hi" "snd b \<noteq> 0"
proof -
  obtain K J where L: "L = K @ (b, u) # J" using assms(2) by (meson split_list)
  then obtain mid where "tiles lo mid K" "tiles mid hi ((b, u) # J)" using assms(1) by (auto simp: tiles_append)
  then show "unat lo \<le> unat (fst b)" "unat (fst b) + unat (snd b) \<le> unat hi" "snd b \<noteq> 0"
    using tiles_le by auto
qed

text \<open>Blocks before and after a block of the sequence.\<close>

lemma tiles_split:
  assumes "tiles lo hi (K @ (b, u) # J)"
  shows "\<forall>(c, v) \<in> set K. unat (fst c) + unat (snd c) \<le> unat (fst b)"
    "\<forall>(c, v) \<in> set J. unat (fst b) + unat (snd b) \<le> unat (fst c)"
    "unat (fst b + snd b) = unat (fst b) + unat (snd b)"
    "tiles lo (fst b) K" "tiles (fst b + snd b) hi J" "snd b \<noteq> 0" "unat (fst b) + unat (snd b) \<le> unat hi"
proof -
  obtain mid where m: "tiles lo mid K" "tiles mid hi ((b, u) # J)" using assms by (auto simp: tiles_append)
  then show t: "tiles lo (fst b) K" "tiles (fst b + snd b) hi J" "snd b \<noteq> 0" "unat (fst b) + unat (snd b) \<le> unat hi" by auto
  show e: "unat (fst b + snd b) = unat (fst b) + unat (snd b)" by (rule unat_end[OF t(4)])
  show "\<forall>(c, v) \<in> set K. unat (fst c) + unat (snd c) \<le> unat (fst b)" using tiles_block(2)[OF t(1)] by auto
  show "\<forall>(c, v) \<in> set J. unat (fst b) + unat (snd b) \<le> unat (fst c)" using tiles_block(1)[OF t(2)] e by auto
qed

lemma tiles_distinct: "tiles lo hi L \<Longrightarrow> distinct (map (\<lambda>e. fst (fst e)) L)"
proof (induction L arbitrary: lo)
  case (Cons e L)
  obtain b u where e: "e = (b, u)" by fastforce
  have t: "tiles lo hi ([] @ (b, u) # L)" using Cons.prems by (simp add: e)
  have "fst b \<noteq> fst c" if "(c, v) \<in> set L" for c v
    using tiles_split(2,6)[OF t] that by (auto simp: unat_eq_0)
  then have "fst b \<notin> set (map (\<lambda>e. fst (fst e)) L)" by force
  moreover have "distinct (map (\<lambda>e. fst (fst e)) L)" using Cons.IH[of "lo + snd b"] Cons.prems by (simp add: e)
  ultimately show ?case by (simp add: e)
qed simp


section \<open>The lists under insertion and removal\<close>

lemma remove_block_append: "a \<notin> fst ` set xs \<Longrightarrow> fst b = a \<Longrightarrow> remove_block a (xs @ b # ys) = xs @ ys"
  by (induction xs) auto

lemma resize_block_append: "a \<notin> fst ` set xs \<Longrightarrow> fst b = a \<Longrightarrow> resize_block a sz (xs @ b # ys) = xs @ (a, sz) # ys"
  by (induction xs) auto

lemma insert_addr_append:
  "\<forall>c \<in> set xs. fst c < fst b \<Longrightarrow> \<forall>c \<in> set ys. fst b < fst c \<Longrightarrow> insert_addr b (xs @ ys) = xs @ b # ys"
proof (induction xs)
  case Nil
  then show ?case by (cases ys) auto
qed simp

lemma prev_block_append:
  "fst b \<notin> fst ` set xs \<Longrightarrow> fst b = a \<Longrightarrow> prev_block a (xs @ b # ys) = (if xs = [] then prev_block a (b # ys) else Some (last xs))"
proof (induction xs)
  case (Cons x xs)
  then show ?case by (cases xs) auto
qed simp

lemma prev_block_first: "a \<notin> fst ` set ys \<Longrightarrow> prev_block a (b # ys) = None"
proof (induction ys arbitrary: b)
  case (Cons y ys)
  then show ?case by auto
qed simp

lemma next_block_append:
  "fst b \<notin> fst ` set xs \<Longrightarrow> fst b = a \<Longrightarrow> next_block a (xs @ b # ys) = (case ys of [] \<Rightarrow> None | y # _ \<Rightarrow> Some y)"
proof (induction xs)
  case Nil
  then show ?case by (cases ys) simp_all
next
  case (Cons x xs)
  then show ?case by (cases xs; cases ys) auto
qed

lemma mset_insert_addr [simp]: "mset (insert_addr b xs) = add_mset b (mset xs)"
  by (induction xs) auto

lemma mset_insert_size [simp]: "mset (insert_size b xs) = add_mset b (mset xs)"
  by (induction xs) auto

lemma set_insert_size [simp]: "set (insert_size b xs) = insert b (set xs)"
  by (metis mset_insert_size set_mset_mset set_mset_add_mset_insert)

lemma sorted_insert_size:
  "sorted_wrt (\<lambda>b c. snd c \<le> snd b) xs \<Longrightarrow> sorted_wrt (\<lambda>b c. snd c \<le> snd b) (insert_size b xs)"
  by (induction xs) (auto simp: not_less intro: order.trans order.strict_implies_order)

lemma set_remove_block: "set (remove_block a xs) \<subseteq> set xs"
  by (induction xs) auto

lemma sorted_remove_block:
  "sorted_wrt (\<lambda>b c. snd c \<le> snd b) xs \<Longrightarrow> sorted_wrt (\<lambda>b c. snd c \<le> snd b) (remove_block a xs)"
proof (induction xs)
  case (Cons x xs)
  then show ?case using set_remove_block[of a xs] by auto
qed simp

text \<open>Removing by address removes the block with that address.\<close>

lemma mset_remove_block:
  "b \<in> set xs \<Longrightarrow> (\<And>c. c \<in> set xs \<Longrightarrow> fst c = fst b \<Longrightarrow> c = b) \<Longrightarrow> mset (remove_block (fst b) xs) = mset xs - {#b#}"
proof (induction xs)
  case (Cons x xs)
  then show ?case
  proof (cases "fst x = fst b")
    case True
    then have "x = b" using Cons.prems(2)[of x] by simp
    then show ?thesis by simp
  next
    case False
    then have "b \<in> set xs" "x \<noteq> b" using Cons.prems(1) by auto
    then show ?thesis using Cons False by (simp add: add_mset_diff_bothsides)
  qed
qed simp

lemma addr_inj:
  assumes "tiles lo hi L" "c \<in> fst ` set L" "b \<in> fst ` set L" "fst c = fst b"
  shows "c = b"
proof -
  obtain i j where "i < length L" "j < length L" "fst (L ! i) = c" "fst (L ! j) = b"
    using assms(2,3) by (auto simp: in_set_conv_nth)
  then show ?thesis using tiles_distinct[OF assms(1)] assms(4) by (auto simp: distinct_conv_nth)
qed


lemma tiles_addr:
  assumes "tiles lo hi (K @ (b, u) # J)"
  shows "(c, v) \<in> set K \<Longrightarrow> fst c < fst b" "(c, v) \<in> set J \<Longrightarrow> fst b < fst c"
proof -
  note t = tiles_split[OF assms]
  show "fst c < fst b" if "(c, v) \<in> set K"
  proof -
    have "unat (fst c) + unat (snd c) \<le> unat (fst b)" using t(1) that by blast
    moreover have "unat (snd c) \<noteq> 0" using tiles_block(3)[OF t(4) that] by (simp add: unat_eq_0)
    ultimately show ?thesis by (simp add: word_less_nat_alt)
  qed
  show "fst b < fst c" if "(c, v) \<in> set J"
  proof -
    have "unat (fst b) + unat (snd b) \<le> unat (fst c)" using t(2) that by blast
    moreover have "unat (snd b) \<noteq> 0" using t(6) by (simp add: unat_eq_0)
    ultimately show ?thesis by (simp add: word_less_nat_alt)
  qed
qed

lemma insert_addr_frees:
  assumes "tiles lo hi (K @ (b, u) # J)"
  shows "insert_addr b (frees K @ frees J) = frees K @ b # frees J"
  by (rule insert_addr_append) (auto simp: layout_sets dest!: tiles_addr[OF assms])

lemma addr_not_before:
  assumes "tiles lo hi (K @ (b, u) # J)"
  shows "fst b \<notin> fst ` set (frees K)" "fst b \<notin> fst ` set (frees J)"
  by (auto simp: layout_sets dest!: tiles_addr[OF assms])

lemma mset_remove_tiles:
  assumes "tiles lo hi L" "set xs \<subseteq> fst ` set L" "b \<in> set xs"
  shows "mset (remove_block (fst b) xs) = mset xs - {#b#}"
  using assms(3) by (rule mset_remove_block) (rule addr_inj[OF assms(1)], use assms(2,3) in auto)

section \<open>Pages\<close>

lemma no_free_pair_split:
  "no_free_pair (K @ e # J) \<longleftrightarrow> no_free_pair K \<and> no_free_pair J \<and> (K = [] \<or> snd (last K) \<or> snd e) \<and> (J = [] \<or> snd e \<or> snd (hd J))"
  by (auto simp: no_free_pair_def successively_append_iff successively_Cons)

text \<open>Taking a free block, in whole or split.\<close>

definition taken :: "u64 \<Rightarrow> block \<Rightarrow> layout" where
  "taken sz b = (((fst b, sz), True) # (if sz = snd b then [] else [((fst b + sz, snd b - sz), False)]))"

lemma tiles_taken:
  assumes "tiles lo hi (K @ (b, u) # J)" "sz \<le> snd b" "sz \<noteq> 0"
  shows "tiles lo hi (K @ taken sz b @ J)"
proof -
  note t = tiles_split[OF assms(1)]
  have le: "unat sz \<le> unat (snd b)" using assms(2) by (simp add: word_le_nat_alt)
  have e: "unat (fst b + sz) = unat (fst b) + unat sz" by (rule unat_end[of _ _ hi]) (use t(7) le in simp)
  have r: "unat (snd b - sz) = unat (snd b) - unat sz" by (rule unat_sub[OF assms(2)])
  have "tiles (fst b) hi (taken sz b @ J)"
    using t(5,7) assms(3) e r le by (auto simp: taken_def)
  then show ?thesis using t(4) by (auto simp: tiles_append)
qed

lemma views_remove_free:
  assumes "tiles lo hi (K @ (b, False) # J)" "views (K @ (b, False) # J) p"
  shows "pg_freeM (removeFreeSList b (removeFreeMList b p)) = frees K @ frees J"
    "mset (pg_freeS (removeFreeSList b (removeFreeMList b p))) = mset (frees K @ frees J)"
    "sorted_wrt (\<lambda>b c. snd c \<le> snd b) (pg_freeS (removeFreeSList b (removeFreeMList b p)))"
    "pg_used (removeFreeSList b (removeFreeMList b p)) = pg_used p"
proof -
  have v: "pg_freeM p = frees K @ b # frees J" "mset (pg_freeS p) = mset (frees K @ b # frees J)"
    "sorted_wrt (\<lambda>b c. snd c \<le> snd b) (pg_freeS p)" using assms(2) by (simp_all add: views_def)
  show "pg_freeM (removeFreeSList b (removeFreeMList b p)) = frees K @ frees J"
    by (simp add: removeFreeSList_def removeFreeMList_def v remove_block_append addr_not_before[OF assms(1)])
  have S: "set (pg_freeS p) \<subseteq> fst ` set (K @ (b, False) # J)"
    using frees_useds[of K] frees_useds[of J] mset_eq_setD[OF v(2)] by auto
  have "mset (remove_block (fst b) (pg_freeS p)) = mset (pg_freeS p) - {#b#}"
    by (rule mset_remove_tiles[OF assms(1) S]) (use mset_eq_setD[OF v(2)] in simp)
  then show "mset (pg_freeS (removeFreeSList b (removeFreeMList b p))) = mset (frees K @ frees J)"
    by (simp add: removeFreeSList_def removeFreeMList_def v(2))
  show "sorted_wrt (\<lambda>b c. snd c \<le> snd b) (pg_freeS (removeFreeSList b (removeFreeMList b p)))"
    by (simp add: removeFreeSList_def removeFreeMList_def sorted_remove_block v(3))
  show "pg_used (removeFreeSList b (removeFreeMList b p)) = pg_used p"
    by (simp add: removeFreeSList_def removeFreeMList_def)
qed

lemma page_allocate_views:
  assumes "tiles lo hi (K @ (b, False) # J)" "views (K @ (b, False) # J) p" "sz \<le> snd b" "sz \<noteq> 0"
    and "snd b - sz \<ge> ucast ba \<longleftrightarrow> sz \<noteq> snd b"
  shows "views (K @ taken sz b @ J) (page_allocate ba sz b p)"
proof -
  note t = tiles_split[OF assms(1)]
  note r = views_remove_free[OF assms(1,2)]
  have u: "mset (pg_used p) = mset (useds K @ useds J)" using assms(2) by (simp add: views_def)
  show ?thesis
  proof (cases "sz = snd b")
    case True
    then show ?thesis
      using r u assms(5) by (simp add: page_allocate_def Let_def views_def insertUsedList_def taken_def)
  next
    case False
    let ?n = "(fst b + sz, snd b - sz)"
    have "tiles lo hi ((K @ [((fst b, sz), True)]) @ (?n, False) # J)"
      using tiles_taken[OF assms(1,3,4)] False by (simp add: taken_def)
    from insert_addr_frees[OF this] have "insert_addr ?n (frees K @ frees J) = frees K @ ?n # frees J" by simp
    then show ?thesis
      using r u False assms(5)
      by (simp add: page_allocate_def Let_def views_def insertUsedList_def insertFreeSList_def insertFreeMList_def taken_def
          sorted_insert_size)
  qed
qed


text \<open>A block being freed: in the address list, not yet in the size list.\<close>

definition freeing :: "layout \<Rightarrow> block \<Rightarrow> layout \<Rightarrow> page \<Rightarrow> bool" where
  "freeing K b J p \<longleftrightarrow> pg_freeM p = frees K @ b # frees J \<and> mset (pg_used p) = mset (useds K @ useds J)
     \<and> mset (pg_freeS p) = mset (frees K @ frees J) \<and> sorted_wrt (\<lambda>b c. snd c \<le> snd b) (pg_freeS p)"

lemma freeing_start:
  assumes "tiles lo hi (K @ (b, True) # J)" "views (K @ (b, True) # J) p"
  shows "freeing K b J (insertFreeMList b (removeUsedList b p))"
proof -
  have v: "pg_freeM p = frees K @ frees J" "mset (pg_used p) = add_mset b (mset (useds K @ useds J))"
    "mset (pg_freeS p) = mset (frees K @ frees J)" "sorted_wrt (\<lambda>b c. snd c \<le> snd b) (pg_freeS p)"
    using assms(2) by (simp_all add: views_def)
  have s: "set (pg_used p) = set (useds (K @ (b, True) # J))" 
    by (rule mset_eq_setD) (use assms(2) in \<open>simp add: views_def\<close>)
  have "mset (remove_block (fst b) (pg_used p)) = mset (pg_used p) - {#b#}"
    by (rule mset_remove_tiles[OF assms(1)]) (use s frees_useds[of "K @ (b, True) # J"] in auto)
  then show ?thesis
    by (simp add: freeing_def insertFreeMList_def removeUsedList_def v insert_addr_frees[OF assms(1)])
qed

lemma freeing_end:
  "freeing K b J p \<Longrightarrow> views (K @ (b, False) # J) (insertFreeSList b p)"
  by (simp add: freeing_def views_def insertFreeSList_def sorted_insert_size)

lemma freeing_sizes:
  assumes "tiles lo hi (K @ (b, False) # J)" "freeing K b J p" "c \<in> set (frees K) \<union> set (frees J)"
  shows "mset (remove_block (fst c) (pg_freeS p)) = mset (frees K @ frees J) - {#c#}"
proof -
  have s: "set (pg_freeS p) = set (frees K @ frees J)" 
    by (rule mset_eq_setD) (use assms(2) in \<open>simp add: freeing_def\<close>)
  have "mset (remove_block (fst c) (pg_freeS p)) = mset (pg_freeS p) - {#c#}"
    by (rule mset_remove_tiles[OF assms(1)]) (use s assms(3) frees_useds[of K] frees_useds[of J] in auto)
  then show ?thesis using assms(2) by (simp add: freeing_def)
qed

lemma tiles_join:
  "tiles lo hi (K @ (c, u) # (b, v) # J) \<Longrightarrow> tiles lo hi (K @ ((fst c, snd c + snd b), w) # J)
     \<and> unat (snd c + snd b) = unat (snd c) + unat (snd b) \<and> fst b = fst c + snd c"
proof -
  assume t: "tiles lo hi (K @ (c, u) # (b, v) # J)"
  note tc = tiles_split[OF t]
  have e: "unat (fst c) + unat (snd c) + unat (snd b) \<le> unat hi" using tc(5) tc(3) by simp
  have s: "unat (snd c + snd b) = unat (snd c) + unat (snd b)" by (rule unat_end[of _ _ hi]) (use e in simp)
  moreover have "snd c + snd b \<noteq> 0" using s tc(6) by (metis add_is_0 unat_eq_0)
  ultimately have "tiles (fst c) hi (((fst c, snd c + snd b), w) # J)" using e tc(5) by (simp add: add.assoc)
  then show ?thesis using s tc(4,5) by (auto simp: tiles_append)
qed

lemma merge_left_joins:
  assumes "tiles lo hi (K @ (c, False) # (b, False) # J)" "freeing (K @ [(c, False)]) b J p"
  shows "merge_left b p = ((fst c, snd c + snd b), snd (merge_left b p))"
    "freeing K (fst c, snd c + snd b) J (snd (merge_left b p))"
proof -
  have t: "tiles lo hi ((K @ [(c, False)]) @ (b, False) # J)" using assms(1) by simp
  have m: "pg_freeM p = (frees K @ [c]) @ b # frees J" using assms(2) by (simp add: freeing_def)
  have p: "prev_block (fst b) (pg_freeM p) = Some c"
    using addr_not_before(1)[OF t] prev_block_append[of b "frees K @ [c]" "fst b" "frees J"] m by simp
  have cb: "fst b = fst c + snd c" using tiles_join[OF assms(1)] by simp
  have e: "merge_left b p = ((fst c, snd c + snd b),
      removeFreeSList c (p\<lparr>pg_freeM := remove_block (fst b) (resize_block (fst c) (snd c + snd b) (pg_freeM p))\<rparr>))"
    by (simp add: merge_left_def p cb[symmetric] Let_def)
  then show "merge_left b p = ((fst c, snd c + snd b), snd (merge_left b p))" by simp
  have "resize_block (fst c) (snd c + snd b) (pg_freeM p) = frees K @ (fst c, snd c + snd b) # b # frees J"
    using addr_not_before(1)[OF assms(1)] by (simp add: m resize_block_append)
  moreover have "remove_block (fst b) ((frees K @ [(fst c, snd c + snd b)]) @ b # frees J)
      = (frees K @ [(fst c, snd c + snd b)]) @ frees J"
    using addr_not_before(1)[OF t] by (intro remove_block_append) auto
  moreover note freeing_sizes[OF t assms(2), of c]
  ultimately show "freeing K (fst c, snd c + snd b) J (snd (merge_left b p))"
    using assms(2) by (simp add: e freeing_def removeFreeSList_def sorted_remove_block)
qed

lemma merge_left_stays:
  assumes "tiles lo hi (K @ (b, False) # J)" "freeing K b J p" "K = [] \<or> snd (last K)"
  shows "merge_left b p = (b, p)"
proof (cases "frees K = []")
  case True
  then have "prev_block (fst b) (pg_freeM p) = None"
    using assms(2) addr_not_before(2)[OF assms(1)] by (simp add: freeing_def prev_block_first)
  then show ?thesis by (simp add: merge_left_def)
next
  case False
  then obtain K' d where K: "K = K' @ [(d, True)]"
    using assms(3) by (cases K rule: rev_cases) (auto simp: prod_eq_iff)
  let ?c = "last (frees K)"
  have p: "prev_block (fst b) (pg_freeM p) = Some ?c"
    using assms(2) False addr_not_before(1)[OF assms(1)] by (simp add: freeing_def prev_block_append)
  have "?c \<in> set (frees K')" using False K by simp
  then have "(?c, False) \<in> set K'" by (simp add: layout_sets)
  moreover have t: "tiles lo hi (K' @ (d, True) # (b, False) # J)" using assms(1) K by simp
  ultimately have e: "unat (fst ?c) + unat (snd ?c) \<le> unat (fst d)" using tiles_split(1)[OF t] by blast
  then have "unat (fst ?c + snd ?c) = unat (fst ?c) + unat (snd ?c)" by (rule unat_end)
  moreover have "fst d < fst b" using tiles_addr(1)[OF assms(1), of d True] K by simp
  ultimately have "fst b \<noteq> fst ?c + snd ?c" using e by (auto simp: word_less_nat_alt)
  then show ?thesis by (simp add: merge_left_def p)
qed


lemma merge_right_joins:
  assumes "tiles lo hi (K @ (b, False) # (c, False) # J)" "freeing K b ((c, False) # J) p"
  shows "merge_right b p = ((fst b, snd b + snd c), snd (merge_right b p))"
    "freeing K (fst b, snd b + snd c) J (snd (merge_right b p))"
proof -
  have t: "tiles lo hi ((K @ [(b, False)]) @ (c, False) # J)" using assms(1) by simp
  have m: "pg_freeM p = frees K @ b # c # frees J" using assms(2) by (simp add: freeing_def)
  have n: "next_block (fst b) (pg_freeM p) = Some c"
    using addr_not_before(1)[OF assms(1)] by (simp add: m next_block_append)
  have cb: "fst c = fst b + snd b" using tiles_join[OF assms(1)] by simp
  have e: "merge_right b p = ((fst b, snd b + snd c),
      removeFreeSList c (p\<lparr>pg_freeM := remove_block (fst c) (resize_block (fst b) (snd b + snd c) (pg_freeM p))\<rparr>))"
    by (simp add: merge_right_def n cb[symmetric] Let_def)
  then show "merge_right b p = ((fst b, snd b + snd c), snd (merge_right b p))" by simp
  have "resize_block (fst b) (snd b + snd c) (pg_freeM p) = frees K @ (fst b, snd b + snd c) # c # frees J"
    using addr_not_before(1)[OF assms(1)] by (simp add: m resize_block_append)
  moreover have "remove_block (fst c) ((frees K @ [(fst b, snd b + snd c)]) @ c # frees J)
      = (frees K @ [(fst b, snd b + snd c)]) @ frees J"
    using addr_not_before(1)[OF t] by (intro remove_block_append) auto
  moreover note freeing_sizes[OF assms(1,2), of c]
  ultimately show "freeing K (fst b, snd b + snd c) J (snd (merge_right b p))"
    using assms(2) by (simp add: e freeing_def removeFreeSList_def sorted_remove_block)
qed

lemma merge_right_stays:
  assumes "tiles lo hi (K @ (b, False) # J)" "freeing K b J p" "J = [] \<or> snd (hd J)"
  shows "merge_right b p = (b, p)"
proof (cases "frees J")
  case Nil
  then have "next_block (fst b) (pg_freeM p) = None"
    using assms(2) addr_not_before(1)[OF assms(1)] by (simp add: freeing_def next_block_append)
  then show ?thesis by (simp add: merge_right_def)
next
  case (Cons c fs)
  then obtain d J' where J: "J = (d, True) # J'" using assms(3) by (cases J) auto
  have n: "next_block (fst b) (pg_freeM p) = Some c"
    using assms(2) Cons addr_not_before(1)[OF assms(1)] by (simp add: freeing_def next_block_append)
  have "c \<in> set (frees J')" using Cons J by simp
  then have c: "(c, False) \<in> set J'" by (simp add: layout_sets)
  have t: "tiles lo hi ((K @ [(b, False)]) @ (d, True) # J')" using assms(1) J by simp
  have "unat (fst b + snd b) \<le> unat (fst d)" using tiles_le[of "fst b + snd b" "fst d" "[]"] tiles_split(5)[OF assms(1)] J by simp
  moreover have "fst d < fst c" by (rule tiles_addr(2)[OF t c])
  ultimately have "fst c \<noteq> fst b + snd b" by (auto simp: word_less_nat_alt)
  then show ?thesis by (simp add: merge_right_def n)
qed

text \<open>Releasing a block of the sequence joins it with its free neighbours.\<close>

definition pair_size :: "block \<Rightarrow> block \<Rightarrow> block" where
  "pair_size c b = (fst c, snd c + snd b)"

definition joined :: "layout \<Rightarrow> block \<Rightarrow> layout \<Rightarrow> layout" where
  "joined K b J =
     (let (K1, b1) = (if K = [] \<or> snd (last K) then (K, b) else (butlast K, pair_size (fst (last K)) b));
          (b2, J1) = (if J = [] \<or> snd (hd J) then (b1, J) else (pair_size b1 (fst (hd J)), tl J))
      in K1 @ (b2, False) # J1)"

lemma page_release_views:
  assumes "tiles lo hi (K @ (b, True) # J)" "views (K @ (b, True) # J) p"
  shows "views (joined K b J) (page_release b p) \<and> tiles lo hi (joined K b J)"
proof -
  let ?p1 = "insertFreeMList b (removeUsedList b p)"
  define K1 b1 where "K1 = (if K = [] \<or> snd (last K) then K else butlast K)"
    and "b1 = (if K = [] \<or> snd (last K) then b else pair_size (fst (last K)) b)"
  have t0: "tiles lo hi (K @ (b, False) # J)" using assms(1) by (auto simp: tiles_append)
  note f0 = freeing_start[OF assms]
  obtain p2 where 1: "merge_left b ?p1 = (b1, p2)" "freeing K1 b1 J p2" "tiles lo hi (K1 @ (b1, False) # J)"
  proof (cases "K = [] \<or> snd (last K)")
    case True
    then show ?thesis using that[of ?p1] merge_left_stays[OF t0 f0 True] t0 f0 by (simp add: K1_def b1_def)
  next
    case False
    then obtain K' c where K: "K = K' @ [(c, False)]" by (cases K rule: rev_cases) (auto simp: prod_eq_iff)
    then show ?thesis
      using that merge_left_joins[of lo hi K' c b J ?p1] t0 f0 tiles_join[of lo hi K' c False b False J False]
      by (simp add: K1_def b1_def pair_size_def)
  qed
  show ?thesis
  proof (cases "J = [] \<or> snd (hd J)")
    case True
    have "joined K b J = K1 @ (b1, False) # J" using True by (simp add: joined_def K1_def b1_def)
    moreover have "page_release b p = insertFreeSList b1 p2"
      by (simp add: page_release_def 1(1) merge_right_stays[OF 1(3,2) True])
    ultimately show ?thesis using freeing_end[OF 1(2)] 1(3) by simp
  next
    case False
    then obtain J' c where J: "J = (c, False) # J'" by (cases J) (auto simp: prod_eq_iff)
    let ?p3 = "snd (merge_right b1 p2)"
    have 2: "merge_right b1 p2 = (pair_size b1 c, ?p3)" "freeing K1 (pair_size b1 c) J' ?p3"
      using merge_right_joins[of lo hi K1 b1 c J' p2] 1 J by (simp_all add: pair_size_def)
    have "tiles lo hi (K1 @ (pair_size b1 c, False) # J')"
      using tiles_join[of lo hi K1 b1 False c False J' False] 1(3) J by (simp add: pair_size_def)
    moreover have "joined K b J = K1 @ (pair_size b1 c, False) # J'" using J by (simp add: joined_def K1_def b1_def)
    moreover have "page_release b p = insertFreeSList (pair_size b1 c) ?p3"
      by (simp add: page_release_def 1(1)) (subst 2(1), simp)
    ultimately show ?thesis using freeing_end[OF 2(2)] by simp
  qed
qed

definition grain :: "nat \<Rightarrow> layout \<Rightarrow> bool" where
  "grain m L \<longleftrightarrow> (\<forall>e \<in> set L. m dvd unat (snd (fst e)))"

lemma grain_simps [simp]: "grain m []" "grain m (K @ L) \<longleftrightarrow> grain m K \<and> grain m L"
  "grain m (e # L) \<longleftrightarrow> m dvd unat (snd (fst e)) \<and> grain m L"
  by (auto simp: grain_def)

lemma no_free_pair_simps:
  "no_free_pair []" "no_free_pair (e # J) \<longleftrightarrow> no_free_pair J \<and> (J = [] \<or> snd e \<or> snd (hd J))"
  "no_free_pair (K @ J) \<longleftrightarrow> no_free_pair K \<and> no_free_pair J \<and> (K = [] \<or> J = [] \<or> snd (last K) \<or> snd (hd J))"
  by (auto simp: no_free_pair_def successively_append_iff successively_Cons)

lemma joined_cases:
  obtains "K = [] \<or> snd (last K)" "J = [] \<or> snd (hd J)" "joined K b J = K @ (b, False) # J"
  | K' c where "K = K' @ [(c, False)]" "J = [] \<or> snd (hd J)" "joined K b J = K' @ (pair_size c b, False) # J"
  | J' d where "K = [] \<or> snd (last K)" "J = (d, False) # J'" "joined K b J = K @ (pair_size b d, False) # J'"
  | K' c J' d where "K = K' @ [(c, False)]" "J = (d, False) # J'"
      "joined K b J = K' @ (pair_size (pair_size c b) d, False) # J'"
proof (cases "K = [] \<or> snd (last K)"; cases "J = [] \<or> snd (hd J)")
  assume "K = [] \<or> snd (last K)" "J = [] \<or> snd (hd J)"
  then show thesis by (intro that(1)) (auto simp: joined_def)
next
  assume k: "K = [] \<or> snd (last K)" and "\<not> (J = [] \<or> snd (hd J))"
  then obtain J' d where "J = (d, False) # J'" by (cases J) (auto simp: prod_eq_iff)
  then show thesis using k by (intro that(3)[of d J']) (simp_all add: joined_def)
next
  assume "\<not> (K = [] \<or> snd (last K))" and j: "J = [] \<or> snd (hd J)"
  then obtain K' c where "K = K' @ [(c, False)]" by (cases K rule: rev_cases) (auto simp: prod_eq_iff)
  then show thesis using j by (intro that(2)[of K' c]) (simp_all add: joined_def)
next
  assume "\<not> (K = [] \<or> snd (last K))" "\<not> (J = [] \<or> snd (hd J))"
  then obtain K' c J' d where "K = K' @ [(c, False)]" "J = (d, False) # J'"
    by (cases K rule: rev_cases; cases J) (auto simp: prod_eq_iff)
  then show thesis by (intro that(4)[of K' c d J']) (simp_all add: joined_def)
qed

lemma useds_joined: "useds (joined K b J) = useds K @ useds J"
  by (cases rule: joined_cases[of K J b]) auto

lemma no_free_pair_joined:
  assumes "no_free_pair (K @ (b, True) # J)"
  shows "no_free_pair (joined K b J)"
proof (cases rule: joined_cases[of K J b])
  case 1
  then show ?thesis using assms by (auto simp: no_free_pair_simps)
next
  case (2 K' c)
  then show ?thesis using assms by (auto simp: no_free_pair_simps)
next
  case (3 J' d)
  then show ?thesis using assms by (auto simp: no_free_pair_simps)
next
  case (4 K' c J' d)
  then show ?thesis using assms by (auto simp: no_free_pair_simps)
qed

lemma grain_joined:
  assumes "tiles lo hi (K @ (b, True) # J)" "grain m (K @ (b, True) # J)"
  shows "grain m (joined K b J)"
proof (cases rule: joined_cases[of K J b])
  case 1
  then show ?thesis using assms by simp
next
  case (2 K' c)
  then show ?thesis using assms tiles_join[of lo hi K' c False b True J] by (simp add: pair_size_def)
next
  case (3 J' d)
  then show ?thesis using assms tiles_join[of lo hi K b True d False J'] by (simp add: pair_size_def)
next
  case (4 K' c J' d)
  have t: "tiles lo hi (K' @ (c, False) # (b, True) # (d, False) # J')" using assms(1) 4 by simp
  have "tiles lo hi (K' @ (pair_size c b, False) # (d, False) # J')"
    using tiles_join[OF t, of False] by (simp add: pair_size_def)
  from tiles_join[OF this] tiles_join[OF t] show ?thesis using 4 assms(2) by (simp add: pair_size_def)
qed

lemma tiles_views_set:
  assumes "views L p"
  shows "set (pg_used p) = set (useds L)" "set (pg_freeS p) = set (frees L)"
  using assms by (auto simp: views_def dest: mset_eq_setD)

section \<open>The invariant of a page\<close>

definition page_ok :: "nat \<Rightarrow> page \<Rightarrow> bool" where
  "page_ok m p \<longleftrightarrow> pg_size p \<noteq> 0 \<and> unat (pg_addr p) + unat (pg_size p) < 2 ^ 64 \<and> m dvd unat (pg_addr p) \<and>
     (\<exists>L. tiles (pg_addr p) (pg_addr p + pg_size p) L \<and> views L p \<and> no_free_pair L \<and> grain m L)"

lemma page_lists_frame [simp]:
  "pg_addr (insertUsedList b p) = pg_addr p" "pg_size (insertUsedList b p) = pg_size p"
  "pg_addr (removeUsedList b p) = pg_addr p" "pg_size (removeUsedList b p) = pg_size p"
  "pg_addr (insertFreeMList b p) = pg_addr p" "pg_size (insertFreeMList b p) = pg_size p"
  "pg_addr (removeFreeMList b p) = pg_addr p" "pg_size (removeFreeMList b p) = pg_size p"
  "pg_addr (insertFreeSList b p) = pg_addr p" "pg_size (insertFreeSList b p) = pg_size p"
  "pg_addr (removeFreeSList b p) = pg_addr p" "pg_size (removeFreeSList b p) = pg_size p"
  by (simp_all add: insertUsedList_def removeUsedList_def insertFreeMList_def removeFreeMList_def
      insertFreeSList_def removeFreeSList_def)

lemma page_allocate_frame [simp]:
  "pg_addr (page_allocate ba sz b p) = pg_addr p" "pg_size (page_allocate ba sz b p) = pg_size p"
  by (simp_all add: page_allocate_def Let_def)

lemma merge_frame:
  "pg_addr (snd (merge_left b p)) = pg_addr p" "pg_size (snd (merge_left b p)) = pg_size p"
  "pg_addr (snd (merge_right b p)) = pg_addr p" "pg_size (snd (merge_right b p)) = pg_size p"
  by (simp_all add: merge_left_def merge_right_def Let_def split: option.split)

lemma page_release_frame [simp]:
  "pg_addr (page_release b p) = pg_addr p" "pg_size (page_release b p) = pg_size p"
  by (simp_all add: page_release_def case_prod_beta merge_frame Let_def)

lemma page_new_ok:
  assumes "sz \<noteq> 0" "unat addr + unat sz < 2 ^ 64" "m dvd unat addr" "m dvd unat sz"
  shows "page_ok m (page_new addr sz)"
proof -
  have "unat (addr + sz) = unat addr + unat sz" using assms(2) by (intro unat_plus_no_wrap) simp
  then have "tiles addr (addr + sz) [((addr, sz), False)]" using assms(1) by simp
  then show ?thesis using assms
    by (auto simp: page_ok_def page_new_def views_def no_free_pair_def intro!: exI[of _ "[((addr, sz), False)]"])
qed

lemma unat_align: "unat (ucast (x :: u32) :: u64) = unat x"
  using u32_bound[of x] by (simp add: unsigned_ucast_eq take_bit_nat_eq_self)

lemma page_allocate_ok:
  assumes "page_ok (unat ba) p" "b \<in> set (pg_freeS p)" "sz \<le> snd b" "sz \<noteq> 0" "unat ba dvd unat sz" "ba \<noteq> 0"
  shows "page_ok (unat ba) (page_allocate ba sz b p)"
    "mset (pg_used (page_allocate ba sz b p)) = add_mset (fst b, sz) (mset (pg_used p))"
proof -
  obtain L where L: "tiles (pg_addr p) (pg_addr p + pg_size p) L" "views L p" "no_free_pair L" "grain (unat ba) L"
    using assms(1) by (auto simp: page_ok_def)
  have "(b, False) \<in> set L" using assms(2) tiles_views_set(2)[OF L(2)] by (simp add: layout_sets)
  then obtain K J where KJ: "L = K @ (b, False) # J" by (meson split_list)
  note T = L(1)[unfolded KJ] and V = L(2)[unfolded KJ]
  have r: "unat (snd b - sz) = unat (snd b) - unat sz" by (rule unat_sub[OF assms(3)])
  have d: "unat ba dvd unat (snd b - sz)" using assms(5) L(4) KJ r by (simp add: dvd_diff_nat)
  note u = unat_align[of ba]
  have g: "snd b - sz \<ge> ucast ba \<longleftrightarrow> sz \<noteq> snd b"
  proof
    assume "sz \<noteq> snd b"
    then have "unat (snd b - sz) \<noteq> 0" by (simp add: unat_eq_0)
    then show "snd b - sz \<ge> ucast ba" using d by (simp add: word_le_nat_alt u dvd_imp_le)
  next
    assume "snd b - sz \<ge> ucast ba"
    then show "sz \<noteq> snd b" using assms(6) by (auto simp: word_le_nat_alt u unat_eq_0)
  qed
  note W = page_allocate_views[OF T V assms(3,4) g] and T' = tiles_taken[OF T assms(3,4)]
  have "no_free_pair (K @ taken sz b @ J)"
    using L(3) KJ by (auto simp: taken_def no_free_pair_simps)
  moreover have "grain (unat ba) (K @ taken sz b @ J)" using L(4) KJ assms(5) d by (simp add: taken_def)
  ultimately show "page_ok (unat ba) (page_allocate ba sz b p)"
    using W T' assms(1) unfolding page_ok_def page_allocate_frame by blast
  have "useds (K @ taken sz b @ J) = useds K @ (fst b, sz) # useds J" by (simp add: taken_def)
  then show "mset (pg_used (page_allocate ba sz b p)) = add_mset (fst b, sz) (mset (pg_used p))"
    using W V by (simp add: views_def)
qed

lemma page_release_ok:
  assumes "page_ok m p" "b \<in> set (pg_used p)"
  shows "page_ok m (page_release b p)"
    "add_mset b (mset (pg_used (page_release b p))) = mset (pg_used p)"
proof -
  obtain L where L: "tiles (pg_addr p) (pg_addr p + pg_size p) L" "views L p" "no_free_pair L" "grain m L"
    using assms(1) by (auto simp: page_ok_def)
  have "(b, True) \<in> set L" using assms(2) tiles_views_set(1)[OF L(2)] by (simp add: layout_sets)
  then obtain K J where KJ: "L = K @ (b, True) # J" by (meson split_list)
  note T = L(1)[unfolded KJ] and V = L(2)[unfolded KJ]
  note W = page_release_views[OF T V] and N = no_free_pair_joined[OF L(3)[unfolded KJ]] and G = grain_joined[OF T L(4)[unfolded KJ]]
  show "page_ok m (page_release b p)" using W N G assms(1) unfolding page_ok_def page_release_frame by blast
  show "add_mset b (mset (pg_used (page_release b p))) = mset (pg_used p)"
    using W V by (simp add: views_def useds_joined)
qed

text \<open>A page with no used block is one free block, which the destructor asserts.\<close>

lemma all_free_single:
  assumes "no_free_pair L" "useds L = []" "L \<noteq> []"
  shows "length (frees L) = 1"
proof -
  have f: "\<not> snd e" if "e \<in> set L" for e using assms(2) that by (auto simp: useds_def filter_empty_conv)
  obtain e L' where L: "L = e # L'" using assms(3) by (cases L) auto
  have "L' = []"
  proof (cases L')
    case (Cons g L'')
    then show ?thesis using assms(1) f[of e] f[of g] L by (simp add: no_free_pair_def)
  qed
  then show ?thesis using f[of e] L by (simp add: frees_def)
qed

lemma page_delete_fine:
  assumes "page_ok m p" "page_empty p"
  shows "page_delete_ok p"
proof -
  obtain L where L: "tiles (pg_addr p) (pg_addr p + pg_size p) L" "views L p" "no_free_pair L"
    using assms(1) by (auto simp: page_ok_def)
  have "useds L = []" using L(2) assms(2) by (simp add: views_def page_empty_def)
  moreover have "L \<noteq> []" using L(1) assms(1) by (auto simp: page_ok_def)
  ultimately have "length (frees L) = 1" by (intro all_free_single L(3))
  then show ?thesis using L(2) assms(2) by (simp add: page_delete_ok_def page_empty_def views_def)
qed

end
