(* ===== verification/Alloc_Spec.thy ===== *)
theory Alloc_Spec
  imports Mem_Alloc
begin

text \<open>
  What the device memory allocator promises: the invariant of its pages, the effect of the three operations on the
  multiset of live blocks, the contract of an allocator as a locale, and its interpretation on the model of
  \<open>src/vortex/sw/common/mem_alloc.h\<close>.
\<close>

unbundle bit_operations_syntax

section \<open>Rounding up\<close>

definition round_up :: "nat \<Rightarrow> nat \<Rightarrow> nat" where
  "round_up n s = (s + n - 1) div n * n"

lemma round_up_bounds:
  assumes "0 < n"
  shows "s \<le> round_up n s" "round_up n s < s + n" "n dvd round_up n s"
proof -
  have "(s + n - 1) div n * n + (s + n - 1) mod n = s + n - 1" by simp
  moreover have "(s + n - 1) mod n < n" using assms by simp
  ultimately show "s \<le> round_up n s" "round_up n s < s + n" using assms unfolding round_up_def by linarith+
  show "n dvd round_up n s" by (simp add: round_up_def)
qed

lemma round_up_least:
  assumes "0 < n" "n dvd k" "s \<le> k"
  shows "round_up n s \<le> k"
proof (rule ccontr)
  assume "\<not> round_up n s \<le> k"
  then have "0 < round_up n s - k" "n dvd round_up n s - k" using assms(2) round_up_bounds(3)[OF assms(1)] by (auto intro: dvd_diff_nat)
  then have "n \<le> round_up n s - k" by (simp add: dvd_imp_le)
  then show False using round_up_bounds(2)[OF assms(1), of s] assms(1,3) by linarith
qed

lemma alignSize_rounds:
  assumes "unat al = 2 ^ j" "unat sz + unat al \<le> 2 ^ 64"
  shows "unat (alignSize sz al) = round_up (unat al) (unat sz)"
proof -
  have "al = of_nat (unat al)" by simp
  then have al: "al - 1 = mask j" by (simp only: assms(1)) (simp add: mask_eq_exp_minus_1)
  have pos: "Suc 0 \<le> unat al" by (simp only: assms(1)) simp
  have "al \<noteq> 0" using assms(1) by (metis power_not_zero unat_0 zero_neq_numeral)
  then have "1 \<le> al" by (simp add: word_le_nat_alt Suc_le_eq unat_gt_0)
  then have m: "unat (al - 1) = unat al - 1" by (simp add: unat_sub)
  have "unat (sz + (al - 1)) = unat sz + unat (al - 1)"
    by (rule unat_plus_no_wrap) (use m assms(2) pos in simp)
  then have "unat (sz + al - 1) = unat sz + unat al - 1" using m pos by (simp add: add_diff_eq)
  then show ?thesis by (simp add: alignSize_def al unat_clear_low round_up_def assms(1))
qed

section \<open>The invariant of the allocator\<close>

definition page_end :: "page \<Rightarrow> nat" where
  "page_end p = unat (pg_addr p) + unat (pg_size p)"

definition pages_ok :: "nat \<Rightarrow> nat \<Rightarrow> nat \<Rightarrow> page list \<Rightarrow> bool" where
  "pages_ok m lo hi ps \<longleftrightarrow> sorted_wrt (\<lambda>p q. page_end p \<le> unat (pg_addr q)) ps \<and>
     (\<forall>p \<in> set ps. page_ok m p \<and> m dvd unat (pg_size p) \<and> lo \<le> unat (pg_addr p) \<and> page_end p \<le> hi)"

definition live :: "page list \<Rightarrow> block multiset" where
  "live ps = mset (concat (map pg_used ps))"

definition settings_ok :: "allocator \<Rightarrow> bool" where
  "settings_ok a \<longleftrightarrow> (\<exists>i j. i \<le> j \<and> unat (al_blockAlign a) = 2 ^ i \<and> unat (al_pageAlign a) = 2 ^ j)
     \<and> unat (al_base a) + 2 * unat (al_capacity a) < 2 ^ 64 \<and> unat (al_blockAlign a) dvd unat (al_base a)"

definition alloc_ok :: "allocator \<Rightarrow> bool" where
  "alloc_ok a \<longleftrightarrow> settings_ok a
     \<and> pages_ok (unat (al_blockAlign a)) (unat (al_base a)) (unat (al_base a) + unat (al_capacity a)) (al_pages a)
     \<and> (\<forall>p \<in> set (al_pages a). pg_used p \<noteq> [])
     \<and> al_allocated a = (\<Sum>b \<in># live (al_pages a). snd b)"

lemma live_simps [simp]: "live [] = {#}" "live (p # ps) = mset (pg_used p) + live ps" "live (ps @ qs) = live ps + live qs"
  by (simp_all add: live_def)

text \<open>Replacing a page.\<close>

lemma pages_ok_split:
  "pages_ok m lo hi (K @ p # J) \<longleftrightarrow> pages_ok m lo hi (K @ J) \<and> page_ok m p \<and> m dvd unat (pg_size p)
     \<and> lo \<le> unat (pg_addr p) \<and> page_end p \<le> hi
     \<and> (\<forall>q \<in> set K. page_end q \<le> unat (pg_addr p)) \<and> (\<forall>q \<in> set J. page_end p \<le> unat (pg_addr q))"
  by (auto simp: pages_ok_def sorted_wrt_append)

lemma pages_ok_update:
  "pages_ok m lo hi (K @ p # J) \<Longrightarrow> page_ok m q \<Longrightarrow> pg_addr q = pg_addr p \<Longrightarrow> pg_size q = pg_size p \<Longrightarrow> pages_ok m lo hi (K @ q # J)"
  by (auto simp: pages_ok_split page_end_def)

lemma split_at: "i < length xs \<Longrightarrow> \<exists>K J. xs = K @ (xs ! i) # J \<and> length K = i"
  by (intro exI[of _ "take i xs"] exI[of _ "drop (Suc i) xs"]) (simp add: id_take_nth_drop)

section \<open>Searching\<close>

lemma last_fit_in: "snd b \<ge> sz \<Longrightarrow> last_fit sz b bs \<in> insert b (set bs) \<and> snd (last_fit sz b bs) \<ge> sz"
  by (induction bs arbitrary: b) auto

lemma findFreeBlock_Some: "findFreeBlock sz p = Some b \<Longrightarrow> b \<in> set (pg_freeS p) \<and> sz \<le> snd b"
  using last_fit_in by (auto simp: findFreeBlock_def split: list.splits if_splits)

lemma findFreeBlock_None:
  assumes "page_ok m p" "findFreeBlock sz p = None" "b \<in> set (pg_freeS p)"
  shows "snd b < sz"
proof -
  have "sorted_wrt (\<lambda>b c. snd c \<le> snd b) (pg_freeS p)" using assms(1) by (auto simp: page_ok_def views_def)
  then show ?thesis using assms(2,3) by (auto simp: findFreeBlock_def not_le split: list.splits if_splits)
qed

lemma first_free_Some: "first_free sz ps = Some (i, b) \<Longrightarrow> i < length ps \<and> findFreeBlock sz (ps ! i) = Some b"
  by (induction ps arbitrary: i) (auto split: option.splits)

lemma first_free_None: "first_free sz ps = None \<longleftrightarrow> (\<forall>p \<in> set ps. findFreeBlock sz p = None)"
  by (induction ps) (auto split: option.splits)

lemma first_used_Some: "first_used addr ps = Some (i, b) \<Longrightarrow> i < length ps \<and> findUsedBlock addr (ps ! i) = Some b"
  by (induction ps arbitrary: i) (auto split: option.splits)

lemma first_used_None: "first_used addr ps = None \<longleftrightarrow> (\<forall>p \<in> set ps. findUsedBlock addr p = None)"
  by (induction ps) (auto split: option.splits)

lemma findUsedBlock_Some: "findUsedBlock addr p = Some b \<Longrightarrow> b \<in> set (pg_used p) \<and> fst b = addr"
  by (auto simp: findUsedBlock_def find_Some_iff split: if_splits)

lemma tiles_aligned: "tiles lo hi L \<Longrightarrow> grain m L \<Longrightarrow> m dvd unat lo \<Longrightarrow> (b, u) \<in> set L \<Longrightarrow> m dvd unat (fst b)"
proof (induction L arbitrary: lo)
  case (Cons e L)
  obtain c v where e: "e = (c, v)" by fastforce
  have c: "fst c = lo" "unat (lo + snd c) = unat lo + unat (snd c)" "tiles (lo + snd c) hi L"
    using Cons.prems(1) unat_end[of lo "snd c" hi] by (auto simp: e)
  show ?case using Cons.IH[OF c(3)] Cons.prems(2-4) c(1,2) by (auto simp: e)
qed simp

lemma page_used:
  assumes "page_ok m p" "b \<in> set (pg_used p)"
  shows "unat (pg_addr p) \<le> unat (fst b)" "unat (fst b) + unat (snd b) \<le> page_end p" "snd b \<noteq> 0"
    "m dvd unat (snd b)" "findUsedBlock (fst b) p \<noteq> None" "m dvd unat (fst b)"
proof -
  obtain L where L: "tiles (pg_addr p) (pg_addr p + pg_size p) L" "views L p" "grain m L"
    using assms(1) by (auto simp: page_ok_def)
  have m: "(b, True) \<in> set L" using assms(2) tiles_views_set(1)[OF L(2)] by (simp add: layout_sets)
  note t = tiles_block[OF L(1) m]
  have e: "unat (pg_addr p + pg_size p) = page_end p"
    using assms(1) by (simp add: page_ok_def page_end_def unat_plus_no_wrap)
  show a: "unat (pg_addr p) \<le> unat (fst b)" "unat (fst b) + unat (snd b) \<le> page_end p" "snd b \<noteq> 0" using t e by simp_all
  show "m dvd unat (snd b)" using L(3) m by (auto simp: grain_def)
  show "m dvd unat (fst b)" using tiles_aligned[OF L(1,3) _ m] assms(1) by (simp add: page_ok_def)
  have "0 < unat (snd b)" using a(3) by (simp add: unat_gt_0)
  then have "unat (fst b) < unat (pg_addr p + pg_size p)" using a(2) e by simp
  then show "findUsedBlock (fst b) p \<noteq> None"
    using a(1) assms(2) by (cases b) (auto simp: findUsedBlock_def find_None_iff word_le_nat_alt word_less_nat_alt)
qed


section \<open>A new page\<close>

lemma insert_page_split:
  "\<exists>K J. insert_page p ps = (length K, K @ p # J) \<and> ps = K @ J
     \<and> (\<forall>q \<in> set K. pg_addr q \<le> pg_addr p) \<and> (J = [] \<or> pg_addr p \<le> pg_addr (hd J))"
proof (induction ps)
  case (Cons q qs)
  then obtain K J where *: "insert_page p qs = (length K, K @ p # J)" "qs = K @ J"
    "\<forall>q \<in> set K. pg_addr q \<le> pg_addr p" "J = [] \<or> pg_addr p \<le> pg_addr (hd J)" by blast
  show ?case
  proof (cases "pg_addr q < pg_addr p")
    case True
    then show ?thesis using * by (intro exI[of _ "q # K"] exI[of _ J]) auto
  next
    case False
    then show ?thesis by (intro exI[of _ "[]"] exI[of _ "q # qs"]) auto
  qed
qed simp

lemma createPage_split:
  "\<exists>K J. createPage addr sz ps = (length K, K @ page_new addr sz # J) \<and> ps = K @ J
     \<and> (\<forall>q \<in> set K. pg_addr q \<le> addr) \<and> (J = [] \<or> addr \<le> pg_addr (hd J))"
proof (cases ps)
  case Nil
  then show ?thesis by (auto simp: createPage_def)
next
  case (Cons q qs)
  obtain K J where *: "insert_page (page_new addr sz) qs = (length K, K @ page_new addr sz # J)" "qs = K @ J"
    "\<forall>q \<in> set K. pg_addr q \<le> addr" "J = [] \<or> addr \<le> pg_addr (hd J)"
    using insert_page_split[of "page_new addr sz" qs] by (auto simp: page_new_def)
  show ?thesis
  proof (cases "pg_addr q > addr")
    case True
    then show ?thesis using Cons by (intro exI[of _ "[]"] exI[of _ "q # qs"]) (auto simp: createPage_def)
  next
    case False
    then show ?thesis using Cons * by (intro exI[of _ "q # K"] exI[of _ J]) (auto simp: createPage_def)
  qed
qed

definition apart :: "nat \<Rightarrow> nat \<Rightarrow> page list \<Rightarrow> bool" where
  "apart x n ps \<longleftrightarrow> (\<forall>p \<in> set ps. page_end p \<le> x \<or> x + n \<le> unat (pg_addr p))"

lemma createPage_ok:
  assumes ok: "pages_ok m lo hi ps" and sz: "sz \<noteq> 0" "m dvd unat sz" and addr: "m dvd unat addr" "lo \<le> unat addr"
    and fits: "unat addr + unat sz \<le> hi" "hi < 2 ^ 64" and ap: "apart (unat addr) (unat sz) ps"
  shows "\<exists>K J. createPage addr sz ps = (length K, K @ page_new addr sz # J) \<and> ps = K @ J
    \<and> pages_ok m lo hi (K @ page_new addr sz # J)"
proof -
  obtain K J where KJ: "createPage addr sz ps = (length K, K @ page_new addr sz # J)" "ps = K @ J"
    "\<forall>q \<in> set K. pg_addr q \<le> addr" "J = [] \<or> addr \<le> pg_addr (hd J)" using createPage_split[of addr sz ps] by blast
  have n: "0 < unat sz" using sz(1) by (simp add: unat_gt_0)
  have ne: "0 < unat (pg_size q)" if "q \<in> set ps" for q using ok that by (auto simp: pages_ok_def page_ok_def unat_gt_0)
  have 1: "page_end q \<le> unat addr" if "q \<in> set K" for q
  proof -
    have "unat (pg_addr q) \<le> unat addr" using KJ(3) that by (simp add: word_le_nat_alt)
    moreover have "page_end q \<le> unat addr \<or> unat addr + unat sz \<le> unat (pg_addr q)" using ap KJ(2) that by (simp add: apart_def)
    ultimately show ?thesis using n by linarith
  qed
  have 2: "unat addr + unat sz \<le> unat (pg_addr q)" if q: "q \<in> set J" for q
  proof -
    obtain h J' where J: "J = h # J'" using q by (cases J) auto
    have "page_end h \<le> unat (pg_addr q) \<or> h = q" using ok KJ(2) J q by (auto simp: pages_ok_def sorted_wrt_append)
    then have "unat (pg_addr h) \<le> unat (pg_addr q)" by (auto simp: page_end_def)
    then have "unat addr \<le> unat (pg_addr q)" using KJ(4) J by (simp add: word_le_nat_alt)
    moreover have "page_end q \<le> unat addr \<or> unat addr + unat sz \<le> unat (pg_addr q)" using ap KJ(2) q by (simp add: apart_def)
    ultimately show ?thesis using ne[of q] KJ(2) q by (auto simp: page_end_def)
  qed
  have "page_ok m (page_new addr sz)" using page_new_ok[of sz addr m] sz addr fits by simp
  then have "pages_ok m lo hi (K @ page_new addr sz # J)"
    using ok KJ(2) sz addr fits 1 2 by (auto simp: pages_ok_split page_new_def page_end_def)
  then show ?thesis using KJ by blast
qed

lemma hasPageOverlap_iff:
  assumes "pages_ok m lo hi ps" "unat addr + unat sz < 2 ^ 64"
  shows "hasPageOverlap addr sz ps \<longleftrightarrow> \<not> apart (unat addr) (unat sz) ps"
proof -
  have "unat (addr + sz) = unat addr + unat sz" by (rule unat_plus_no_wrap) (use assms(2) in simp)
  moreover have "unat (pg_addr p + pg_size p) = page_end p" if "p \<in> set ps" for p
    using assms(1) that by (simp add: pages_ok_def page_ok_def page_end_def unat_plus_no_wrap)
  ultimately show ?thesis
    by (auto simp: hasPageOverlap_def apart_def list_ex_iff word_less_nat_alt not_le)
qed

section \<open>The gap search\<close>

lemma next_gap_spec:
  assumes "pages_ok m lo hi ps" "\<forall>p \<in> set ps. unat e \<le> unat (pg_addr p)" "m dvd unat e"
    and "unat e \<le> hi" "hi + unat sz < 2 ^ 64"
  shows "(\<exists>x. next_gap sz e ps = Inr x \<and> unat e \<le> unat x \<and> unat x + unat sz \<le> hi \<and> m dvd unat x \<and> apart (unat x) (unat sz) ps)
    \<or> (\<exists>x. next_gap sz e ps = Inl x \<and> unat e \<le> unat x \<and> unat x \<le> hi \<and> m dvd unat x \<and> apart (unat x) (unat sz) ps
        \<and> (\<forall>y \<ge> unat e. y < unat x \<longrightarrow> \<not> apart y (unat sz) ps))"
  using assms
proof (induction ps arbitrary: e)
  case Nil
  then show ?case by (auto simp: apart_def)
next
  case (Cons p ps)
  have es: "unat (e + sz) = unat e + unat sz" by (rule unat_plus_no_wrap) (use Cons.prems(4,5) in simp)
  have pe: "unat (pg_addr p + pg_size p) = page_end p" "page_end p \<le> hi" "m dvd page_end p"
    using Cons.prems(1) by (auto simp: pages_ok_def page_ok_def page_end_def unat_plus_no_wrap)
  have ok: "pages_ok m lo hi ps" "\<forall>q \<in> set ps. page_end p \<le> unat (pg_addr q)"
    using Cons.prems(1) by (auto simp: pages_ok_def)
  show ?case
  proof (cases "unat e + unat sz \<le> unat (pg_addr p)")
    case True
    then have "apart (unat e) (unat sz) (p # ps)" using ok(2) by (auto simp: apart_def page_end_def)
    moreover have "unat (pg_addr p) \<le> hi" using pe(2) by (simp add: page_end_def)
    ultimately show ?thesis using True Cons.prems(3) es by (simp add: word_le_nat_alt)
  next
    case False
    let ?e = "pg_addr p + pg_size p"
    have g: "next_gap sz e (p # ps) = next_gap sz ?e ps" using False es by (simp add: word_le_nat_alt)
    have le: "unat e \<le> unat ?e" using Cons.prems(2) pe(1) by (auto simp: page_end_def)
    have ap: "apart y (unat sz) (p # ps) \<longleftrightarrow> apart y (unat sz) ps" if "page_end p \<le> y" for y
      using that by (auto simp: apart_def)
    have low: "\<not> apart y (unat sz) (p # ps)" if "unat e \<le> y" "y < page_end p" for y
      using that False by (auto simp: apart_def)
    have "\<forall>q \<in> set ps. unat ?e \<le> unat (pg_addr q)" "m dvd unat ?e" "unat ?e \<le> hi" using ok(2) pe by simp_all
    note IH = Cons.IH[OF ok(1) this Cons.prems(5)]
    then show ?thesis
    proof (elim disjE exE conjE)
      fix x assume x: "next_gap sz ?e ps = Inr x" "unat ?e \<le> unat x" "unat x + unat sz \<le> hi" "m dvd unat x"
        "apart (unat x) (unat sz) ps"
      then show ?thesis unfolding g using le ap[of "unat x"] pe(1) by (intro disjI1 exI[of _ x]) simp
    next
      fix x assume x: "next_gap sz ?e ps = Inl x" "unat ?e \<le> unat x" "unat x \<le> hi" "m dvd unat x"
        "apart (unat x) (unat sz) ps" "\<forall>y \<ge> unat ?e. y < unat x \<longrightarrow> \<not> apart y (unat sz) ps"
      have "\<not> apart y (unat sz) (p # ps)" if "unat e \<le> y" "y < unat x" for y
        using that low[of y] ap[of y] x(6) pe(1) by (cases "y < page_end p") auto
      then show ?thesis unfolding g using x le ap[of "unat x"] pe(1) by (intro disjI2 exI[of _ x]) simp
    qed
  qed
qed


lemma findNextAddress_Some:
  assumes ok: "alloc_ok a" and sz: "unat sz \<le> unat (al_capacity a)" and f: "findNextAddress sz a = Some x"
  shows "unat (al_base a) \<le> unat x" "unat x + unat sz \<le> unat (al_base a) + unat (al_capacity a)"
    "unat (al_blockAlign a) dvd unat x" "apart (unat x) (unat sz) (al_pages a)"
proof -
  let ?m = "unat (al_blockAlign a)" and ?hi = "unat (al_base a) + unat (al_capacity a)"
  have cfg: "?hi + unat sz < 2 ^ 64" "?m dvd unat (al_base a)" and ps: "pages_ok ?m (unat (al_base a)) ?hi (al_pages a)"
    using ok sz by (auto simp: alloc_ok_def settings_ok_def)
  have hi: "unat (al_base a + al_capacity a) = ?hi" by (rule unat_plus_no_wrap) (use cfg(1) in simp)
  have xs: "unat (x + sz) = unat x + unat sz" if "unat x \<le> ?hi" for x by (rule unat_plus_no_wrap) (use that cfg(1) in simp)
  have lo: "\<forall>p \<in> set (al_pages a). unat (al_base a) \<le> unat (pg_addr p)" using ps by (simp add: pages_ok_def)
  have "unat (al_base a) \<le> unat x \<and> unat x + unat sz \<le> ?hi \<and> ?m dvd unat x \<and> apart (unat x) (unat sz) (al_pages a)"
  proof (cases "al_pages a = []")
    case True
    then show ?thesis using f sz cfg(2) by (auto simp: findNextAddress_def apart_def)
  next
    case False
    then show ?thesis using next_gap_spec[OF ps lo cfg(2) _ cfg(1)] f xs hi
      by (auto simp: findNextAddress_def word_le_nat_alt split: if_splits)
  qed
  then show "unat (al_base a) \<le> unat x" "unat x + unat sz \<le> ?hi" "?m dvd unat x" "apart (unat x) (unat sz) (al_pages a)"
    by blast+
qed

lemma findNextAddress_None:
  assumes ok: "alloc_ok a" and sz: "unat sz \<le> unat (al_capacity a)" and f: "findNextAddress sz a = None"
    and y: "unat (al_base a) \<le> y" "y + unat sz \<le> unat (al_base a) + unat (al_capacity a)"
  shows "\<not> apart y (unat sz) (al_pages a)"
proof -
  let ?m = "unat (al_blockAlign a)" and ?hi = "unat (al_base a) + unat (al_capacity a)"
  have cfg: "?hi + unat sz < 2 ^ 64" "?m dvd unat (al_base a)" and ps: "pages_ok ?m (unat (al_base a)) ?hi (al_pages a)"
    using ok sz by (auto simp: alloc_ok_def settings_ok_def)
  have hi: "unat (al_base a + al_capacity a) = ?hi" by (rule unat_plus_no_wrap) (use cfg(1) in simp)
  have xs: "unat (x + sz) = unat x + unat sz" if "unat x \<le> ?hi" for x by (rule unat_plus_no_wrap) (use that cfg(1) in simp)
  have lo: "\<forall>p \<in> set (al_pages a). unat (al_base a) \<le> unat (pg_addr p)" using ps by (simp add: pages_ok_def)
  have n: "al_pages a \<noteq> []" using f by (auto simp: findNextAddress_def)
  from next_gap_spec[OF ps lo cfg(2) _ cfg(1)]
  obtain x where x: "next_gap sz (al_base a) (al_pages a) = Inl x" "unat x \<le> ?hi"
    "\<forall>y \<ge> unat (al_base a). y < unat x \<longrightarrow> \<not> apart y (unat sz) (al_pages a)"
    using f n by (auto simp: findNextAddress_def)
  have "?hi < unat x + unat sz" using f n x hi xs by (auto simp: findNextAddress_def word_le_nat_alt split: if_splits)
  then show ?thesis using x(3) y by auto
qed

section \<open>Blocks that do not overlap\<close>

definition disjoint :: "block \<Rightarrow> block \<Rightarrow> bool" where
  "disjoint b c \<longleftrightarrow> unat (fst b) + unat (snd b) \<le> unat (fst c) \<or> unat (fst c) + unat (snd c) \<le> unat (fst b)"

definition separated :: "block multiset \<Rightarrow> bool" where
  "separated M \<longleftrightarrow> (\<forall>b \<in># M. \<forall>c \<in># M - {#b#}. disjoint b c)"

lemma disjoint_sym: "disjoint b c \<Longrightarrow> disjoint c b"
  by (auto simp: disjoint_def)

lemma separated_empty [simp]: "separated {#}"
  by (simp add: separated_def)

lemma separated_plus:
  assumes "separated A" "separated B" "\<forall>a \<in># A. \<forall>b \<in># B. disjoint a b"
  shows "separated (A + B)"
  unfolding separated_def
proof (intro ballI)
  fix b c assume b: "b \<in># A + B" and c: "c \<in># A + B - {#b#}"
  show "disjoint b c"
  proof (cases "b \<in># A")
    case True
    then have "A + B - {#b#} = B + (A - {#b#})" by (metis add.commute diff_union_single_conv)
    then have "c \<in># A - {#b#} \<or> c \<in># B" using c by (metis union_iff)
    then show ?thesis using assms(1,3) True unfolding separated_def by blast
  next
    case False
    then have m: "b \<in># B" using b by simp
    then have "c \<in># A \<or> c \<in># B - {#b#}" using c by (metis union_iff diff_union_single_conv)
    then show ?thesis using assms(2,3) m disjoint_sym unfolding separated_def by blast
  qed
qed

lemma separated_add: "separated (add_mset b M) \<Longrightarrow> c \<in># M \<Longrightarrow> disjoint b c"
  by (auto simp: separated_def)

lemma separated_tiles: "tiles lo hi L \<Longrightarrow> separated (mset (useds L))"
proof (induction L arbitrary: lo)
  case (Cons e L)
  obtain b u where e: "e = (b, u)" by fastforce
  have t: "tiles lo hi ([] @ (b, u) # L)" using Cons.prems by (simp add: e)
  have IH: "separated (mset (useds L))" using Cons.IH[of "lo + snd b"] Cons.prems by (simp add: e)
  have "\<forall>c \<in># mset (useds L). disjoint b c" using tiles_split(2)[OF t] by (fastforce simp: layout_sets disjoint_def)
  then show ?case using separated_plus[of "{#b#}" "mset (useds L)"] IH by (simp add: e separated_def)
qed simp

lemma separated_pages:
  "pages_ok m lo hi ps \<Longrightarrow> separated (live ps) \<and> (\<forall>b \<in># live ps. \<exists>p \<in> set ps. unat (pg_addr p) \<le> unat (fst b)
     \<and> unat (fst b) + unat (snd b) \<le> page_end p \<and> snd b \<noteq> 0 \<and> m dvd unat (snd b) \<and> m dvd unat (fst b))"
proof (induction ps)
  case (Cons p ps)
  have ok: "pages_ok m lo hi ps" "page_ok m p" "\<forall>q \<in> set ps. page_end p \<le> unat (pg_addr q)"
    using Cons.prems by (auto simp: pages_ok_def)
  note IH = Cons.IH[OF ok(1)]
  obtain L where L: "tiles (pg_addr p) (pg_addr p + pg_size p) L" "mset (pg_used p) = mset (useds L)"
    using ok(2) by (auto simp: page_ok_def views_def)
  have "disjoint b c" if b: "b \<in> set (pg_used p)" and c: "c \<in># live ps" for b c
  proof -
    obtain q where "q \<in> set ps" "unat (pg_addr q) \<le> unat (fst c)" using IH c by blast
    then show ?thesis using ok(3) page_used(2)[OF ok(2) b] by (force simp: disjoint_def)
  qed
  moreover have "separated (mset (pg_used p))" using separated_tiles[OF L(1)] L(2) by simp
  ultimately have "separated (live (p # ps))" using IH separated_plus[of "mset (pg_used p)" "live ps"] by auto
  moreover have "\<forall>b \<in> set (pg_used p). unat (pg_addr p) \<le> unat (fst b)
     \<and> unat (fst b) + unat (snd b) \<le> page_end p \<and> snd b \<noteq> 0 \<and> m dvd unat (snd b) \<and> m dvd unat (fst b)"
    using page_used[OF ok(2)] by blast
  ultimately show ?case using IH by auto
qed simp

lemma live_bounds:
  assumes "pages_ok m lo hi ps" "b \<in># live ps"
  shows "lo \<le> unat (fst b)" "unat (fst b) + unat (snd b) \<le> hi" "snd b \<noteq> 0" "m dvd unat (snd b)" "m dvd unat (fst b)"
proof -
  obtain p where "p \<in> set ps" and p: "unat (pg_addr p) \<le> unat (fst b)"
    "unat (fst b) + unat (snd b) \<le> page_end p" "snd b \<noteq> 0" "m dvd unat (snd b)" "m dvd unat (fst b)" using separated_pages[OF assms(1)] assms(2) by blast
  then have "lo \<le> unat (pg_addr p)" "page_end p \<le> hi" using assms(1) by (auto simp: pages_ok_def)
  then show "lo \<le> unat (fst b)" "unat (fst b) + unat (snd b) \<le> hi" "snd b \<noteq> 0" "m dvd unat (snd b)" "m dvd unat (fst b)" using p by auto
qed

text \<open>Blocks that do not overlap have a total size within the range they lie in.\<close>

lemma used_sum: "tiles lo hi L \<Longrightarrow> unat lo + (\<Sum>b \<leftarrow> useds L. unat (snd b)) \<le> unat hi"
proof (induction L arbitrary: lo)
  case (Cons e L)
  obtain b u where e: "e = (b, u)" by fastforce
  have t: "tiles lo hi ([] @ (b, u) # L)" using Cons.prems by (simp add: e)
  have "fst b = lo" using Cons.prems by (simp add: e)
  then have "unat lo + unat (snd b) + (\<Sum>b \<leftarrow> useds L. unat (snd b)) \<le> unat hi"
    using Cons.IH[of "lo + snd b"] Cons.prems tiles_split(3)[OF t] by (simp add: e)
  then show ?case by (simp add: e)
qed simp

lemma live_sum: "pages_ok m lo hi ps \<Longrightarrow> lo \<le> hi \<Longrightarrow> lo + (\<Sum>b \<in># live ps. unat (snd b)) \<le> hi"
proof (induction ps arbitrary: lo)
  case (Cons p ps)
  have ok: "page_ok m p" "lo \<le> unat (pg_addr p)" "page_end p \<le> hi" "pages_ok m (page_end p) hi ps"
    using Cons.prems by (auto simp: pages_ok_def)
  obtain L where L: "tiles (pg_addr p) (pg_addr p + pg_size p) L" "mset (pg_used p) = mset (useds L)"
    using ok(1) by (auto simp: page_ok_def views_def)
  have e: "unat (pg_addr p + pg_size p) = page_end p"
    using ok(1) by (simp add: page_ok_def page_end_def unat_plus_no_wrap)
  have "(\<Sum>b \<in># mset (pg_used p). unat (snd b)) = (\<Sum>b \<leftarrow> useds L. unat (snd b))"
    by (simp add: L(2) sum_mset_sum_list flip: mset_map)
  then have "unat (pg_addr p) + (\<Sum>b \<in># mset (pg_used p). unat (snd b)) \<le> page_end p" using used_sum[OF L(1)] e by simp
  then show ?case using Cons.IH[OF ok(4,3)] ok(2) by simp
qed simp

lemma unat_sum_mset: "(\<Sum>b \<in># M. unat (f b :: u64)) < 2 ^ 64 \<Longrightarrow> unat (\<Sum>b \<in># M. f b) = (\<Sum>b \<in># M. unat (f b))"
proof (induction M)
  case (add b M)
  then have "unat (\<Sum>b \<in># M. f b) = (\<Sum>b \<in># M. unat (f b))" by simp
  then show ?case using add.prems unat_plus_no_wrap[of "f b" "\<Sum>b \<in># M. f b"] by simp
qed simp

lemma allocated_sum:
  assumes "alloc_ok a"
  shows "unat (al_allocated a) = (\<Sum>b \<in># live (al_pages a). unat (snd b))" "unat (al_allocated a) \<le> unat (al_capacity a)"
proof -
  have s: "(\<Sum>b \<in># live (al_pages a). unat (snd b)) \<le> unat (al_capacity a)"
    using assms live_sum[of "unat (al_blockAlign a)" "unat (al_base a)" _ "al_pages a"] by (fastforce simp: alloc_ok_def)
  then show "unat (al_allocated a) = (\<Sum>b \<in># live (al_pages a). unat (snd b))"
    using assms unat_sum_mset[of snd "live (al_pages a)"] u64_bound[of "al_capacity a"] by (simp add: alloc_ok_def)
  then show "unat (al_allocated a) \<le> unat (al_capacity a)" using s by simp
qed


section \<open>The operations\<close>

lemma settings_frame:
  "settings_ok a \<Longrightarrow> al_base a' = al_base a \<Longrightarrow> al_capacity a' = al_capacity a \<Longrightarrow> al_blockAlign a' = al_blockAlign a
    \<Longrightarrow> al_pageAlign a' = al_pageAlign a \<Longrightarrow> settings_ok a'"
  by (simp add: settings_ok_def)

lemma place_frame [simp]:
  "al_base (place sz i b ps a) = al_base a" "al_capacity (place sz i b ps a) = al_capacity a"
  "al_blockAlign (place sz i b ps a) = al_blockAlign a" "al_pageAlign (place sz i b ps a) = al_pageAlign a"
  "al_allocated (place sz i b ps a) = al_allocated a + sz"
  by (simp_all add: place_def)

lemma place_ok:
  assumes ps: "pages_ok (unat (al_blockAlign a)) lo hi (K @ p # J)" and f: "findFreeBlock sz p = Some b"
    and sz: "sz \<noteq> 0" "unat (al_blockAlign a) dvd unat sz" "al_blockAlign a \<noteq> 0"
  shows "pages_ok (unat (al_blockAlign a)) lo hi (al_pages (place sz (length K) b (K @ p # J) a))"
    "live (al_pages (place sz (length K) b (K @ p # J) a)) = add_mset (fst b, sz) (live (K @ p # J))"
    "(\<forall>q \<in> set (K @ J). pg_used q \<noteq> []) \<Longrightarrow> \<forall>q \<in> set (al_pages (place sz (length K) b (K @ p # J) a)). pg_used q \<noteq> []"
proof -
  have p: "page_ok (unat (al_blockAlign a)) p" using ps by (simp add: pages_ok_split)
  note b = findFreeBlock_Some[OF f]
  note q = page_allocate_ok[OF p conjunct1[OF b] conjunct2[OF b] sz]
  have e: "al_pages (place sz (length K) b (K @ p # J) a) = K @ page_allocate (al_blockAlign a) sz b p # J"
    by (simp add: place_def)
  show "pages_ok (unat (al_blockAlign a)) lo hi (al_pages (place sz (length K) b (K @ p # J) a))"
    unfolding e by (rule pages_ok_update[OF ps q(1)]) simp_all
  show "live (al_pages (place sz (length K) b (K @ p # J) a)) = add_mset (fst b, sz) (live (K @ p # J))"
    unfolding e by (simp add: q(2))
  show "\<forall>q \<in> set (al_pages (place sz (length K) b (K @ p # J) a)). pg_used q \<noteq> []" if "\<forall>q \<in> set (K @ J). pg_used q \<noteq> []"
    using that q(2) unfolding e by auto
qed

lemma settings_facts:
  assumes "settings_ok a"
  shows "al_blockAlign a \<noteq> 0" "unat (al_blockAlign a) dvd unat (al_pageAlign a)" "unat (al_blockAlign a) \<le> unat (al_pageAlign a)"
    "0 < unat (al_blockAlign a)" "0 < unat (al_pageAlign a)"
proof -
  obtain i j where ij: "i \<le> j" "unat (al_blockAlign a) = 2 ^ i" "unat (al_pageAlign a) = 2 ^ j"
    using assms by (auto simp: settings_ok_def)
  then show d: "unat (al_blockAlign a) dvd unat (al_pageAlign a)" by (simp add: le_imp_power_dvd)
  show p: "0 < unat (al_blockAlign a)" "0 < unat (al_pageAlign a)" by (simp_all only: ij(2,3)) simp_all
  then show "al_blockAlign a \<noteq> 0" by auto
  show "unat (al_blockAlign a) \<le> unat (al_pageAlign a)" using d p(2) by (rule dvd_imp_le)
qed

lemma align_assert_power:
  assumes "unat (x :: u64) = 2 ^ i"
  shows "align_assert x"
proof -
  have i: "i < 64" by (rule power_less_imp_less_exp[of 2]) (use u64_bound[of x] assms in simp_all)
  then have x: "x = 2 ^ i" using assms unat_power2[of i, where 'a = 64] by (simp add: word_unat_eq_iff)
  have "x AND (x - 1) = 2 ^ i AND mask i" unfolding x mask_eq_exp_minus_1 ..
  also have "\<dots> = 0" by (rule word_eq_by_bits) (auto simp: bit_simps)
  finally show ?thesis by (simp add: align_assert_def)
qed

lemma settings_assert:
  assumes "settings_ok a"
  shows "align_assert (ucast (al_blockAlign a))" "align_assert (ucast (al_pageAlign a))"
proof -
  obtain i j where "unat (al_blockAlign a) = 2 ^ i" "unat (al_pageAlign a) = 2 ^ j" using assms by (auto simp: settings_ok_def)
  then have "unat (ucast (al_blockAlign a) :: u64) = 2 ^ i" "unat (ucast (al_pageAlign a) :: u64) = 2 ^ j" by (simp_all add: unat_align)
  then show "align_assert (ucast (al_blockAlign a))" "align_assert (ucast (al_pageAlign a))" by (auto intro: align_assert_power)
qed

lemma align_block:
  assumes "settings_ok a" "unat n + unat (al_pageAlign a) \<le> 2 ^ 64"
  shows "unat (alignSize n (ucast (al_blockAlign a))) = round_up (unat (al_blockAlign a)) (unat n)"
proof -
  obtain i where "unat (al_blockAlign a) = 2 ^ i" using assms(1) by (auto simp: settings_ok_def)
  then show ?thesis using alignSize_rounds[of "ucast (al_blockAlign a)" i n] settings_facts(3)[OF assms(1)] assms(2)
    by (simp add: unat_align)
qed

lemma align_page:
  assumes "settings_ok a" "unat n + unat (al_pageAlign a) \<le> 2 ^ 64"
  shows "unat (alignSize n (ucast (al_pageAlign a))) = round_up (unat (al_pageAlign a)) (unat n)"
proof -
  obtain i where "unat (al_pageAlign a) = 2 ^ i" using assms(1) by (auto simp: settings_ok_def)
  then show ?thesis using alignSize_rounds[of "ucast (al_pageAlign a)" i n] assms(2) by (simp add: unat_align)
qed

text \<open>Rounding to blocks and then to pages is rounding to pages.\<close>

lemma round_up_twice:
  assumes "0 < m" "0 < n" "m dvd n"
  shows "round_up n (round_up m s) = round_up n s"
proof (rule antisym)
  show "round_up n (round_up m s) \<le> round_up n s"
    using round_up_bounds[OF assms(2), of s] round_up_least[OF assms(1), of "round_up n s" s] assms(3)
    by (intro round_up_least[OF assms(2)]) (auto intro: dvd_trans)
  show "round_up n s \<le> round_up n (round_up m s)"
    using round_up_bounds[OF assms(2), of "round_up m s"] round_up_bounds(1)[OF assms(1), of s]
    by (intro round_up_least[OF assms(2)]) auto
qed

lemma findFreeBlock_new: "sz \<le> psz \<Longrightarrow> findFreeBlock sz (page_new x psz) = Some (x, psz)"
  by (simp add: findFreeBlock_def page_new_def)

lemma live_new [simp]: "pg_used (page_new x psz) = []"
  by (simp add: page_new_def)

lemma place_alloc_ok:
  assumes ok: "alloc_ok a" and KJ: "live (K @ p # J) = live (al_pages a)" "\<forall>q \<in> set (K @ J). pg_used q \<noteq> []"
    and ps: "pages_ok (unat (al_blockAlign a)) (unat (al_base a)) (unat (al_base a) + unat (al_capacity a)) (K @ p # J)"
    and f: "findFreeBlock sz p = Some b" and sz: "sz \<noteq> 0" "unat (al_blockAlign a) dvd unat sz"
  shows "alloc_ok (place sz (length K) b (K @ p # J) a)"
    "live (al_pages (place sz (length K) b (K @ p # J) a)) = add_mset (fst b, sz) (live (al_pages a))"
proof -
  have c: "settings_ok a" "al_allocated a = (\<Sum>b \<in># live (al_pages a). snd b)" using ok by (simp_all add: alloc_ok_def)
  note q = place_ok[OF ps f sz settings_facts(1)[OF c(1)]]
  show l: "live (al_pages (place sz (length K) b (K @ p # J) a)) = add_mset (fst b, sz) (live (al_pages a))" using q(2) KJ(1) by simp
  show "alloc_ok (place sz (length K) b (K @ p # J) a)"
    unfolding alloc_ok_def
  proof (intro conjI)
    show "settings_ok (place sz (length K) b (K @ p # J) a)" by (rule settings_frame[OF c(1)]) simp_all
    show "al_allocated (place sz (length K) b (K @ p # J) a) = (\<Sum>b \<in># live (al_pages (place sz (length K) b (K @ p # J) a)). snd b)"
      using l c(2) by simp
  qed (use q(1) q(3)[OF KJ(2)] in simp_all)
qed

definition same_settings :: "allocator \<Rightarrow> allocator \<Rightarrow> bool" where
  "same_settings a a' \<longleftrightarrow> al_base a' = al_base a \<and> al_capacity a' = al_capacity a \<and> al_blockAlign a' = al_blockAlign a
     \<and> al_pageAlign a' = al_pageAlign a"

text \<open>What \<open>allocate\<close> needs of a request, and the size of the block and of the page for it.\<close>

lemma request_sizes:
  assumes ok: "alloc_ok a" and n: "n \<noteq> 0" "unat n + unat (al_pageAlign a) \<le> unat (al_capacity a)"
  defines "sz \<equiv> alignSize n (ucast (al_blockAlign a))"
  defines "psz \<equiv> alignSize sz (ucast (al_pageAlign a))"
  shows "unat sz = round_up (unat (al_blockAlign a)) (unat n)" "unat psz = round_up (unat (al_pageAlign a)) (unat n)"
    "sz \<noteq> 0" "sz \<le> psz" "psz \<noteq> 0" "unat (al_blockAlign a) dvd unat sz" "unat (al_blockAlign a) dvd unat psz"
    "unat psz \<le> unat (al_capacity a)"
proof -
  have c: "settings_ok a" "unat (al_base a) + 2 * unat (al_capacity a) < 2 ^ 64"
    using ok by (simp_all add: alloc_ok_def settings_ok_def)
  note f = settings_facts[OF c(1)]
  note rb = round_up_bounds[OF f(4), of "unat n"] and rp = round_up_bounds[OF f(5), of "unat n"]
  show s: "unat sz = round_up (unat (al_blockAlign a)) (unat n)"
    unfolding sz_def by (rule align_block[OF c(1)]) (use n c(2) in simp)
  have le: "unat sz \<le> round_up (unat (al_pageAlign a)) (unat n)" unfolding s
    using rp f(2) by (intro round_up_least[OF f(4)]) (auto intro: dvd_trans)
  have cap: "2 * unat (al_capacity a) < 2 ^ 64" using c(2) by simp
  have "unat sz + unat (al_pageAlign a) \<le> 2 ^ 64" using le rp(2) n(2) cap by linarith
  then show p: "unat psz = round_up (unat (al_pageAlign a)) (unat n)"
    unfolding psz_def using align_page[OF c(1)] s round_up_twice[OF f(4,5,2)] by simp
  have pos: "0 < unat n" using n(1) by (simp add: unat_gt_0)
  then show "sz \<noteq> 0" using s rb(1) by auto
  show "psz \<noteq> 0" using pos p rp(1) by auto
  show "sz \<le> psz" using le p by (simp add: word_le_nat_alt)
  show "unat (al_blockAlign a) dvd unat sz" using s rb(3) by simp
  show "unat (al_blockAlign a) dvd unat psz" using p rp(3) f(2) by (auto intro: dvd_trans)
  show "unat psz \<le> unat (al_capacity a)" using p rp(2) n(2) by simp
qed

lemma allocate_cases:
  assumes ok: "alloc_ok a" and n: "n \<noteq> 0" "unat n + unat (al_pageAlign a) \<le> unat (al_capacity a)"
  obtains x a' where "al_allocate n a = Some (Some x, a')" "alloc_ok a'" "same_settings a a'"
      "live (al_pages a') = add_mset (x, alignSize n (ucast (al_blockAlign a))) (live (al_pages a))"
  | "al_allocate n a = Some (None, a)"
      "\<forall>p \<in> set (al_pages a). \<forall>b \<in> set (pg_freeS p). snd b < alignSize n (ucast (al_blockAlign a))"
      "\<forall>y \<ge> unat (al_base a). y + round_up (unat (al_pageAlign a)) (unat n) \<le> unat (al_base a) + unat (al_capacity a)
         \<longrightarrow> \<not> apart y (round_up (unat (al_pageAlign a)) (unat n)) (al_pages a)"
proof -
  let ?sz = "alignSize n (ucast (al_blockAlign a))"
  let ?psz = "alignSize ?sz (ucast (al_pageAlign a))"
  let ?m = "unat (al_blockAlign a)" and ?lo = "unat (al_base a)" and ?hi = "unat (al_base a) + unat (al_capacity a)"
  note z = request_sizes[OF ok n]
  have as: "align_assert (ucast (al_blockAlign a))" "align_assert (ucast (al_pageAlign a))"
    using settings_assert ok by (simp_all add: alloc_ok_def)
  have ps: "pages_ok ?m ?lo ?hi (al_pages a)" "\<forall>p \<in> set (al_pages a). pg_used p \<noteq> []" "?hi < 2 ^ 64"
    using ok by (auto simp: alloc_ok_def settings_ok_def)
  show thesis
  proof (cases "first_free ?sz (al_pages a)")
    case (Some ib)
    then obtain i b where ib: "first_free ?sz (al_pages a) = Some (i, b)" by (cases ib) simp
    note i = first_free_Some[OF ib]
    obtain K p J where KJ: "al_pages a = K @ p # J" "length K = i" "al_pages a ! i = p" using split_at[OF conjunct1[OF i]] by blast
    have f: "findFreeBlock ?sz p = Some b" using i KJ(3) by simp
    note q = place_alloc_ok[OF ok, of K p J ?sz b, OF _ _ _ f z(3,6)]
    show thesis
      by (rule that(1)[of "fst b" "place ?sz i b (al_pages a) a"])
        (use q ps KJ n ib as in \<open>simp_all add: al_allocate_def Let_def same_settings_def\<close>)
  next
    case None
    show thesis
    proof (cases "findNextAddress ?psz a")
      case (Some x)
      note x = findNextAddress_Some[OF ok z(8) Some]
      obtain K J where KJ: "createPage x ?psz (al_pages a) = (length K, K @ page_new x ?psz # J)" "al_pages a = K @ J"
        "pages_ok ?m ?lo ?hi (K @ page_new x ?psz # J)"
        using createPage_ok[OF ps(1) z(5,7) x(3,1,2) ps(3) x(4)] by blast
      note f = findFreeBlock_new[OF z(4), of x]
      note q = place_alloc_ok[OF ok, of K "page_new x ?psz" J ?sz "(x, ?psz)", OF _ _ KJ(3) f z(3,6)]
      show thesis
        by (rule that(1)[of x "place ?sz (length K) (x, ?psz) (K @ page_new x ?psz # J) a"])
          (use q ps KJ n None Some f as in \<open>simp_all add: al_allocate_def Let_def same_settings_def\<close>)
    next
      case no: None
      have "\<forall>p \<in> set (al_pages a). \<forall>b \<in> set (pg_freeS p). snd b < ?sz"
        using None ps(1) findFreeBlock_None unfolding first_free_None pages_ok_def by blast
      moreover have "al_allocate n a = Some (None, a)" using n None no as by (simp add: al_allocate_def Let_def)
      ultimately show thesis using findNextAddress_None[OF ok z(8) no] z(2) by (intro that(2)) simp_all
    qed
  qed
qed


lemma reserve_cases:
  assumes ok: "alloc_ok a" and n: "n \<noteq> 0" "unat x + unat n + unat (al_pageAlign a) \<le> 2 ^ 64"
    and x: "unat (al_base a) \<le> unat x" "unat (al_blockAlign a) dvd unat x"
  obtains a' where "al_reserve x n a = Some (True, a')" "alloc_ok a'" "same_settings a a'"
      "live (al_pages a') = add_mset (x, alignSize n (ucast (al_pageAlign a))) (live (al_pages a))"
  | "al_reserve x n a = Some (False, a)"
      "unat x + round_up (unat (al_pageAlign a)) (unat n) \<le> unat (al_base a) + unat (al_capacity a)
         \<longrightarrow> \<not> apart (unat x) (round_up (unat (al_pageAlign a)) (unat n)) (al_pages a)"
proof -
  let ?sz = "alignSize n (ucast (al_pageAlign a))"
  let ?m = "unat (al_blockAlign a)" and ?lo = "unat (al_base a)" and ?hi = "unat (al_base a) + unat (al_capacity a)"
  have c: "settings_ok a" "pages_ok ?m ?lo ?hi (al_pages a)" "\<forall>p \<in> set (al_pages a). pg_used p \<noteq> []" "?hi < 2 ^ 64"
    using ok by (auto simp: alloc_ok_def settings_ok_def)
  note f = settings_facts[OF c(1)] and as = settings_assert[OF c(1)]
  note r = round_up_bounds[OF f(5), of "unat n"]
  have s: "unat ?sz = round_up (unat (al_pageAlign a)) (unat n)" by (rule align_page[OF c(1)]) (use n(2) in simp)
  have "0 < unat n" using n(1) by (simp add: unat_gt_0)
  then have nz: "?sz \<noteq> 0" using s r(1) by auto
  have d: "?m dvd unat ?sz" using s r(3) f(2) by (auto intro: dvd_trans)
  have xs: "unat x + unat ?sz < 2 ^ 64" using s r(2) n(2) by simp
  have xe: "unat (x + ?sz) = unat x + unat ?sz" by (rule unat_plus_no_wrap) (use xs in simp)
  have hi: "unat (al_base a + al_capacity a) = ?hi" by (rule unat_plus_no_wrap) (use c(4) in simp)
  note ov = hasPageOverlap_iff[OF c(2) xs]
  show thesis
  proof (cases "unat x + unat ?sz \<le> ?hi \<and> apart (unat x) (unat ?sz) (al_pages a)")
    case True
    obtain K J where KJ: "createPage x ?sz (al_pages a) = (length K, K @ page_new x ?sz # J)" "al_pages a = K @ J"
      "pages_ok ?m ?lo ?hi (K @ page_new x ?sz # J)"
      using createPage_ok[OF c(2) nz d x(2,1) _ c(4)] True by blast
    note g = findFreeBlock_new[OF order.refl, of ?sz x]
    note q = place_alloc_ok[OF ok, of K "page_new x ?sz" J ?sz "(x, ?sz)", OF _ _ KJ(3) g nz d]
    show thesis
      by (rule that(1)[of "place ?sz (length K) (x, ?sz) (K @ page_new x ?sz # J) a"])
        (use q c KJ n True g ov xe hi as in \<open>simp_all add: al_reserve_def Let_def same_settings_def word_less_nat_alt\<close>)
  next
    case False
    then have "al_reserve x n a = Some (False, a)"
      using ov xe hi n(1) as by (auto simp: al_reserve_def Let_def word_less_nat_alt)
    then show thesis using False s by (intro that(2)) auto
  qed
qed

text \<open>The block that \<open>release\<close> finds is the live one with that address.\<close>

lemma first_used_live:
  assumes ps: "pages_ok m lo hi ps" and b: "b \<in># live ps"
  shows "\<exists>i c. first_used (fst b) ps = Some (i, c)"
proof -
  obtain p where p: "p \<in> set ps" "b \<in> set (pg_used p)" using b by (auto simp: live_def)
  have "page_ok m p" using ps p(1) by (simp add: pages_ok_def)
  then have "findUsedBlock (fst b) p \<noteq> None" using page_used(5) p(2) by blast
  then have "first_used (fst b) ps \<noteq> None" using p(1) first_used_None[of "fst b" ps] by metis
  then show ?thesis by auto
qed

lemma release_cases:
  assumes ok: "alloc_ok a"
  obtains b a' where "fst b = x" "b \<in># live (al_pages a)" "al_release x a = Some (True, a')" "alloc_ok a'" "same_settings a a'"
      "add_mset b (live (al_pages a')) = live (al_pages a)"
  | "al_release x a = Some (False, a)" "\<forall>b \<in># live (al_pages a). fst b \<noteq> x"
proof (cases "first_used x (al_pages a)")
  case None
  have "fst b \<noteq> x" if "b \<in># live (al_pages a)" for b
    using first_used_live[OF _ that] None ok by (auto simp: alloc_ok_def)
  then show thesis using None by (intro that(2)) (simp_all add: al_release_def)
next
  case (Some ib)
  then obtain i b where ib: "first_used x (al_pages a) = Some (i, b)" by (cases ib) simp
  note i = first_used_Some[OF ib]
  obtain K p J where KJ: "al_pages a = K @ p # J" "length K = i" "al_pages a ! i = p" using split_at[OF conjunct1[OF i]] by blast
  have b: "b \<in> set (pg_used p)" "fst b = x" using i KJ(3) findUsedBlock_Some[of x p b] by simp_all
  let ?m = "unat (al_blockAlign a)" and ?lo = "unat (al_base a)" and ?hi = "unat (al_base a) + unat (al_capacity a)"
  have c: "settings_ok a" "pages_ok ?m ?lo ?hi (K @ p # J)" "\<forall>p \<in> set (K @ p # J). pg_used p \<noteq> []"
    "al_allocated a = (\<Sum>b \<in># live (K @ p # J). snd b)"
    using ok KJ(1) by (simp_all add: alloc_ok_def)
  have p: "page_ok ?m p" using c(2) by (simp add: pages_ok_split)
  let ?q = "page_release b p"
  note q = page_release_ok[OF p b(1)]
  let ?ps = "if page_empty ?q then K @ J else K @ ?q # J"
  let ?a = "a\<lparr>al_pages := ?ps, al_allocated := al_allocated a - snd b\<rparr>"
  have l: "add_mset b (live ?ps) = live (al_pages a)" using q(2) KJ(1) by (auto simp: page_empty_def)
  have "pages_ok ?m ?lo ?hi (K @ ?q # J)" by (rule pages_ok_update[OF c(2) q(1)]) simp_all
  then have ok': "pages_ok ?m ?lo ?hi ?ps" by (auto simp: pages_ok_split)
  have "al_allocated a = snd b + (\<Sum>b \<in># live ?ps. snd b)"
    using c(4) l[symmetric] KJ(1) by (metis image_mset_add_mset sum_mset.add_mset)
  then have "alloc_ok ?a" using ok' c(1,3) settings_frame[OF c(1), of ?a]
    by (auto simp: alloc_ok_def page_empty_def)
  moreover have "al_release x a = Some (True, ?a)"
    using ib KJ(1,3) page_delete_fine[OF q(1)]
    by (simp add: al_release_def Let_def deletePage_def KJ(2)[symmetric])
  ultimately show thesis using b KJ(1) l by (intro that(1)[of b ?a]) (auto simp: same_settings_def)
qed

text \<open>The destructor: releasing what is in use empties a page.\<close>

lemma release_fold_ok:
  "page_ok m p \<Longrightarrow> mset bs \<subseteq># mset (pg_used p) \<Longrightarrow>
     page_ok m (fold page_release bs p) \<and> mset (pg_used (fold page_release bs p)) = mset (pg_used p) - mset bs"
proof (induction bs arbitrary: p)
  case (Cons b bs)
  have b: "b \<in> set (pg_used p)" using mset_subset_eqD[OF Cons.prems(2), of b] by simp
  note r = page_release_ok[OF Cons.prems(1) b]
  have "mset bs \<subseteq># mset (pg_used (page_release b p))" using Cons.prems(2) by (simp flip: r(2))
  then show ?case using Cons.IH[OF r(1)] by (simp flip: r(2))
qed simp

lemma destructor_fine:
  assumes "alloc_ok a"
  shows "allocator_delete_ok True a" "allocator_delete_ok False a \<longleftrightarrow> al_pages a = []"
proof -
  have ok: "page_ok (unat (al_blockAlign a)) p" "pg_used p \<noteq> []" if "p \<in> set (al_pages a)" for p
    using assms that by (simp_all add: alloc_ok_def pages_ok_def)
  have "page_delete_ok (release_used p)" if "p \<in> set (al_pages a)" for p
    using release_fold_ok[OF ok(1)[OF that], of "pg_used p"] page_delete_fine[of "unat (al_blockAlign a)" "release_used p"]
    by (simp add: release_used_def page_empty_def)
  then show "allocator_delete_ok True a" by (simp add: allocator_delete_ok_def list_all_iff)
  show "allocator_delete_ok False a \<longleftrightarrow> al_pages a = []"
    using ok(2) by (cases "al_pages a") (auto simp: allocator_delete_ok_def page_delete_ok_def)
qed

section \<open>Histories of requests\<close>

datatype request = Alloc u64 | Reserve u64 u64 | Release u64

datatype reply = Address "u64 option" | Done bool

definition serve :: "request \<Rightarrow> allocator \<Rightarrow> (reply \<times> allocator) option" where
  "serve r a =
     (case r of
        Alloc n \<Rightarrow> map_option (map_prod Address id) (al_allocate n a)
      | Reserve x n \<Rightarrow> map_option (map_prod Done id) (al_reserve x n a)
      | Release x \<Rightarrow> map_option (map_prod Done id) (al_release x a))"

fun run_requests :: "(request \<Rightarrow> 's \<Rightarrow> (reply \<times> 's) option) \<Rightarrow> request list \<Rightarrow> 's \<Rightarrow> (reply list \<times> 's) option" where
  "run_requests f [] s = Some ([], s)"
| "run_requests f (r # rs) s =
     do {
       (y, t) \<leftarrow> f r s;
       (ys, u) \<leftarrow> run_requests f rs t;
       Some (y # ys, u)
     }"

text \<open>
  The contract of an allocator: a reply says how the multiset of live blocks changes.  A block handed out is
  at least as large as was asked; a release takes away the block with that address, and fails only when
  there is none.
\<close>

fun answer :: "request \<Rightarrow> reply \<Rightarrow> block multiset \<Rightarrow> block multiset \<Rightarrow> bool" where
  "answer (Alloc n) (Address None) L L' \<longleftrightarrow> L' = L"
| "answer (Alloc n) (Address (Some x)) L L' \<longleftrightarrow> (\<exists>k \<ge> n. L' = add_mset (x, k) L)"
| "answer (Reserve x n) (Done True) L L' \<longleftrightarrow> (\<exists>k \<ge> n. L' = add_mset (x, k) L)"
| "answer (Reserve x n) (Done False) L L' \<longleftrightarrow> L' = L"
| "answer (Release x) (Done True) L L' \<longleftrightarrow> (\<exists>k. L = add_mset (x, k) L')"
| "answer (Release x) (Done False) L L' \<longleftrightarrow> L' = L \<and> (\<forall>b \<in># L. fst b \<noteq> x)"
| "answer _ _ L L' \<longleftrightarrow> False"

lemma answer_keeps: "answer r y L L' \<Longrightarrow> b \<in># L \<Longrightarrow> r \<noteq> Release (fst b) \<Longrightarrow> b \<in># L'"
  by (cases "(r, y, L, L')" rule: answer.cases) auto

locale block_allocator =
  fixes good :: "'s \<Rightarrow> bool"
    and blocks :: "'s \<Rightarrow> block multiset"
    and admits :: "'s \<Rightarrow> request \<Rightarrow> bool"
    and srv :: "request \<Rightarrow> 's \<Rightarrow> (reply \<times> 's) option"
  assumes answers: "good s \<Longrightarrow> admits s r \<Longrightarrow> \<exists>y t. srv r s = Some (y, t) \<and> good t \<and> admits t = admits s
      \<and> answer r y (blocks s) (blocks t)"
    and good_separated: "good s \<Longrightarrow> separated (blocks s)"
begin

lemma served: "good s \<Longrightarrow> admits s r \<Longrightarrow> srv r s = Some (y, t) \<Longrightarrow> good t \<and> admits t = admits s \<and> answer r y (blocks s) (blocks t)"
  using answers[of s r] by auto

lemma history: "good s \<Longrightarrow> list_all (admits s) rs \<Longrightarrow> \<exists>ys t. run_requests srv rs s = Some (ys, t) \<and> good t \<and> admits t = admits s"
proof (induction rs arbitrary: s)
  case (Cons r rs)
  obtain y t where t: "srv r s = Some (y, t)" "good t" "admits t = admits s" using answers[of s r] Cons.prems by auto
  then show ?case using Cons.IH[of t] Cons.prems by auto
qed simp

lemma history_keeps:
  "good s \<Longrightarrow> list_all (admits s) rs \<Longrightarrow> run_requests srv rs s = Some (ys, t) \<Longrightarrow> b \<in># blocks s \<Longrightarrow> Release (fst b) \<notin> set rs
    \<Longrightarrow> b \<in># blocks t"
proof (induction rs arbitrary: s ys)
  case (Cons r rs)
  obtain y u where u: "srv r s = Some (y, u)" "good u" "admits u = admits s" "answer r y (blocks s) (blocks u)"
    using answers[of s r] Cons.prems(1,2) by auto
  obtain zs where "run_requests srv rs u = Some (zs, t)" using Cons.prems(3) u(1) by (auto split: bind_splits)
  moreover have "b \<in># blocks u" using answer_keeps[OF u(4) Cons.prems(4)] Cons.prems(5) by auto
  ultimately show ?case using Cons.IH[of u zs] u Cons.prems(2,5) by auto
qed simp

text \<open>A block stays where it is until it is released, and nothing handed out meanwhile overlaps it.\<close>

lemma no_overlap:
  assumes s: "good s" "list_all (admits s) (Alloc n # rs @ [Alloc m])"
    and r: "srv (Alloc n) s = Some (Address (Some x), t)" "run_requests srv rs t = Some (ys, u)" "Release x \<notin> set rs"
      "srv (Alloc m) u = Some (Address (Some z), v)"
  shows "\<exists>k l. n \<le> k \<and> m \<le> l \<and> (x, k) \<in># blocks u \<and> blocks v = add_mset (z, l) (blocks u)
    \<and> (unat x + unat k \<le> unat z \<or> unat z + unat l \<le> unat x)"
proof -
  have t: "good t" "admits t = admits s" "answer (Alloc n) (Address (Some x)) (blocks s) (blocks t)" using served[OF s(1) _ r(1)] s(2) by auto
  then obtain k where k: "n \<le> k" "blocks t = add_mset (x, k) (blocks s)" by auto
  have u: "good u" "admits u = admits s" using history[OF t(1), of rs] t(2) s(2) r(2) by auto
  have b: "(x, k) \<in># blocks u" by (rule history_keeps[OF t(1) _ r(2)]) (use k(2) t(2) s(2) r(3) in auto)
  have v: "good v" "answer (Alloc m) (Address (Some z)) (blocks u) (blocks v)" using served[OF u(1) _ r(4)] s(2) u(2) by auto
  then obtain l where l: "m \<le> l" "blocks v = add_mset (z, l) (blocks u)" by auto
  have "disjoint (z, l) (x, k)" using good_separated[OF v(1)] b l(2) by (auto intro: separated_add)
  then have "unat x + unat k \<le> unat z \<or> unat z + unat l \<le> unat x" by (auto simp: disjoint_def)
  then show ?thesis using k(1) l b by blast
qed

end

text \<open>
  The requests the allocator of the code answers correctly: an allocation that fits the capacity with its
  rounding, and a reservation at an aligned address not below the base that does not wrap.
\<close>

fun admitted :: "allocator \<Rightarrow> request \<Rightarrow> bool" where
  "admitted a (Alloc n) \<longleftrightarrow> unat n + unat (al_pageAlign a) \<le> unat (al_capacity a)"
| "admitted a (Reserve x n) \<longleftrightarrow> unat (al_base a) \<le> unat x \<and> unat x mod unat (al_blockAlign a) = 0
     \<and> unat x + unat n + unat (al_pageAlign a) \<le> 2 ^ 64"
| "admitted a (Release x) \<longleftrightarrow> True"

lemma admitted_same: "same_settings a a' \<Longrightarrow> admitted a' = admitted a"
proof
  fix r assume "same_settings a a'"
  then show "admitted a' r = admitted a r" by (cases r) (simp_all add: same_settings_def)
qed

lemma answers_alloc:
  assumes "alloc_ok a" "admitted a (Alloc n)"
  shows "\<exists>y a'. serve (Alloc n) a = Some (y, a') \<and> alloc_ok a' \<and> admitted a' = admitted a
    \<and> answer (Alloc n) y (live (al_pages a)) (live (al_pages a'))"
proof (cases "n = 0")
  case True
  then show ?thesis using assms by (simp add: serve_def al_allocate_def)
next
  case False
  have n: "unat n + unat (al_pageAlign a) \<le> unat (al_capacity a)" using assms(2) by simp
  have le: "n \<le> alignSize n (ucast (al_blockAlign a))"
    using request_sizes(1)[OF assms(1) False n] round_up_bounds(1)[of "unat (al_blockAlign a)" "unat n"]
      settings_facts(4)[of a] assms(1) by (simp add: word_le_nat_alt alloc_ok_def)
  show ?thesis
    by (rule allocate_cases[OF assms(1) False n]) (use le assms(1) admitted_same in \<open>auto simp: serve_def\<close>)
qed

lemma answers_reserve:
  assumes "alloc_ok a" "admitted a (Reserve x n)"
  shows "\<exists>y a'. serve (Reserve x n) a = Some (y, a') \<and> alloc_ok a' \<and> admitted a' = admitted a
    \<and> answer (Reserve x n) y (live (al_pages a)) (live (al_pages a'))"
proof (cases "n = 0")
  case True
  then show ?thesis using assms by (simp add: serve_def al_reserve_def)
next
  case False
  have n: "unat x + unat n + unat (al_pageAlign a) \<le> 2 ^ 64" "unat (al_base a) \<le> unat x" "unat (al_blockAlign a) dvd unat x"
    using assms(2) by (auto simp: dvd_eq_mod_eq_0)
  have le: "n \<le> alignSize n (ucast (al_pageAlign a))"
    using align_page[of a n] round_up_bounds(1)[of "unat (al_pageAlign a)" "unat n"] n(1)
      settings_facts(5)[of a] assms(1) by (simp add: word_le_nat_alt alloc_ok_def)
  show ?thesis
    by (rule reserve_cases[OF assms(1) False n]) (use le assms(1) admitted_same in \<open>auto simp: serve_def\<close>)
qed

lemma answers_release:
  assumes "alloc_ok a"
  shows "\<exists>y a'. serve (Release x) a = Some (y, a') \<and> alloc_ok a' \<and> admitted a' = admitted a
    \<and> answer (Release x) y (live (al_pages a)) (live (al_pages a'))"
proof (rule release_cases[OF assms, of x])
  fix b a' assume "fst b = x" "b \<in># live (al_pages a)" "al_release x a = Some (True, a')" "alloc_ok a'" "same_settings a a'"
    "add_mset b (live (al_pages a')) = live (al_pages a)"
  moreover from this have "live (al_pages a) = add_mset (x, snd b) (live (al_pages a'))" by (cases b) auto
  ultimately show ?thesis using admitted_same by (auto simp: serve_def)
qed (use assms in \<open>auto simp: serve_def\<close>)

interpretation ma: block_allocator alloc_ok "\<lambda>a. live (al_pages a)" admitted serve
proof
  fix a r assume "alloc_ok a" "admitted a r"
  then show "\<exists>y t. serve r a = Some (y, t) \<and> alloc_ok t \<and> admitted t = admitted a
      \<and> answer r y (live (al_pages a)) (live (al_pages t))"
    using answers_alloc answers_reserve answers_release by (cases r) blast+
next
  fix a assume "alloc_ok a"
  then show "separated (live (al_pages a))" using separated_pages by (auto simp: alloc_ok_def)
qed


lemma serve_settings: "serve r a = Some (y, a') \<Longrightarrow> same_settings a a'"
  by (auto simp: serve_def al_allocate_def al_reserve_def al_release_def Let_def place_def same_settings_def
      split: request.splits option.splits if_splits prod.splits bind_splits)

lemma run_settings: "run_requests serve rs a = Some (ys, a') \<Longrightarrow> same_settings a a'"
proof (induction rs arbitrary: a ys)
  case (Cons r rs)
  then obtain y b zs where "serve r a = Some (y, b)" "run_requests serve rs b = Some (zs, a')" by (auto split: bind_splits)
  then show ?case using serve_settings[of r a y b] Cons.IH[of b zs] by (simp add: same_settings_def)
qed (simp add: same_settings_def)

lemma requests_settings:
  "alloc_ok a \<Longrightarrow> list_all (admitted a) rs \<Longrightarrow> \<exists>ys b. run_requests serve rs a = Some (ys, b) \<and> alloc_ok b \<and> same_settings a b"
  using ma.history[of a rs] run_settings[of rs a] by blast

lemma allocator_new_ok: "settings_ok (allocator_new base cap pa ba) \<Longrightarrow> alloc_ok (allocator_new base cap pa ba)"
  by (simp add: alloc_ok_def allocator_new_def pages_ok_def)

text \<open>
  C22.  Take an allocator whose alignments are powers of two and whose range does not come near the end of the
  address space, and any history of releases, of allocations that fit the capacity together with a page of
  rounding, and of reservations at aligned addresses not below the base that do not wrap around.  The history is
  answered without a null dereference or a failed assertion.  At its end the live blocks do not overlap, lie within
  the managed range and are aligned, every page has a used block, and \<open>free\<close> is the capacity less the sizes of
  the live blocks.  The destructor built with virtual memory releases what is live and finds every page empty;
  built without, its assertion holds exactly when no block is live.
\<close>

theorem allocator_histories:
  assumes "settings_ok (allocator_new base cap pa ba)" "list_all (admitted (allocator_new base cap pa ba)) rs"
  shows "\<exists>ys a. run_requests serve rs (allocator_new base cap pa ba) = Some (ys, a)
    \<and> separated (live (al_pages a))
    \<and> (\<forall>b \<in># live (al_pages a). unat base \<le> unat (fst b) \<and> unat (fst b) + unat (snd b) \<le> unat base + unat cap
         \<and> snd b \<noteq> 0 \<and> unat (fst b) mod unat ba = 0)
    \<and> list_all (\<lambda>p. \<not> page_empty p) (al_pages a)
    \<and> unat (al_free a) = unat cap - (\<Sum>b \<in># live (al_pages a). unat (snd b))
    \<and> allocator_delete_ok True a \<and> (allocator_delete_ok False a \<longleftrightarrow> live (al_pages a) = {#})"
proof -
  let ?a = "allocator_new base cap pa ba"
  obtain ys a where a: "run_requests serve rs ?a = Some (ys, a)" "alloc_ok a" "same_settings ?a a"
    using requests_settings[OF allocator_new_ok[OF assms(1)] assms(2)] by blast
  have s: "al_base a = base" "al_capacity a = cap" "al_blockAlign a = ba" using a(3) by (simp_all add: same_settings_def allocator_new_def)
  have p: "pages_ok (unat ba) (unat base) (unat base + unat cap) (al_pages a)" "\<forall>p \<in> set (al_pages a). pg_used p \<noteq> []"
    using a(2) by (simp_all add: alloc_ok_def s)
  have "unat (al_free a) = unat cap - unat (al_allocated a)"
    using allocated_sum(2)[OF a(2)] by (simp add: al_free_def s unat_sub word_le_nat_alt)
  moreover have "allocator_delete_ok False a \<longleftrightarrow> live (al_pages a) = {#}"
    using destructor_fine(2)[OF a(2)] p(2) by (cases "al_pages a") auto
  ultimately show ?thesis
    using a(1) ma.good_separated[OF a(2)] live_bounds[OF p(1)] p(2) allocated_sum(1)[OF a(2)] destructor_fine(1)[OF a(2)]
    by (auto simp: list_all_iff page_empty_def mod_eq_0_iff_dvd)
qed


text \<open>A small memory: three pages of 4096 bytes at 4096, blocks of 64 bytes.\<close>

definition small_memory :: allocator where
  "small_memory = allocator_new 4096 12288 4096 64"

lemma small_memory_ok: "settings_ok (allocator_new 4096 12288 4096 64)"
  unfolding settings_ok_def by (intro conjI, rule exI[of _ 6], rule exI[of _ 12]) (simp_all add: allocator_new_def)

theorem allocator_histories_witness:
  "\<exists>ys a. run_requests serve [Alloc 100, Alloc 4096, Release 4096, Reserve 8192 1] small_memory = Some (ys, a)
    \<and> separated (live (al_pages a)) \<and> allocator_delete_ok True a"
  using allocator_histories[OF small_memory_ok, of "[Alloc 100, Alloc 4096, Release 4096, Reserve 8192 1]"]
  unfolding small_memory_def by (simp add: allocator_new_def) blast

text \<open>
  C23.  Among releases, allocations that fit the capacity together with a page of rounding, and reservations at
  aligned addresses not below the base that do not wrap around, a block that the allocator has handed out, of at
  least the size asked for, stays live and in place until it is released, and a block handed out before that does
  not overlap it.
\<close>

theorem allocations_never_overlap:
  assumes "settings_ok (allocator_new base cap pa ba)"
    and "list_all (admitted (allocator_new base cap pa ba)) (rs @ Alloc n # qs @ [Alloc m])"
    and "run_requests serve rs (allocator_new base cap pa ba) = Some (ys, a)" "al_allocate n a = Some (Some x, b)"
    and "run_requests serve qs b = Some (zs, c)" "Release x \<notin> set qs" "al_allocate m c = Some (Some z, d)"
  shows "\<exists>k l. n \<le> k \<and> m \<le> l \<and> (x, k) \<in># live (al_pages c) \<and> live (al_pages d) = add_mset (z, l) (live (al_pages c))
    \<and> (unat x + unat k \<le> unat z \<or> unat z + unat l \<le> unat x)"
proof -
  have a: "alloc_ok a" "admitted a = admitted (allocator_new base cap pa ba)"
    using requests_settings[OF allocator_new_ok[OF assms(1)], of rs] admitted_same assms(2,3) by auto
  show ?thesis
    by (rule ma.no_overlap[OF a(1), of n qs m x b zs c z d]) (use assms(2,4-7) a(2) in \<open>simp_all add: serve_def\<close>)
qed

theorem allocations_never_overlap_witness:
  "\<exists>b d k l. al_allocate 100 small_memory = Some (Some 4096, b) \<and> al_allocate 50 b = Some (Some 4224, d)
    \<and> 100 \<le> k \<and> 50 \<le> l \<and> (4096, k) \<in># live (al_pages b) \<and> live (al_pages d) = add_mset (4224, l) (live (al_pages b))
    \<and> (4096 + unat k \<le> 4224 \<or> 4224 + unat l \<le> 4096)"
proof -
  let ?b = "snd (the (al_allocate 100 small_memory))"
  let ?d = "snd (the (al_allocate 50 ?b))"
  have 1: "al_allocate 100 small_memory = Some (Some 4096, ?b)" by code_simp
  have 2: "al_allocate 50 ?b = Some (Some 4224, ?d)" by code_simp
  have "\<exists>k l. 100 \<le> k \<and> 50 \<le> l \<and> (4096, k) \<in># live (al_pages ?b) \<and> live (al_pages ?d) = add_mset (4224, l) (live (al_pages ?b))
      \<and> (unat (4096 :: u64) + unat k \<le> unat (4224 :: u64) \<or> unat (4224 :: u64) + unat l \<le> unat (4096 :: u64))"
    by (rule allocations_never_overlap[OF small_memory_ok, of "[]" 100 "[]" 50 "[]" small_memory 4096 ?b "[]" ?b 4224 ?d])
      (use 1 2 in \<open>simp_all add: small_memory_def allocator_new_def\<close>)
  then show ?thesis using 1 2 by (elim exE) (intro exI[of _ ?b] exI[of _ ?d], auto)
qed

text \<open>
  C24.  An allocation fails only for want of room.  After a history of releases, allocations that fit the capacity
  together with a page of rounding, and reservations at aligned addresses not below the base that do not wrap
  around, and for such an allocation: if a page has a free block of the rounded size, or the range has
  an address where a page of the rounded size would overlap no other, \<open>allocate\<close> hands out a block.
\<close>

theorem allocate_finds_room:
  assumes "settings_ok (allocator_new base cap pa ba)"
    and "list_all (admitted (allocator_new base cap pa ba)) (rs @ [Alloc n])" "n \<noteq> 0"
    and "run_requests serve rs (allocator_new base cap pa ba) = Some (ys, a)"
    and "list_ex (\<lambda>p. list_ex (\<lambda>b. round_up (unat ba) (unat n) \<le> unat (snd b)) (pg_freeS p)) (al_pages a)
      \<or> unat base \<le> y \<and> y + round_up (unat pa) (unat n) \<le> unat base + unat cap \<and> apart y (round_up (unat pa) (unat n)) (al_pages a)"
  shows "\<exists>x b. al_allocate n a = Some (Some x, b)"
proof -
  obtain zs a' where "run_requests serve rs (allocator_new base cap pa ba) = Some (zs, a')" "alloc_ok a'"
    "same_settings (allocator_new base cap pa ba) a'"
    using requests_settings[OF allocator_new_ok[OF assms(1)], of rs] assms(2) by auto
  then have a: "alloc_ok a" "same_settings (allocator_new base cap pa ba) a" using assms(4) by simp_all
  have s: "al_base a = base" "al_capacity a = cap" "al_blockAlign a = ba" "al_pageAlign a = pa"
    using a(2) by (simp_all add: same_settings_def allocator_new_def)
  have n: "unat n + unat (al_pageAlign a) \<le> unat (al_capacity a)" using assms(2) s by (simp add: allocator_new_def)
  note z = request_sizes(1)[OF a(1) assms(3) n, unfolded s]
  have room: "(\<exists>p \<in> set (al_pages a). \<exists>b \<in> set (pg_freeS p). \<not> snd b < alignSize n (ucast (al_blockAlign a)))
      \<or> unat (al_base a) \<le> y \<and> y + round_up (unat (al_pageAlign a)) (unat n) \<le> unat (al_base a) + unat (al_capacity a)
        \<and> apart y (round_up (unat (al_pageAlign a)) (unat n)) (al_pages a)"
    using assms(5) by (simp add: list_ex_iff word_less_nat_alt not_less z s)
  show ?thesis by (rule allocate_cases[OF a(1) assms(3) n]) (use room in blast)+
qed


theorem allocate_finds_room_witness:
  "\<exists>x b. al_allocate 200 (snd (the (run_requests serve [Alloc 100, Alloc 8192, Release 4096] small_memory))) = Some (Some x, b)"
proof -
  let ?rs = "[Alloc 100, Alloc 8192, Release 4096]"
  let ?r = "the (run_requests serve ?rs small_memory)"
  have 1: "run_requests serve ?rs small_memory = Some (fst ?r, snd ?r)" by code_simp
  have 2: "list_all (admitted small_memory) (?rs @ [Alloc 200])" by (simp add: small_memory_def allocator_new_def)
  have "al_pages (snd ?r) = [\<lparr>pg_addr = 8192, pg_size = 8192, pg_used = [(8192, 8192)], pg_freeS = [], pg_freeM = []\<rparr>]" by code_simp
  then have 3: "apart 4096 (round_up (unat (4096 :: u32)) (unat (200 :: u64))) (al_pages (snd ?r))"
    by (simp add: apart_def round_up_def page_end_def)
  have "unat (4096 :: u64) \<le> 4096 \<and> 4096 + round_up (unat (4096 :: u32)) (unat (200 :: u64)) \<le> unat (4096 :: u64) + unat (12288 :: u64)"
    by (simp add: round_up_def)
  then show ?thesis using 3
    by (intro allocate_finds_room[OF small_memory_ok, folded small_memory_def, OF 2 _ 1]) auto
qed

end
