(* ===== verification/Scoreboard.thy ===== *)
theory Scoreboard
  imports Prelude "HOL-Library.AList" "HOL-Library.Monad_Syntax"
begin

text \<open>
  The scoreboard of a core, \<open>src/vortex/sim/simx/scoreboard.cpp\<close>: the registers that instructions in flight will
  write.  The hash maps are association lists; a failed assertion, a \<open>std::bitset\<close> access outside or an \<open>at\<close>
  of an absent key is \<open>None\<close>.  Whether a trace is suspended is a flag of the trace object that other units
  change; it is an argument where it is read.
\<close>

unbundle bit_operations_syntax

section \<open>State\<close>

datatype reg_type = RT_None | RT_Integer | RT_Float

fun reg_type_int :: "reg_type \<Rightarrow> nat" where
  "reg_type_int RT_None = 0"
| "reg_type_int RT_Integer = 1"
| "reg_type_int RT_Float = 2"

record reg_opd =
  opd_type :: reg_type
  opd_idx :: u32

definition opd_id :: "reg_opd \<Rightarrow> u32" where
  "opd_id r = (if opd_type r = RT_None then 0 else push_bit 5 (of_nat (reg_type_int (opd_type r) - 1)) OR opd_idx r)"

text \<open>The fields of \<open>instr_trace_t\<close> the scoreboard reads.\<close>

record strace =
  tr_uuid :: u64
  tr_wid :: u32
  tr_wb :: bool
  tr_dst :: reg_opd
  tr_srcs :: "reg_opd list"
  tr_num_pkts :: u32

record scoreboard =
  in_use_regs :: "nat set list list"
  sb_owners :: "(u32 \<times> strace) list"
  commit_counts :: "(u32 \<times> u32) list"
  pending_reserve :: "(u32 \<times> strace) list"

definition get_reg_id :: "reg_opd \<Rightarrow> u32 \<Rightarrow> u32" where
  "get_reg_id r wid = push_bit 7 wid OR opd_id r"

definition scoreboard_reset :: "nat \<Rightarrow> scoreboard" where
  "scoreboard_reset num_warps =
     \<lparr>in_use_regs = replicate num_warps (replicate 3 {}), sb_owners = [], commit_counts = [], pending_reserve = []\<rparr>"

section \<open>Operations\<close>

definition reg_mask :: "scoreboard \<Rightarrow> u32 \<Rightarrow> reg_opd \<Rightarrow> nat set option" where
  "reg_mask sb wid r = do { ws \<leftarrow> vec_get (in_use_regs sb) (unat wid); vec_get ws (reg_type_int (opd_type r)) }"

definition test_reg :: "scoreboard \<Rightarrow> u32 \<Rightarrow> reg_opd \<Rightarrow> bool option" where
  "test_reg sb wid r = do { m \<leftarrow> reg_mask sb wid r; if unat (opd_idx r) < 32 then Some (unat (opd_idx r) \<in> m) else None }"

definition assign_reg :: "bool \<Rightarrow> u32 \<Rightarrow> reg_opd \<Rightarrow> scoreboard \<Rightarrow> scoreboard option" where
  "assign_reg v wid r sb =
     do {
       ws \<leftarrow> vec_get (in_use_regs sb) (unat wid);
       m \<leftarrow> vec_get ws (reg_type_int (opd_type r));
       if unat (opd_idx r) < 32 then
         let m1 = (if v then insert (unat (opd_idx r)) m else m - {unat (opd_idx r)})
         in Some (sb\<lparr>in_use_regs := (in_use_regs sb)[unat wid := ws[reg_type_int (opd_type r) := m1]]\<rparr>)
       else None
     }"

fun any_used :: "scoreboard \<Rightarrow> u32 \<Rightarrow> reg_opd list \<Rightarrow> bool option" where
  "any_used sb wid [] = Some False"
| "any_used sb wid (r # rs) =
     (if opd_type r = RT_None then any_used sb wid rs
      else do { u \<leftarrow> test_reg sb wid r; if u then Some True else any_used sb wid rs })"

definition sb_in_use :: "scoreboard \<Rightarrow> strace \<Rightarrow> bool option" where
  "sb_in_use sb t =
     do {
       d \<leftarrow> (if tr_wb t then (if opd_type (tr_dst t) = RT_None then None else test_reg sb (tr_wid t) (tr_dst t))
             else Some False);
       if d then Some True else any_used sb (tr_wid t) (tr_srcs t)
     }"

definition use_entry :: "scoreboard \<Rightarrow> u32 \<Rightarrow> reg_opd \<Rightarrow> (reg_opd \<times> u64) list option" where
  "use_entry sb wid r =
     do {
       u \<leftarrow> test_reg sb wid r;
       if u then do { owner \<leftarrow> map_of (sb_owners sb) (get_reg_id r wid); Some [(r, tr_uuid owner)] } else Some []
     }"

fun src_uses :: "scoreboard \<Rightarrow> u32 \<Rightarrow> reg_opd list \<Rightarrow> (reg_opd \<times> u64) list option" where
  "src_uses sb wid [] = Some []"
| "src_uses sb wid (r # rs) =
     (if opd_type r = RT_None then src_uses sb wid rs
      else do { e \<leftarrow> use_entry sb wid r; es \<leftarrow> src_uses sb wid rs; Some (e @ es) })"

definition get_uses :: "scoreboard \<Rightarrow> strace \<Rightarrow> (reg_opd \<times> u64) list option" where
  "get_uses sb t =
     do {
       d \<leftarrow> (if tr_wb t then (if opd_type (tr_dst t) = RT_None then None else use_entry sb (tr_wid t) (tr_dst t))
             else Some []);
       s \<leftarrow> src_uses sb (tr_wid t) (tr_srcs t);
       Some (d @ s)
     }"

definition sb_reserve :: "strace \<Rightarrow> scoreboard \<Rightarrow> scoreboard option" where
  "sb_reserve t sb =
     (let reg_id = get_reg_id (tr_dst t) (tr_wid t)
      in if \<not> tr_wb t then None
         else do {
           sb1 \<leftarrow> assign_reg True (tr_wid t) (tr_dst t) sb;
           if map_of (sb_owners sb1) reg_id \<noteq> None then None
           else Some (sb1\<lparr>sb_owners := AList.update reg_id t (sb_owners sb1)\<rparr>)
         })"

definition sb_release :: "strace \<Rightarrow> scoreboard \<Rightarrow> scoreboard option" where
  "sb_release t sb =
     (let reg_id = get_reg_id (tr_dst t) (tr_wid t)
      in if \<not> tr_wb t then None
         else do {
           u \<leftarrow> test_reg sb (tr_wid t) (tr_dst t);
           if \<not> u \<or> map_of (sb_owners sb) reg_id = None then None
           else
             let sb1 = sb\<lparr>sb_owners := AList.delete reg_id (sb_owners sb), commit_counts := AList.delete reg_id (commit_counts sb)\<rparr>
             in case map_of (pending_reserve sb) reg_id of
                  Some p \<Rightarrow> Some (sb1\<lparr>sb_owners := AList.update reg_id p (sb_owners sb1),
                                      pending_reserve := AList.delete reg_id (pending_reserve sb)\<rparr>)
                | None \<Rightarrow> assign_reg False (tr_wid t) (tr_dst t) sb1
         })"

text \<open>
  The reservations of suspended traces of a warp are lifted one after the other and given back later; one whose
  register has an owner by then waits for that owner.
\<close>

fun lift_all :: "(u32 \<times> strace) list \<Rightarrow> scoreboard \<Rightarrow> scoreboard option" where
  "lift_all [] sb = Some sb"
| "lift_all ((reg_id, t) # ts) sb =
     do {
       sb1 \<leftarrow> assign_reg False (tr_wid t) (tr_dst t) sb;
       lift_all ts (sb1\<lparr>sb_owners := AList.delete reg_id (sb_owners sb1), commit_counts := AList.delete reg_id (commit_counts sb1)\<rparr>)
     }"

definition snapshot_warp :: "(strace \<Rightarrow> bool) \<Rightarrow> u32 \<Rightarrow> scoreboard \<Rightarrow> (strace list \<times> scoreboard) option" where
  "snapshot_warp suspended wid sb =
     (let ts = filter (\<lambda>(reg_id, t). tr_wid t = wid \<and> suspended t) (sb_owners sb)
      in map_option (Pair (map snd ts)) (lift_all ts sb))"

fun restore_warp :: "strace list \<Rightarrow> scoreboard \<Rightarrow> scoreboard option" where
  "restore_warp [] sb = Some sb"
| "restore_warp (t # ts) sb =
     (let reg_id = get_reg_id (tr_dst t) (tr_wid t)
      in if map_of (sb_owners sb) reg_id = None then
           do {
             sb1 \<leftarrow> assign_reg True (tr_wid t) (tr_dst t) sb;
             restore_warp ts (sb1\<lparr>sb_owners := AList.update reg_id t (sb_owners sb1)\<rparr>)
           }
         else restore_warp ts (sb\<lparr>pending_reserve := AList.update reg_id t (pending_reserve sb)\<rparr>))"

definition commit_packet :: "strace \<Rightarrow> scoreboard \<Rightarrow> bool \<times> scoreboard" where
  "commit_packet t sb =
     (let reg_id = get_reg_id (tr_dst t) (tr_wid t);
          n = (case map_of (commit_counts sb) reg_id of None \<Rightarrow> 0 | Some c \<Rightarrow> c) + 1
      in (n \<ge> tr_num_pkts t, sb\<lparr>commit_counts := AList.update reg_id n (commit_counts sb)\<rparr>))"

text \<open>The commit stage: a packet with a destination is counted, and the last one releases the register.\<close>

definition commit_trace :: "strace \<Rightarrow> scoreboard \<Rightarrow> scoreboard option" where
  "commit_trace t sb =
     (if tr_wb t then (let (last_one, sb1) = commit_packet t sb in if last_one then sb_release t sb1 else Some sb1)
      else Some sb)"

text \<open>
  The issue stage: an instruction whose registers are in use waits; one that issues reserves its destination.  The
  choice among the warps and the credits of the units behind are not modelled.
\<close>

definition issue_reserve :: "strace \<Rightarrow> scoreboard \<Rightarrow> scoreboard option" where
  "issue_reserve t sb = (if tr_wb t then sb_reserve t sb else Some sb)"

definition issue_trace :: "strace \<Rightarrow> scoreboard \<Rightarrow> (bool \<times> scoreboard) option" where
  "issue_trace t sb =
     do {
       u \<leftarrow> sb_in_use sb t;
       if u then Some (False, sb)
       else map_option (Pair True) (issue_reserve t sb)
     }"

section \<open>Register identifiers\<close>

definition reg_ok :: "nat \<Rightarrow> u32 \<Rightarrow> reg_opd \<Rightarrow> bool" where
  "reg_ok nw w r \<longleftrightarrow> unat w < nw \<and> opd_type r \<noteq> RT_None \<and> unat (opd_idx r) < 32"

lemma opd_fields:
  assumes "opd_type r \<noteq> RT_None" "unat (opd_idx r) < 32"
  shows "get_reg_id r w AND mask 5 = opd_idx r" "drop_bit 5 (get_reg_id r w) AND mask 2 = of_nat (reg_type_int (opd_type r) - 1)"
    "w < 2 ^ 25 \<Longrightarrow> drop_bit 7 (get_reg_id r w) = w"
proof -
  have i: "\<not> bit (opd_idx r) n" if "5 \<le> n" for n
    using small_bits[of "opd_idx r" 5 n] assms(2) that by simp
  have i': "bit (opd_idx r) n \<Longrightarrow> n < 5" for n using i[of n] by (cases "5 \<le> n") auto
  show "get_reg_id r w AND mask 5 = opd_idx r"
    using assms i' by (intro word_eq_by_bits) (auto simp: get_reg_id_def opd_id_def bit_simps not_less)
  show "drop_bit 5 (get_reg_id r w) AND mask 2 = of_nat (reg_type_int (opd_type r) - 1)"
    using assms i by (cases "opd_type r"; intro word_eq_by_bits) (auto simp: get_reg_id_def opd_id_def bit_simps not_less bit_1_iff)
  show "drop_bit 7 (get_reg_id r w) = w" if "w < 2 ^ 25"
  proof -
    have "unat w < 2 ^ 25" using that by (simp add: word_less_nat_alt)
    then have "bit w n \<Longrightarrow> n < 25" for n using small_bits[of w 25 n] by (cases "25 \<le> n") auto
    then show ?thesis
      using assms i by (cases "opd_type r"; intro word_eq_by_bits) (auto simp: get_reg_id_def opd_id_def bit_simps not_less bit_1_iff)
  qed
qed

lemma reg_id_inj:
  assumes "reg_ok nw w r" "reg_ok nw w' r'" "nw \<le> 64" "get_reg_id r w = get_reg_id r' w'"
  shows "w = w' \<and> r = r'"
proof -
  have v: "opd_type r \<noteq> RT_None" "unat (opd_idx r) < 32" "opd_type r' \<noteq> RT_None" "unat (opd_idx r') < 32"
    "w < 2 ^ 25" "w' < 2 ^ 25"
    using assms(1-3) by (auto simp: reg_ok_def word_less_nat_alt)
  note f = opd_fields[OF v(1,2)] opd_fields[OF v(3,4)]
  have "opd_idx r = opd_idx r'" using f(1)[of w] f(4)[of w'] assms(4) by simp
  moreover have "w = w'" using f(3)[OF v(5)] f(6)[OF v(6)] assms(4) by simp
  moreover have "(of_nat (reg_type_int (opd_type r) - 1) :: u32) = of_nat (reg_type_int (opd_type r') - 1)"
    using f(2)[of w] f(5)[of w'] assms(4) by simp
  then have "opd_type r = opd_type r'" using v(1,3) by (cases "opd_type r"; cases "opd_type r'") auto
  ultimately show ?thesis by (cases r; cases r') auto
qed

section \<open>The busy bits\<close>

definition sb_shape :: "nat \<Rightarrow> scoreboard \<Rightarrow> bool" where
  "sb_shape nw sb \<longleftrightarrow> length (in_use_regs sb) = nw \<and> (\<forall>ws \<in> set (in_use_regs sb). length ws = 3)"

lemma type_index: "reg_type_int t < 3"
  by (cases t) auto

lemma type_index_inj: "reg_type_int s = reg_type_int t \<longleftrightarrow> s = t"
  by (cases s; cases t) auto

lemma test_reg_eq:
  "sb_shape nw sb \<Longrightarrow> reg_ok nw w r \<Longrightarrow>
     test_reg sb w r = Some (unat (opd_idx r) \<in> in_use_regs sb ! unat w ! reg_type_int (opd_type r))"
  using type_index by (auto simp: test_reg_def reg_mask_def vec_get_def sb_shape_def reg_ok_def)

lemma assign_reg_ok:
  assumes "sb_shape nw sb" "reg_ok nw w r"
  shows "\<exists>m. assign_reg v w r sb = Some (sb\<lparr>in_use_regs := m\<rparr>) \<and> sb_shape nw (sb\<lparr>in_use_regs := m\<rparr>)
    \<and> (\<forall>w' r'. reg_ok nw w' r' \<longrightarrow> test_reg (sb\<lparr>in_use_regs := m\<rparr>) w' r' = (if w' = w \<and> r' = r then Some v else test_reg sb w' r'))"
proof -
  let ?u = "in_use_regs sb" and ?t = "reg_type_int (opd_type r)" and ?i = "unat (opd_idx r)"
  let ?x = "if v then insert ?i (?u ! unat w ! ?t) else ?u ! unat w ! ?t - {?i}"
  let ?m = "?u[unat w := (?u ! unat w)[?t := ?x]]"
  have l: "unat w < length ?u" "?t < length (?u ! unat w)" "?i < 32"
    using assms type_index by (auto simp: sb_shape_def reg_ok_def)
  have a: "assign_reg v w r sb = Some (sb\<lparr>in_use_regs := ?m\<rparr>)" using l by (simp add: assign_reg_def vec_get_def Let_def)
  have s: "sb_shape nw (sb\<lparr>in_use_regs := ?m\<rparr>)"
    using assms(1) l by (auto simp: sb_shape_def dest!: set_update_subset_insert[THEN subsetD])
  have "test_reg (sb\<lparr>in_use_regs := ?m\<rparr>) w' r' = (if w' = w \<and> r' = r then Some v else test_reg sb w' r')"
    if o: "reg_ok nw w' r'" for w' r'
  proof -
    have "r' = r \<longleftrightarrow> reg_type_int (opd_type r') = ?t \<and> unat (opd_idx r') = ?i"
      by (cases r; cases r') (auto simp: type_index_inj word_unat_eq_iff)
    moreover have "w' = w \<longleftrightarrow> unat w' = unat w" by (simp add: word_unat_eq_iff)
    ultimately show ?thesis using l
      by (auto simp: test_reg_eq[OF s o] test_reg_eq[OF assms(1) o] nth_list_update split: if_splits)
  qed
  then show ?thesis using a s by blast
qed

section \<open>The invariant\<close>

definition trace_key :: "strace \<Rightarrow> u32" where
  "trace_key t = get_reg_id (tr_dst t) (tr_wid t)"

definition holder_ok :: "nat \<Rightarrow> u32 \<times> strace \<Rightarrow> bool" where
  "holder_ok nw e \<longleftrightarrow> tr_wb (snd e) \<and> reg_ok nw (tr_wid (snd e)) (tr_dst (snd e)) \<and> fst e = trace_key (snd e)"

definition sb_ok :: "nat \<Rightarrow> scoreboard \<Rightarrow> bool" where
  "sb_ok nw sb \<longleftrightarrow> nw \<le> 64 \<and> sb_shape nw sb \<and> distinct (map fst (sb_owners sb))
     \<and> (\<forall>e \<in> set (sb_owners sb). holder_ok nw e)
     \<and> (\<forall>e \<in> set (pending_reserve sb). holder_ok nw e)
     \<and> (\<forall>w r. reg_ok nw w r \<longrightarrow> test_reg sb w r = Some (get_reg_id r w \<in> fst ` set (sb_owners sb)))"

lemma sb_ok_reset: "nw \<le> 64 \<Longrightarrow> sb_ok nw (scoreboard_reset nw)"
proof -
  have s: "sb_shape nw (scoreboard_reset nw)" by (simp add: sb_shape_def scoreboard_reset_def)
  have "test_reg (scoreboard_reset nw) w r = Some False" if "reg_ok nw w r" for w r
    using that type_index[of "opd_type r"] by (simp add: test_reg_eq[OF s that]) (simp add: scoreboard_reset_def reg_ok_def)
  then show "nw \<le> 64 \<Longrightarrow> sb_ok nw (scoreboard_reset nw)" using s by (simp add: sb_ok_def) (simp add: scoreboard_reset_def)
qed

lemma owner_iff: "map_of xs k = None \<longleftrightarrow> k \<notin> fst ` set xs"
  by (rule map_of_eq_None_iff)

lemma alist_update_mem: "e \<in> set (AList.update k v xs) \<Longrightarrow> e = (k, v) \<or> e \<in> set xs"
  by (induction xs) (auto split: if_splits)

lemma alist_delete_mem: "e \<in> set (AList.delete k xs) \<Longrightarrow> e \<in> set xs"
  by (induction xs) (auto split: if_splits)

lemma keys_delete: "fst ` set (AList.delete k xs) = fst ` set xs - {k}"
  by (simp add: delete_keys flip: set_map)

lemma assign_frame:
  "assign_reg v w r sb = Some (sb\<lparr>in_use_regs := m\<rparr>) \<Longrightarrow>
     assign_reg v w r (sb\<lparr>sb_owners := os, commit_counts := c\<rparr>) = Some (sb\<lparr>in_use_regs := m, sb_owners := os, commit_counts := c\<rparr>)"
  by (cases sb) (auto simp: assign_reg_def Let_def vec_get_def split: if_splits bind_splits)

text \<open>A new owner of a register that had none, and an owner taken away.\<close>

lemma new_owner:
  assumes "sb_ok nw sb" "holder_ok nw (trace_key t, t)" "trace_key t \<notin> fst ` set (sb_owners sb)"
  shows "\<exists>m. assign_reg True (tr_wid t) (tr_dst t) sb = Some (sb\<lparr>in_use_regs := m\<rparr>)
    \<and> sb_ok nw (sb\<lparr>in_use_regs := m, sb_owners := AList.update (trace_key t) t (sb_owners sb)\<rparr>)"
proof -
  have r: "reg_ok nw (tr_wid t) (tr_dst t)" "sb_shape nw sb" "nw \<le> 64" using assms(1,2) by (auto simp: holder_ok_def sb_ok_def)
  obtain m where m: "assign_reg True (tr_wid t) (tr_dst t) sb = Some (sb\<lparr>in_use_regs := m\<rparr>)" "sb_shape nw (sb\<lparr>in_use_regs := m\<rparr>)"
    "\<forall>w' r'. reg_ok nw w' r' \<longrightarrow> test_reg (sb\<lparr>in_use_regs := m\<rparr>) w' r' = (if w' = tr_wid t \<and> r' = tr_dst t then Some True else test_reg sb w' r')"
    using assign_reg_ok[OF r(2,1)] by blast
  let ?s = "sb\<lparr>in_use_regs := m, sb_owners := AList.update (trace_key t) t (sb_owners sb)\<rparr>"
  have k: "fst ` set (AList.update (trace_key t) t (sb_owners sb)) = insert (trace_key t) (fst ` set (sb_owners sb))" by (simp add: dom_update)
  have f: "test_reg ?s w r' = test_reg (sb\<lparr>in_use_regs := m\<rparr>) w r'" for w r' by (simp add: test_reg_def reg_mask_def)
  have "test_reg ?s w r' = Some (get_reg_id r' w \<in> fst ` set (sb_owners ?s))" if "reg_ok nw w r'" for w r'
  proof -
    have "get_reg_id r' w = trace_key t \<longleftrightarrow> w = tr_wid t \<and> r' = tr_dst t" using reg_id_inj[OF that r(1,3)] by (auto simp: trace_key_def)
    moreover have "test_reg sb w r' = Some (get_reg_id r' w \<in> fst ` set (sb_owners sb))" using assms(1) that by (simp add: sb_ok_def)
    ultimately show ?thesis using m(3) that unfolding f
      by (cases "w = tr_wid t \<and> r' = tr_dst t") (auto simp: k)
  qed
  moreover have "holder_ok nw e" if "e \<in> set (AList.update (trace_key t) t (sb_owners sb))" for e
    using alist_update_mem[OF that] assms(1,2) by (auto simp: sb_ok_def)
  ultimately have "sb_ok nw ?s"
    using assms(1) m(2) by (auto simp: sb_ok_def sb_shape_def distinct_update)
  then show ?thesis using m(1) by blast
qed

lemma lost_owner:
  assumes "sb_ok nw sb" "reg_ok nw (tr_wid t) (tr_dst t)"
  shows "\<exists>m. assign_reg False (tr_wid t) (tr_dst t) sb = Some (sb\<lparr>in_use_regs := m\<rparr>)
    \<and> sb_ok nw (sb\<lparr>in_use_regs := m, sb_owners := AList.delete (trace_key t) (sb_owners sb), commit_counts := c\<rparr>)"
proof -
  have r: "sb_shape nw sb" "nw \<le> 64" using assms(1) by (auto simp: sb_ok_def)
  obtain m where m: "assign_reg False (tr_wid t) (tr_dst t) sb = Some (sb\<lparr>in_use_regs := m\<rparr>)" "sb_shape nw (sb\<lparr>in_use_regs := m\<rparr>)"
    "\<forall>w' r'. reg_ok nw w' r' \<longrightarrow> test_reg (sb\<lparr>in_use_regs := m\<rparr>) w' r' = (if w' = tr_wid t \<and> r' = tr_dst t then Some False else test_reg sb w' r')"
    using assign_reg_ok[OF r(1) assms(2)] by blast
  let ?s = "sb\<lparr>in_use_regs := m, sb_owners := AList.delete (trace_key t) (sb_owners sb), commit_counts := c\<rparr>"
  note k = keys_delete[of "trace_key t" "sb_owners sb"]
  have f: "test_reg ?s w r' = test_reg (sb\<lparr>in_use_regs := m\<rparr>) w r'" for w r' by (simp add: test_reg_def reg_mask_def)
  have "test_reg ?s w r' = Some (get_reg_id r' w \<in> fst ` set (sb_owners ?s))" if "reg_ok nw w r'" for w r'
  proof -
    have "get_reg_id r' w = trace_key t \<longleftrightarrow> w = tr_wid t \<and> r' = tr_dst t" using reg_id_inj[OF that assms(2) r(2)] by (auto simp: trace_key_def)
    moreover have "test_reg sb w r' = Some (get_reg_id r' w \<in> fst ` set (sb_owners sb))" using assms(1) that by (simp add: sb_ok_def)
    ultimately show ?thesis using m(3) that unfolding f
      by (cases "w = tr_wid t \<and> r' = tr_dst t") (auto simp: k)
  qed
  moreover have "holder_ok nw e" if "e \<in> set (AList.delete (trace_key t) (sb_owners sb))" for e
    using alist_delete_mem[OF that] assms(1) by (auto simp: sb_ok_def)
  ultimately have "sb_ok nw ?s"
    using assms(1) m(2) by (auto simp: sb_ok_def sb_shape_def distinct_delete)
  then show ?thesis using m(1) by blast
qed

text \<open>The count of committed packets is not part of the invariant.\<close>

lemma sb_ok_counts [simp]: "sb_ok nw (sb\<lparr>commit_counts := c\<rparr>) \<longleftrightarrow> sb_ok nw sb"
  by (simp add: sb_ok_def sb_shape_def test_reg_def reg_mask_def)

lemma sb_ok_pending:
  "sb_ok nw sb \<Longrightarrow> (\<forall>e \<in> set p. holder_ok nw e) \<Longrightarrow> sb_ok nw (sb\<lparr>pending_reserve := p\<rparr>)"
  by (simp add: sb_ok_def sb_shape_def test_reg_def reg_mask_def)

section \<open>The operations\<close>

definition owned :: "scoreboard \<Rightarrow> u32 \<Rightarrow> reg_opd \<Rightarrow> bool" where
  "owned sb w r \<longleftrightarrow> get_reg_id r w \<in> fst ` set (sb_owners sb)"

text \<open>An instruction of the pipeline: its registers exist, and one that writes has a destination.\<close>

definition trace_ok :: "nat \<Rightarrow> strace \<Rightarrow> bool" where
  "trace_ok nw t \<longleftrightarrow> unat (tr_wid t) < nw \<and> list_all (\<lambda>r. opd_type r \<noteq> RT_None \<longrightarrow> unat (opd_idx r) < 32) (tr_dst t # tr_srcs t)
     \<and> (tr_wb t \<longrightarrow> opd_type (tr_dst t) \<noteq> RT_None)"

definition blocked :: "scoreboard \<Rightarrow> strace \<Rightarrow> bool" where
  "blocked sb t \<longleftrightarrow> tr_wb t \<and> owned sb (tr_wid t) (tr_dst t)
     \<or> list_ex (\<lambda>r. opd_type r \<noteq> RT_None \<and> owned sb (tr_wid t) r) (tr_srcs t)"

lemma test_owned: "sb_ok nw sb \<Longrightarrow> reg_ok nw w r \<Longrightarrow> test_reg sb w r = Some (owned sb w r)"
  by (simp add: sb_ok_def owned_def)

lemma any_used_ok:
  "sb_ok nw sb \<Longrightarrow> unat w < nw \<Longrightarrow> list_all (\<lambda>r. opd_type r \<noteq> RT_None \<longrightarrow> unat (opd_idx r) < 32) rs
    \<Longrightarrow> any_used sb w rs = Some (list_ex (\<lambda>r. opd_type r \<noteq> RT_None \<and> owned sb w r) rs)"
proof (induction rs)
  case (Cons r rs)
  then show ?case using test_owned[of nw sb w r] by (auto simp: reg_ok_def)
qed simp

lemma in_use_ok: "sb_ok nw sb \<Longrightarrow> trace_ok nw t \<Longrightarrow> sb_in_use sb t = Some (blocked sb t)"
  using any_used_ok[of nw sb "tr_wid t" "tr_srcs t"] test_owned[of nw sb "tr_wid t" "tr_dst t"]
  by (auto simp: sb_in_use_def trace_ok_def blocked_def reg_ok_def)

lemma holder_trace: "trace_ok nw t \<Longrightarrow> tr_wb t \<Longrightarrow> holder_ok nw (trace_key t, t)"
  by (simp add: trace_ok_def holder_ok_def reg_ok_def)

lemma issue_ok:
  assumes "sb_ok nw sb" "trace_ok nw t"
  shows "\<exists>sb'. issue_trace t sb = Some (\<not> blocked sb t, sb') \<and> sb_ok nw sb'
    \<and> (blocked sb t \<longrightarrow> sb' = sb) \<and> (\<not> blocked sb t \<and> tr_wb t \<longrightarrow> map_of (sb_owners sb') (trace_key t) = Some t)"
proof (cases "\<not> blocked sb t \<and> tr_wb t")
  case True
  then have k: "trace_key t \<notin> fst ` set (sb_owners sb)" by (auto simp: blocked_def owned_def trace_key_def)
  obtain m where m: "assign_reg True (tr_wid t) (tr_dst t) sb = Some (sb\<lparr>in_use_regs := m\<rparr>)"
    "sb_ok nw (sb\<lparr>in_use_regs := m, sb_owners := AList.update (trace_key t) t (sb_owners sb)\<rparr>)"
    using new_owner[OF assms(1) holder_trace[OF assms(2)] k] True by blast
  have "map_of (sb_owners sb) (trace_key t) = None" using k by (simp add: owner_iff)
  then have "sb_reserve t sb = Some (sb\<lparr>in_use_regs := m, sb_owners := AList.update (trace_key t) t (sb_owners sb)\<rparr>)"
    using True m(1) by (simp add: sb_reserve_def Let_def trace_key_def)
  then show ?thesis using m(2) True in_use_ok[OF assms] by (simp add: issue_trace_def issue_reserve_def update_conv')
next
  case False
  then show ?thesis using in_use_ok[OF assms] assms(1) by (auto simp: issue_trace_def issue_reserve_def)
qed

lemma release_ok:
  assumes "sb_ok nw sb" and r: "reg_ok nw (tr_wid t) (tr_dst t)" and "tr_wb t" "owned sb (tr_wid t) (tr_dst t)"
  shows "\<exists>sb'. sb_release t sb = Some sb' \<and> sb_ok nw sb'"
proof -
  have o: "map_of (sb_owners sb) (trace_key t) \<noteq> None" "test_reg sb (tr_wid t) (tr_dst t) = Some True"
    using assms(4) test_owned[OF assms(1) r] by (simp_all add: owned_def trace_key_def owner_iff)
  let ?c = "AList.delete (trace_key t) (commit_counts sb)"
  obtain m where m: "assign_reg False (tr_wid t) (tr_dst t) sb = Some (sb\<lparr>in_use_regs := m\<rparr>)"
    "sb_ok nw (sb\<lparr>in_use_regs := m, sb_owners := AList.delete (trace_key t) (sb_owners sb), commit_counts := ?c\<rparr>)"
    using lost_owner[OF assms(1) r] by blast
  show ?thesis
  proof (cases "map_of (pending_reserve sb) (trace_key t)")
    case None
    have "assign_reg False (tr_wid t) (tr_dst t) (sb\<lparr>sb_owners := AList.delete (trace_key t) (sb_owners sb), commit_counts := ?c\<rparr>)
      = Some (sb\<lparr>in_use_regs := m, sb_owners := AList.delete (trace_key t) (sb_owners sb), commit_counts := ?c\<rparr>)"
      by (rule assign_frame[OF m(1)])
    then show ?thesis using None o assms(3) m(2) by (auto simp: sb_release_def Let_def trace_key_def)
  next
    case (Some p)
    then have "holder_ok nw (trace_key t, p)" using assms(1) map_of_SomeD[OF Some] by (simp add: sb_ok_def)
    then have p: "trace_key p = trace_key t" "holder_ok nw (trace_key p, p)" by (auto simp: holder_ok_def)
    let ?s = "sb\<lparr>commit_counts := ?c, sb_owners := AList.update (trace_key t) p (AList.delete (trace_key t) (sb_owners sb)),
      pending_reserve := AList.delete (trace_key t) (pending_reserve sb)\<rparr>"
    have k: "fst ` set (AList.update (trace_key t) p (AList.delete (trace_key t) (sb_owners sb))) = fst ` set (sb_owners sb)"
      using o(1) by (auto simp: owner_iff dom_update keys_delete)
    have "holder_ok nw e" if "e \<in> set (AList.update (trace_key t) p (AList.delete (trace_key t) (sb_owners sb)))" for e
      using alist_update_mem[OF that] alist_delete_mem[of e "trace_key t" "sb_owners sb"] p assms(1) by (auto simp: sb_ok_def)
    moreover have "holder_ok nw e" if "e \<in> set (AList.delete (trace_key t) (pending_reserve sb))" for e
      using alist_delete_mem[OF that] assms(1) by (simp add: sb_ok_def)
    moreover have "test_reg ?s w r = test_reg sb w r" for w r by (simp add: test_reg_def reg_mask_def)
    ultimately have "sb_ok nw ?s"
      using assms(1) k by (simp add: sb_ok_def sb_shape_def distinct_update distinct_delete)
    then show ?thesis using Some o assms(3) by (auto simp: sb_release_def Let_def trace_key_def)
  qed
qed

lemma lift_all_ok:
  "sb_ok nw sb \<Longrightarrow> \<forall>e \<in> set ts. holder_ok nw e \<Longrightarrow> \<exists>sb'. lift_all ts sb = Some sb' \<and> sb_ok nw sb'"
proof (induction ts arbitrary: sb)
  case (Cons e ts)
  obtain k t where e: "e = (k, t)" by fastforce
  then have h: "k = trace_key t" "reg_ok nw (tr_wid t) (tr_dst t)" using Cons.prems(2) by (auto simp: holder_ok_def)
  let ?c = "AList.delete (trace_key t) (commit_counts sb)"
  obtain m where m: "assign_reg False (tr_wid t) (tr_dst t) sb = Some (sb\<lparr>in_use_regs := m\<rparr>)"
    "sb_ok nw (sb\<lparr>in_use_regs := m, sb_owners := AList.delete (trace_key t) (sb_owners sb), commit_counts := ?c\<rparr>)"
    using lost_owner[OF Cons.prems(1) h(2)] by blast
  then show ?case using Cons.IH[OF m(2)] Cons.prems(2) by (auto simp: e h(1))
qed simp

lemma snapshot_ok:
  assumes "sb_ok nw sb"
  shows "\<exists>ts sb'. snapshot_warp p w sb = Some (ts, sb') \<and> sb_ok nw sb' \<and> (\<forall>t \<in> set ts. holder_ok nw (trace_key t, t))"
proof -
  let ?ts = "filter (\<lambda>(reg_id, t). tr_wid t = w \<and> p t) (sb_owners sb)"
  have h: "\<forall>e \<in> set ?ts. holder_ok nw e" using assms by (auto simp: sb_ok_def)
  then have "\<forall>t \<in> set (map snd ?ts). holder_ok nw (trace_key t, t)" by (auto simp: holder_ok_def)
  then show ?thesis using lift_all_ok[OF assms h] by (auto simp: snapshot_warp_def Let_def simp del: set_map)
qed

lemma use_entry_ok: "sb_ok nw sb \<Longrightarrow> reg_ok nw w r \<Longrightarrow>
   \<exists>us. use_entry sb w r = Some us \<and> (us \<noteq> [] \<longleftrightarrow> owned sb w r)"
  using test_owned[of nw sb w r] owner_iff[of "sb_owners sb" "get_reg_id r w"]
  by (cases "owned sb w r") (auto simp: use_entry_def owned_def)

lemma src_uses_ok:
  "sb_ok nw sb \<Longrightarrow> unat w < nw \<Longrightarrow> list_all (\<lambda>r. opd_type r \<noteq> RT_None \<longrightarrow> unat (opd_idx r) < 32) rs
    \<Longrightarrow> \<exists>us. src_uses sb w rs = Some us \<and> (us \<noteq> [] \<longleftrightarrow> list_ex (\<lambda>r. opd_type r \<noteq> RT_None \<and> owned sb w r) rs)"
proof (induction rs)
  case (Cons r rs)
  then show ?case using use_entry_ok[of nw sb w r] by (auto simp: reg_ok_def)
qed simp

lemma get_uses_ok:
  assumes "sb_ok nw sb" "trace_ok nw t"
  shows "\<exists>us. get_uses sb t = Some us \<and> (us \<noteq> [] \<longleftrightarrow> blocked sb t)"
proof -
  obtain us where us: "src_uses sb (tr_wid t) (tr_srcs t) = Some us"
    "us \<noteq> [] \<longleftrightarrow> list_ex (\<lambda>r. opd_type r \<noteq> RT_None \<and> owned sb (tr_wid t) r) (tr_srcs t)"
    using src_uses_ok[OF assms(1), of "tr_wid t" "tr_srcs t"] assms(2) by (auto simp: trace_ok_def)
  then show ?thesis using use_entry_ok[OF assms(1), of "tr_wid t" "tr_dst t"] assms(2)
    by (cases "tr_wb t") (auto simp: get_uses_def blocked_def trace_ok_def reg_ok_def)
qed

section \<open>Instructions in flight\<close>

text \<open>
  The packets an issued instruction has still to commit are counted beside the scoreboard, and so are the reservations
  lifted by a trap.  \<open>flights\<close> relates them to the owners, the counts of committed packets and the deferred
  reservations, all read as maps.
\<close>

definition committed :: "(u32 \<rightharpoonup> u32) \<Rightarrow> u32 \<Rightarrow> nat" where
  "committed C k = (case C k of None \<Rightarrow> 0 | Some c \<Rightarrow> unat c)"

definition parked :: "(u32 \<rightharpoonup> strace) \<Rightarrow> (u32 \<Rightarrow> strace list) \<Rightarrow> strace \<Rightarrow> bool" where
  "parked Q sv t \<longleftrightarrow> t \<in> set (sv (tr_wid t)) \<or> Q (trace_key t) = Some t"

definition whole :: "(strace \<Rightarrow> nat) \<Rightarrow> strace \<Rightarrow> bool" where
  "whole fl t \<longleftrightarrow> tr_wb t \<and> 0 < fl t \<and> fl t = unat (tr_num_pkts t)"

definition flights :: "(u32 \<rightharpoonup> strace) \<Rightarrow> (u32 \<rightharpoonup> u32) \<Rightarrow> (u32 \<rightharpoonup> strace) \<Rightarrow> (u32 \<Rightarrow> strace list) \<Rightarrow> (strace \<Rightarrow> nat) \<Rightarrow> bool" where
  "flights H C Q sv fl \<longleftrightarrow>
     (\<forall>k t. H k = Some t \<longrightarrow> k = trace_key t \<and> 0 < fl t \<and> fl t + committed C k = unat (tr_num_pkts t) \<and> \<not> parked Q sv t)
     \<and> (\<forall>k. H k = None \<longrightarrow> C k = None)
     \<and> (\<forall>k t. Q k = Some t \<longrightarrow> k = trace_key t \<and> whole fl t \<and> k \<notin> trace_key ` set (sv (tr_wid t)))
     \<and> (\<forall>w. \<forall>t \<in> set (sv w). tr_wid t = w \<and> whole fl t)
     \<and> (\<forall>w. distinct (map trace_key (sv w)))
     \<and> (\<forall>t. tr_wb t \<and> 0 < fl t \<longrightarrow> H (trace_key t) = Some t \<or> parked Q sv t)"

lemma flightsI:
  assumes "\<And>k t. H k = Some t \<Longrightarrow> k = trace_key t \<and> 0 < fl t \<and> fl t + committed C k = unat (tr_num_pkts t) \<and> \<not> parked Q sv t"
    and "\<And>k. H k = None \<Longrightarrow> C k = None"
    and "\<And>k t. Q k = Some t \<Longrightarrow> k = trace_key t \<and> whole fl t \<and> k \<notin> trace_key ` set (sv (tr_wid t))"
    and "\<And>w t. t \<in> set (sv w) \<Longrightarrow> tr_wid t = w \<and> whole fl t"
    and "\<And>w. distinct (map trace_key (sv w))"
    and "\<And>t. tr_wb t \<Longrightarrow> 0 < fl t \<Longrightarrow> H (trace_key t) = Some t \<or> parked Q sv t"
  shows "flights H C Q sv fl"
  using assms unfolding flights_def by blast

lemma flightsD:
  assumes "flights H C Q sv fl"
  shows "H k = Some t \<Longrightarrow> k = trace_key t \<and> 0 < fl t \<and> fl t + committed C k = unat (tr_num_pkts t) \<and> \<not> parked Q sv t"
    and "H k = None \<Longrightarrow> C k = None"
    and "Q k = Some t \<Longrightarrow> k = trace_key t \<and> whole fl t \<and> k \<notin> trace_key ` set (sv (tr_wid t))"
    and "t \<in> set (sv w) \<Longrightarrow> tr_wid t = w \<and> whole fl t"
    and "distinct (map trace_key (sv w))"
    and "tr_wb t \<Longrightarrow> 0 < fl t \<Longrightarrow> H (trace_key t) = Some t \<or> parked Q sv t"
  using assms unfolding flights_def by blast+

lemma flights_issue:
  assumes F: "flights H C Q sv fl" and t: "fl t = 0" "tr_num_pkts t \<noteq> 0" "tr_wb t \<Longrightarrow> H (trace_key t) = None"
  shows "flights (if tr_wb t then H(trace_key t \<mapsto> t) else H) C Q sv (fl(t := unat (tr_num_pkts t)))"
proof (rule flightsI)
  note D = flightsD[OF F]
  have n: "0 < unat (tr_num_pkts t)" using t(2) by (simp add: unat_gt_0)
  have np: "\<not> parked Q sv t" using D(3)[of "trace_key t" t] D(4)[of t "tr_wid t"] t(1) by (auto simp: parked_def whole_def)
  have c: "committed C (trace_key t) = 0" if "tr_wb t" using D(2)[OF t(3)[OF that]] by (simp add: committed_def)
  fix k u
  show "(if tr_wb t then H(trace_key t \<mapsto> t) else H) k = Some u \<Longrightarrow> k = trace_key u \<and> 0 < (fl(t := unat (tr_num_pkts t))) u
      \<and> (fl(t := unat (tr_num_pkts t))) u + committed C k = unat (tr_num_pkts u) \<and> \<not> parked Q sv u"
    using D(1)[of k u] n np c t(1) by (auto split: if_splits)
  show "(if tr_wb t then H(trace_key t \<mapsto> t) else H) k = None \<Longrightarrow> C k = None" using D(2)[of k] by (auto split: if_splits)
  show "Q k = Some u \<Longrightarrow> k = trace_key u \<and> whole (fl(t := unat (tr_num_pkts t))) u \<and> k \<notin> trace_key ` set (sv (tr_wid u))"
    using D(3)[of k u] t(1) by (auto simp: whole_def)
  show "distinct (map trace_key (sv w))" for w by (rule D(5))
  show "u \<in> set (sv w) \<Longrightarrow> tr_wid u = w \<and> whole (fl(t := unat (tr_num_pkts t))) u" for w
    using D(4)[of u w] t(1) by (auto simp: whole_def)
  show "tr_wb u \<Longrightarrow> 0 < (fl(t := unat (tr_num_pkts t))) u \<Longrightarrow>
      (if tr_wb t then H(trace_key t \<mapsto> t) else H) (trace_key u) = Some u \<or> parked Q sv u"
    using D(6)[of u] t(3) by (auto split: if_splits)
qed

lemma flights_packet:
  assumes F: "flights H C Q sv fl" and t: "H (trace_key t) = Some t" "1 < fl t" "unat c = committed C (trace_key t) + 1"
  shows "flights H (C(trace_key t \<mapsto> c)) Q sv (fl(t := fl t - 1))"
proof (rule flightsI)
  note D = flightsD[OF F]
  have np: "\<not> parked Q sv t" using D(1)[OF t(1)] by simp
  have ex: "u = t" if "H k = Some u" "k = trace_key t" for k u using that t(1) by simp
  fix k u
  show "H k = Some u \<Longrightarrow> k = trace_key u \<and> 0 < (fl(t := fl t - 1)) u
      \<and> (fl(t := fl t - 1)) u + committed (C(trace_key t \<mapsto> c)) k = unat (tr_num_pkts u) \<and> \<not> parked Q sv u"
    using D(1)[of k u] t ex[of k u] by (cases "u = t") (auto simp: committed_def)
  show "H k = None \<Longrightarrow> (C(trace_key t \<mapsto> c)) k = None" using D(2)[of k] t(1) by auto
  show "Q k = Some u \<Longrightarrow> k = trace_key u \<and> whole (fl(t := fl t - 1)) u \<and> k \<notin> trace_key ` set (sv (tr_wid u))"
    using D(3)[of k u] np by (auto simp: whole_def parked_def)
  show "distinct (map trace_key (sv w))" for w by (rule D(5))
  show "u \<in> set (sv w) \<Longrightarrow> tr_wid u = w \<and> whole (fl(t := fl t - 1)) u" for w
    using D(4)[of u w] np by (auto simp: whole_def parked_def)
  show "tr_wb u \<Longrightarrow> 0 < (fl(t := fl t - 1)) u \<Longrightarrow> H (trace_key u) = Some u \<or> parked Q sv u"
    using D(6)[of u] t by (auto split: if_splits)
qed

lemma flights_release:
  assumes F: "flights H C Q sv fl" and t: "H (trace_key t) = Some t" "fl t = 1"
  shows "flights (H(trace_key t := Q (trace_key t))) (C(trace_key t := None)) (Q(trace_key t := None)) sv (fl(t := 0))"
proof (rule flightsI)
  note D = flightsD[OF F]
  have np: "\<not> parked Q sv t" using D(1)[OF t(1)] by simp
  fix k u
  show "(H(trace_key t := Q (trace_key t))) k = Some u \<Longrightarrow> k = trace_key u \<and> 0 < (fl(t := 0)) u
      \<and> (fl(t := 0)) u + committed (C(trace_key t := None)) k = unat (tr_num_pkts u) \<and> \<not> parked (Q(trace_key t := None)) sv u"
    using D(1)[of k u] D(3)[of k u] t np by (cases "k = trace_key t") (auto simp: committed_def parked_def whole_def split: if_splits)
  show "(H(trace_key t := Q (trace_key t))) k = None \<Longrightarrow> (C(trace_key t := None)) k = None" using D(2)[of k] by (auto split: if_splits)
  show "(Q(trace_key t := None)) k = Some u \<Longrightarrow> k = trace_key u \<and> whole (fl(t := 0)) u \<and> k \<notin> trace_key ` set (sv (tr_wid u))"
    using D(3)[of k u] np by (auto simp: whole_def parked_def split: if_splits)
  show "distinct (map trace_key (sv w))" for w by (rule D(5))
  show "u \<in> set (sv w) \<Longrightarrow> tr_wid u = w \<and> whole (fl(t := 0)) u" for w
    using D(4)[of u w] np by (auto simp: whole_def parked_def)
  show "tr_wb u \<Longrightarrow> 0 < (fl(t := 0)) u \<Longrightarrow> (H(trace_key t := Q (trace_key t))) (trace_key u) = Some u \<or> parked (Q(trace_key t := None)) sv u"
    using D(6)[of u] t by (auto simp: parked_def split: if_splits)
qed

lemma flights_trap:
  assumes F: "flights H C Q sv fl" and w: "sv w = []" and d: "distinct (map trace_key ts)"
    and ts: "\<And>t. t \<in> set ts \<Longrightarrow> H (trace_key t) = Some t \<and> tr_wid t = w \<and> whole fl t \<and> Q (trace_key t) = None"
  shows "flights (\<lambda>k. if k \<in> trace_key ` set ts then None else H k) (\<lambda>k. if k \<in> trace_key ` set ts then None else C k) Q (sv(w := ts)) fl"
proof (rule flightsI)
  note D = flightsD[OF F]
  have same: "u \<in> set ts" if "H (trace_key u) = Some u" "trace_key u \<in> trace_key ` set ts" for u
  proof -
    from that(2) obtain v where "v \<in> set ts" "trace_key u = trace_key v" by blast
    then show ?thesis using ts[of v] that(1) by simp
  qed
  have keep: "parked Q (sv(w := ts)) u \<longleftrightarrow> parked Q sv u \<or> u \<in> set ts" for u
    using w ts[of u] by (auto simp: parked_def)
  fix k u
  show "k = trace_key u \<and> 0 < fl u \<and> fl u + committed (\<lambda>k. if k \<in> trace_key ` set ts then None else C k) k = unat (tr_num_pkts u)
      \<and> \<not> parked Q (sv(w := ts)) u" if "(if k \<in> trace_key ` set ts then None else H k) = Some u"
  proof -
    have k: "k \<notin> trace_key ` set ts" "H k = Some u" using that by (simp_all split: if_splits)
    then show ?thesis using D(1)[OF k(2)] by (auto simp: committed_def keep)
  qed
  show "(if k \<in> trace_key ` set ts then None else H k) = None \<Longrightarrow> (if k \<in> trace_key ` set ts then None else C k) = None"
    using D(2)[of k] by (cases "k \<in> trace_key ` set ts") simp_all
  show "k = trace_key u \<and> whole fl u \<and> k \<notin> trace_key ` set ((sv(w := ts)) (tr_wid u))" if "Q k = Some u"
  proof -
    have "k \<notin> trace_key ` set ts" using that ts by fastforce
    then show ?thesis using D(3)[OF that] by auto
  qed
  show "distinct (map trace_key ((sv(w := ts)) w'))" for w' using D(5)[of w'] d by simp
  show "u \<in> set ((sv(w := ts)) w') \<Longrightarrow> tr_wid u = w' \<and> whole fl u" for w'
    using D(4)[of u w'] ts[of u] by (cases "w' = w") simp_all
  show "tr_wb u \<Longrightarrow> 0 < fl u \<Longrightarrow> (if trace_key u \<in> trace_key ` set ts then None else H (trace_key u)) = Some u \<or> parked Q (sv(w := ts)) u"
    using D(6)[of u] same[of u] unfolding keep by (cases "trace_key u \<in> trace_key ` set ts") auto
qed

lemma flights_mret:
  assumes F: "flights H C Q (sv(w := t # ts)) fl" and q: "\<forall>u. Q (trace_key t) = Some u \<longrightarrow> tr_wid u = tr_wid t"
  shows "H (trace_key t) = None \<Longrightarrow> flights (H(trace_key t \<mapsto> t)) C Q (sv(w := ts)) fl"
    and "H (trace_key t) \<noteq> None \<Longrightarrow> flights H C (Q(trace_key t \<mapsto> t)) (sv(w := ts)) fl"
proof -
  note D = flightsD[OF F]
  have t: "tr_wid t = w" "whole fl t" "trace_key t \<notin> trace_key ` set ts" "t \<notin> set ts" using D(4)[of t w] D(5)[of w] by auto
  have qn: "Q (trace_key t) = None" using q D(3)[of "trace_key t"] t(1) by (cases "Q (trace_key t)") auto
  have one: "H k \<noteq> Some t" for k using D(1)[of k t] t(1) by (auto simp: parked_def)
  show "flights (H(trace_key t \<mapsto> t)) C Q (sv(w := ts)) fl" if h: "H (trace_key t) = None"
  proof (rule flightsI)
    fix k u
    show "(H(trace_key t \<mapsto> t)) k = Some u \<Longrightarrow> k = trace_key u \<and> 0 < fl u
        \<and> fl u + committed C k = unat (tr_num_pkts u) \<and> \<not> parked Q (sv(w := ts)) u"
      using D(1)[of k u] D(2)[OF h] t qn by (auto simp: committed_def parked_def whole_def split: if_splits)
    show "(H(trace_key t \<mapsto> t)) k = None \<Longrightarrow> C k = None" using D(2)[of k] by (auto split: if_splits)
    show "Q k = Some u \<Longrightarrow> k = trace_key u \<and> whole fl u \<and> k \<notin> trace_key ` set ((sv(w := ts)) (tr_wid u))"
      using D(3)[of k u] by (auto split: if_splits)
    show "distinct (map trace_key ((sv(w := ts)) w'))" for w' using D(5)[of w'] by (auto split: if_splits)
    show "u \<in> set ((sv(w := ts)) w') \<Longrightarrow> tr_wid u = w' \<and> whole fl u" for w' using D(4)[of u w'] by (auto split: if_splits)
    show "tr_wb u \<Longrightarrow> 0 < fl u \<Longrightarrow> (H(trace_key t \<mapsto> t)) (trace_key u) = Some u \<or> parked Q (sv(w := ts)) u"
      using D(6)[of u] h by (auto simp: parked_def split: if_splits)
  qed
  show "flights H C (Q(trace_key t \<mapsto> t)) (sv(w := ts)) fl" if h: "H (trace_key t) \<noteq> None"
  proof (rule flightsI)
    fix k u
    show "H k = Some u \<Longrightarrow> k = trace_key u \<and> 0 < fl u
        \<and> fl u + committed C k = unat (tr_num_pkts u) \<and> \<not> parked (Q(trace_key t \<mapsto> t)) (sv(w := ts)) u"
      using D(1)[of k u] one[of k] by (auto simp: parked_def split: if_splits)
    show "H k = None \<Longrightarrow> C k = None" by (rule D(2))
    show "(Q(trace_key t \<mapsto> t)) k = Some u \<Longrightarrow> k = trace_key u \<and> whole fl u \<and> k \<notin> trace_key ` set ((sv(w := ts)) (tr_wid u))"
      using D(3)[of k u] t by (auto split: if_splits)
    show "distinct (map trace_key ((sv(w := ts)) w'))" for w' using D(5)[of w'] by (auto split: if_splits)
    show "u \<in> set ((sv(w := ts)) w') \<Longrightarrow> tr_wid u = w' \<and> whole fl u" for w' using D(4)[of u w'] by (auto split: if_splits)
    show "tr_wb u \<Longrightarrow> 0 < fl u \<Longrightarrow> H (trace_key u) = Some u \<or> parked (Q(trace_key t \<mapsto> t)) (sv(w := ts)) u"
      using D(6)[of u] qn by (auto simp: parked_def split: if_splits)
  qed
qed

section \<open>What the operations do to the maps\<close>

abbreviation (input) sb_flights :: "scoreboard \<Rightarrow> (u32 \<Rightarrow> strace list) \<Rightarrow> (strace \<Rightarrow> nat) \<Rightarrow> bool" where
  "sb_flights sb \<equiv> flights (map_of (sb_owners sb)) (map_of (commit_counts sb)) (map_of (pending_reserve sb))"

lemma assign_maps:
  "assign_reg v w r sb = Some sb' \<Longrightarrow> sb_owners sb' = sb_owners sb \<and> commit_counts sb' = commit_counts sb \<and> pending_reserve sb' = pending_reserve sb"
  by (auto simp: assign_reg_def Let_def split: if_splits bind_splits)

lemma reserve_maps:
  "sb_reserve t sb = Some sb' \<Longrightarrow> map_of (sb_owners sb') = (map_of (sb_owners sb))(trace_key t \<mapsto> t)
     \<and> map_of (sb_owners sb) (trace_key t) = None \<and> commit_counts sb' = commit_counts sb \<and> pending_reserve sb' = pending_reserve sb"
  by (auto simp: sb_reserve_def Let_def update_conv' trace_key_def split: if_splits bind_splits dest!: assign_maps)

lemma release_maps:
  "sb_release t sb = Some sb' \<Longrightarrow> map_of (sb_owners sb') = (map_of (sb_owners sb))(trace_key t := map_of (pending_reserve sb) (trace_key t))
     \<and> map_of (commit_counts sb') = (map_of (commit_counts sb))(trace_key t := None)
     \<and> map_of (pending_reserve sb') = (map_of (pending_reserve sb))(trace_key t := None)"
  by (auto simp: sb_release_def Let_def update_conv' delete_conv' trace_key_def split: if_splits bind_splits option.splits dest!: assign_maps)

lemma lift_maps:
  "lift_all es sb = Some sb' \<Longrightarrow>
     map_of (sb_owners sb') = (\<lambda>k. if k \<in> fst ` set es then None else map_of (sb_owners sb) k)
     \<and> map_of (commit_counts sb') = (\<lambda>k. if k \<in> fst ` set es then None else map_of (commit_counts sb) k)
     \<and> pending_reserve sb' = pending_reserve sb"
proof (induction es arbitrary: sb)
  case (Cons e es)
  obtain k t where e: "e = (k, t)" by fastforce
  obtain sb1 where sb1: "assign_reg False (tr_wid t) (tr_dst t) sb = Some sb1"
    "lift_all es (sb1\<lparr>sb_owners := AList.delete k (sb_owners sb1), commit_counts := AList.delete k (commit_counts sb1)\<rparr>) = Some sb'"
    using Cons.prems by (auto simp: e split: bind_splits)
  show ?case using Cons.IH[OF sb1(2)] assign_maps[OF sb1(1)] by (auto simp: e delete_conv' fun_eq_iff)
qed auto

lemma snapshot_maps:
  assumes "sb_ok nw sb" "snapshot_warp p w sb = Some (ts, sb')"
  shows "map_of (sb_owners sb') = (\<lambda>k. if k \<in> trace_key ` set ts then None else map_of (sb_owners sb) k)"
    "map_of (commit_counts sb') = (\<lambda>k. if k \<in> trace_key ` set ts then None else map_of (commit_counts sb) k)"
    "pending_reserve sb' = pending_reserve sb" "distinct (map trace_key ts)"
    "t \<in> set ts \<Longrightarrow> map_of (sb_owners sb) (trace_key t) = Some t \<and> tr_wid t = w \<and> p t \<and> tr_wb t"
proof -
  let ?es = "filter (\<lambda>(reg_id, t). tr_wid t = w \<and> p t) (sb_owners sb)"
  have s: "lift_all ?es sb = Some sb'" "ts = map snd ?es" using assms(2) by (auto simp: snapshot_warp_def Let_def)
  have h: "e \<in> set ?es \<Longrightarrow> holder_ok nw e" and d: "distinct (map fst (sb_owners sb))" for e using assms(1) by (auto simp: sb_ok_def)
  have k: "map trace_key ts = map fst ?es" unfolding s(2) map_map by (rule map_cong) (use h in \<open>auto simp: holder_ok_def\<close>)
  then have "trace_key ` set ts = fst ` set ?es" by (metis set_map)
  then show "map_of (sb_owners sb') = (\<lambda>k. if k \<in> trace_key ` set ts then None else map_of (sb_owners sb) k)"
    "map_of (commit_counts sb') = (\<lambda>k. if k \<in> trace_key ` set ts then None else map_of (commit_counts sb) k)"
    "pending_reserve sb' = pending_reserve sb" using lift_maps[OF s(1)] by simp_all
  show "distinct (map trace_key ts)" unfolding k using d by (rule distinct_map_filter)
  show "map_of (sb_owners sb) (trace_key t) = Some t \<and> tr_wid t = w \<and> p t \<and> tr_wb t" if "t \<in> set ts"
  proof -
    obtain e where e: "e \<in> set ?es" "t = snd e" using \<open>t \<in> set ts\<close> unfolding s(2) by auto
    then have "e = (trace_key t, t)" "tr_wb t" "e \<in> set (sb_owners sb)" "tr_wid t = w \<and> p t"
      using h[OF e(1)] by (auto simp: holder_ok_def prod_eq_iff)
    then show ?thesis using d by simp
  qed
qed

lemma key_wid: "nw \<le> 64 \<Longrightarrow> holder_ok nw (k, t) \<Longrightarrow> holder_ok nw (k, u) \<Longrightarrow> tr_wid t = tr_wid u"
  using reg_id_inj[of nw "tr_wid t" "tr_dst t" "tr_wid u" "tr_dst u"] by (auto simp: holder_ok_def trace_key_def)

lemma restore_flights:
  "sb_ok nw sb \<Longrightarrow> \<forall>t \<in> set ts. holder_ok nw (trace_key t, t) \<Longrightarrow> sb_flights sb (sv(w := ts)) fl
    \<Longrightarrow> \<exists>sb'. restore_warp ts sb = Some sb' \<and> sb_ok nw sb' \<and> sb_flights sb' (sv(w := [])) fl"
proof (induction ts arbitrary: sb)
  case (Cons t ts)
  have h: "holder_ok nw (trace_key t, t)" "\<forall>t \<in> set ts. holder_ok nw (trace_key t, t)" using Cons.prems(2) by simp_all
  have q: "\<forall>u. map_of (pending_reserve sb) (trace_key t) = Some u \<longrightarrow> tr_wid u = tr_wid t"
  proof (intro allI impI)
    fix u assume "map_of (pending_reserve sb) (trace_key t) = Some u"
    then have "holder_ok nw (trace_key t, u)" "nw \<le> 64" using Cons.prems(1) by (auto simp: sb_ok_def dest: map_of_SomeD)
    then show "tr_wid u = tr_wid t" using key_wid h(1) by blast
  qed
  note F = flights_mret[OF Cons.prems(3) q]
  show ?case
  proof (cases "map_of (sb_owners sb) (trace_key t) = None")
    case False
    have ok: "sb_ok nw (sb\<lparr>pending_reserve := AList.update (trace_key t) t (pending_reserve sb)\<rparr>)"
      using alist_update_mem h(1) Cons.prems(1) by (intro sb_ok_pending) (fastforce simp: sb_ok_def)+
    have "sb_flights (sb\<lparr>pending_reserve := AList.update (trace_key t) t (pending_reserve sb)\<rparr>) (sv(w := ts)) fl"
      using F(2)[OF False] by (simp add: update_conv')
    from Cons.IH[OF ok h(2) this] show ?thesis using False by (auto simp: Let_def trace_key_def)
  next
    case True
    then have "trace_key t \<notin> fst ` set (sb_owners sb)" by (simp add: owner_iff)
    then obtain m where m: "assign_reg True (tr_wid t) (tr_dst t) sb = Some (sb\<lparr>in_use_regs := m\<rparr>)"
      "sb_ok nw (sb\<lparr>in_use_regs := m, sb_owners := AList.update (trace_key t) t (sb_owners sb)\<rparr>)"
      using new_owner[OF Cons.prems(1) h(1)] by blast
    have "sb_flights (sb\<lparr>in_use_regs := m, sb_owners := AList.update (trace_key t) t (sb_owners sb)\<rparr>) (sv(w := ts)) fl"
      using F(1)[OF True] by (simp add: update_conv')
    from Cons.IH[OF m(2) h(2) this] show ?thesis using True m(1) by (simp add: Let_def trace_key_def)
  qed
qed simp

text \<open>A commit of a packet of an instruction that owns its destination: the last one hands the register on.\<close>

lemma commit_flights:
  assumes ok: "sb_ok nw sb" and F: "sb_flights sb sv fl" and t: "tr_wb t" "map_of (sb_owners sb) (trace_key t) = Some t"
  shows "\<exists>sb'. commit_trace t sb = Some sb' \<and> sb_ok nw sb' \<and> sb_flights sb' sv (fl(t := fl t - 1))
    \<and> map_of (sb_owners sb') (trace_key t) = (if fl t = 1 then map_of (pending_reserve sb) (trace_key t) else Some t)"
proof -
  let ?k = "trace_key t"
  note D = flightsD(1)[OF F t(2)]
  define n where "n = (case map_of (commit_counts sb) ?k of None \<Rightarrow> 0 | Some c \<Rightarrow> c) + 1"
  let ?s = "sb\<lparr>commit_counts := AList.update ?k n (commit_counts sb)\<rparr>"
  have n: "unat n = committed (map_of (commit_counts sb)) ?k + 1"
  proof -
    have "unat ((case map_of (commit_counts sb) ?k of None \<Rightarrow> 0 | Some c \<Rightarrow> c) :: u32) = committed (map_of (commit_counts sb)) ?k"
      by (simp add: committed_def split: option.splits)
    then show ?thesis unfolding n_def using D u32_bound[of "tr_num_pkts t"] by (subst unat_plus_no_wrap) auto
  qed
  then have last: "tr_num_pkts t \<le> n \<longleftrightarrow> fl t = 1" using D by (auto simp: word_le_nat_alt)
  have c: "commit_packet t sb = (fl t = 1, ?s)" using last by (simp add: commit_packet_def Let_def n_def trace_key_def)
  show ?thesis
  proof (cases "fl t = 1")
    case False
    then have "sb_flights ?s sv (fl(t := fl t - 1))" using flights_packet[OF F t(2) _ n] D by (simp add: update_conv')
    then show ?thesis using c t ok False by (simp add: commit_trace_def)
  next
    case True
    have h: "holder_ok nw (?k, t)" using map_of_SomeD[OF t(2)] ok by (simp add: sb_ok_def)
    have "owned ?s (tr_wid t) (tr_dst t)" using map_of_SomeD[OF t(2)] by (force simp: owned_def trace_key_def)
    then obtain sb' where r: "sb_release t ?s = Some sb'" "sb_ok nw sb'" using release_ok[of nw ?s t] ok h t(1) by (auto simp: holder_ok_def)
    have "sb_flights sb' sv (fl(t := fl t - 1))"
      using flights_release[OF F t(2) True] release_maps[OF r(1)] True by (simp add: update_conv')
    then show ?thesis using c t r True release_maps[OF r(1)] by (simp add: commit_trace_def)
  qed
qed

section \<open>Reachable states\<close>

text \<open>
  The pipeline drives the scoreboard: it issues instructions, each once, commits the packets of issued instructions in
  any order, and lifts and gives back the reservations of suspended instructions of a warp around an asynchronous
  trap.  Beside the scoreboard a state has the lifted reservations of each warp and, for each instruction, the
  number of packets it has still to commit.  Traps of a warp are taken one at a time; an instruction suspended
  at a trap has committed no packet and no reservation waits behind it.  A lifted or deferred instruction
  commits after it owns its destination again.
\<close>

inductive sb_reach :: "nat \<Rightarrow> scoreboard \<times> (u32 \<Rightarrow> strace list) \<times> (strace \<Rightarrow> nat) \<Rightarrow> bool" for nw where
  start: "sb_reach nw (scoreboard_reset nw, \<lambda>_. [], \<lambda>_. 0)"
| issue: "sb_reach nw (sb, sv, fl) \<Longrightarrow> trace_ok nw t \<Longrightarrow> tr_num_pkts t \<noteq> 0 \<Longrightarrow> fl t = 0 \<Longrightarrow> issue_trace t sb = Some (b, sb')
     \<Longrightarrow> sb_reach nw (sb', sv, if b then fl(t := unat (tr_num_pkts t)) else fl)"
| commit: "sb_reach nw (sb, sv, fl) \<Longrightarrow> 0 < fl t \<Longrightarrow> \<not> parked (map_of (pending_reserve sb)) sv t \<Longrightarrow> commit_trace t sb = Some sb'
     \<Longrightarrow> sb_reach nw (sb', sv, fl(t := fl t - 1))"
| trap: "sb_reach nw (sb, sv, fl) \<Longrightarrow> sv w = []
     \<Longrightarrow> (\<forall>t. suspended t \<and> map_of (sb_owners sb) (trace_key t) = Some t
            \<longrightarrow> fl t = unat (tr_num_pkts t) \<and> map_of (pending_reserve sb) (trace_key t) = None)
     \<Longrightarrow> snapshot_warp suspended w sb = Some (ts, sb') \<Longrightarrow> sb_reach nw (sb', sv(w := ts), fl)"
| mret: "sb_reach nw (sb, sv, fl) \<Longrightarrow> restore_warp (sv w) sb = Some sb' \<Longrightarrow> sb_reach nw (sb', sv(w := []), fl)"

definition sb_inv :: "nat \<Rightarrow> scoreboard \<times> (u32 \<Rightarrow> strace list) \<times> (strace \<Rightarrow> nat) \<Rightarrow> bool" where
  "sb_inv nw s \<longleftrightarrow> (case s of (sb, sv, fl) \<Rightarrow> sb_ok nw sb \<and> (\<forall>w. \<forall>t \<in> set (sv w). holder_ok nw (trace_key t, t)) \<and> sb_flights sb sv fl)"

lemma inv_start: "nw \<le> 64 \<Longrightarrow> sb_inv nw (scoreboard_reset nw, \<lambda>_. [], \<lambda>_. 0)"
  by (simp add: sb_inv_def sb_ok_reset flights_def) (simp add: scoreboard_reset_def parked_def)

lemma inv_issue:
  assumes i: "sb_inv nw (sb, sv, fl)" and t: "trace_ok nw t" "tr_num_pkts t \<noteq> 0" "fl t = 0" and s: "issue_trace t sb = Some (b, sb')"
  shows "sb_inv nw (sb', sv, if b then fl(t := unat (tr_num_pkts t)) else fl)"
proof -
  have ok: "sb_ok nw sb" and F: "sb_flights sb sv fl" using i by (simp_all add: sb_inv_def)
  have r: "b = (\<not> blocked sb t)" "sb_ok nw sb'" "blocked sb t \<longrightarrow> sb' = sb" using issue_ok[OF ok t(1)] s by auto
  have "sb_flights sb' sv (fl(t := unat (tr_num_pkts t)))" if b: "b"
  proof -
    have "map_of (sb_owners sb') = (if tr_wb t then (map_of (sb_owners sb))(trace_key t \<mapsto> t) else map_of (sb_owners sb))"
      "commit_counts sb' = commit_counts sb" "pending_reserve sb' = pending_reserve sb" "tr_wb t \<Longrightarrow> map_of (sb_owners sb) (trace_key t) = None"
      using s b reserve_maps[of t sb sb'] by (auto simp: issue_trace_def issue_reserve_def split: bind_splits if_splits)
    then show ?thesis using flights_issue[OF F t(3,2)] by simp
  qed
  then show ?thesis using i r F by (auto simp: sb_inv_def)
qed

lemma inv_commit:
  assumes i: "sb_inv nw (sb, sv, fl)" and t: "0 < fl t" "\<not> parked (map_of (pending_reserve sb)) sv t"
  shows "\<exists>sb'. commit_trace t sb = Some sb' \<and> sb_inv nw (sb', sv, fl(t := fl t - 1))
    \<and> (tr_wb t \<longrightarrow> map_of (sb_owners sb) (trace_key t) = Some t
         \<and> map_of (sb_owners sb') (trace_key t) = (if fl t = 1 then map_of (pending_reserve sb) (trace_key t) else Some t))"
proof (cases "tr_wb t")
  case True
  have ok: "sb_ok nw sb" and F: "sb_flights sb sv fl" using i by (simp_all add: sb_inv_def)
  have o: "map_of (sb_owners sb) (trace_key t) = Some t" using flightsD(6)[OF F True t(1)] t(2) by blast
  show ?thesis using commit_flights[OF ok F True o] i o by (auto simp: sb_inv_def)
next
  case False
  have F: "sb_flights sb sv fl" using i by (simp add: sb_inv_def)
  note D = flightsD[OF F]
  have "flights (map_of (sb_owners sb)) (map_of (commit_counts sb)) (map_of (pending_reserve sb)) sv (fl(t := fl t - 1))"
  proof (rule flightsI)
    fix k u
    show "map_of (sb_owners sb) k = Some u \<Longrightarrow> k = trace_key u \<and> 0 < (fl(t := fl t - 1)) u
        \<and> (fl(t := fl t - 1)) u + committed (map_of (commit_counts sb)) k = unat (tr_num_pkts u) \<and> \<not> parked (map_of (pending_reserve sb)) sv u"
      using D(1)[of k u] False i by (auto simp: sb_inv_def sb_ok_def holder_ok_def dest!: map_of_SomeD)
    show "map_of (pending_reserve sb) k = Some u \<Longrightarrow> k = trace_key u \<and> whole (fl(t := fl t - 1)) u \<and> k \<notin> trace_key ` set (sv (tr_wid u))"
      using D(3)[of k u] False by (auto simp: whole_def)
    show "u \<in> set (sv w) \<Longrightarrow> tr_wid u = w \<and> whole (fl(t := fl t - 1)) u" for w using D(4)[of u w] False by (auto simp: whole_def)
    show "tr_wb u \<Longrightarrow> 0 < (fl(t := fl t - 1)) u \<Longrightarrow> map_of (sb_owners sb) (trace_key u) = Some u \<or> parked (map_of (pending_reserve sb)) sv u"
      using D(6)[of u] False by (auto split: if_splits)
  qed (use D(2,5) in auto)
  then show ?thesis using i False by (simp add: commit_trace_def sb_inv_def)
qed

lemma inv_trap:
  assumes i: "sb_inv nw (sb, sv, fl)" and w: "sv w = []" and s: "snapshot_warp suspended w sb = Some (ts, sb')"
    and e: "\<forall>t. suspended t \<and> map_of (sb_owners sb) (trace_key t) = Some t
      \<longrightarrow> fl t = unat (tr_num_pkts t) \<and> map_of (pending_reserve sb) (trace_key t) = None"
  shows "sb_inv nw (sb', sv(w := ts), fl)"
proof -
  have ok: "sb_ok nw sb" and F: "sb_flights sb sv fl" using i by (simp_all add: sb_inv_def)
  note m = snapshot_maps[OF ok s]
  have "map_of (sb_owners sb) (trace_key t) = Some t \<and> tr_wid t = w \<and> whole fl t \<and> map_of (pending_reserve sb) (trace_key t) = None"
    if "t \<in> set ts" for t
    using m(5)[OF that] e flightsD(1)[OF F, of "trace_key t" t] by (simp add: whole_def)
  from flights_trap[OF F w m(4) this] have "sb_flights sb' (sv(w := ts)) fl" unfolding m(1-3) .
  then show ?thesis using snapshot_ok[OF ok, of suspended w] s i by (auto simp: sb_inv_def)
qed

lemma inv_mret:
  assumes i: "sb_inv nw (sb, sv, fl)"
  shows "\<exists>sb'. restore_warp (sv w) sb = Some sb' \<and> sb_inv nw (sb', sv(w := []), fl)"
proof -
  have "\<exists>sb'. restore_warp (sv w) sb = Some sb' \<and> sb_ok nw sb' \<and> sb_flights sb' (sv(w := [])) fl"
    by (rule restore_flights) (use i in \<open>simp_all add: sb_inv_def\<close>)
  then show ?thesis using i by (auto simp: sb_inv_def)
qed

lemma sb_reach_inv: "sb_reach nw s \<Longrightarrow> nw \<le> 64 \<Longrightarrow> sb_inv nw s"
proof (induction rule: sb_reach.induct)
  case start
  then show ?case by (rule inv_start)
next
  case (issue sb sv fl t b sb')
  then show ?case using inv_issue[of nw sb sv fl t b sb'] by blast
next
  case (commit sb sv fl t sb')
  then show ?case using inv_commit[of nw sb sv fl t] by auto
next
  case (trap sb sv fl w suspended ts sb')
  then show ?case using inv_trap[of nw sb sv fl w suspended ts sb'] by blast
next
  case (mret sb sv fl w sb')
  then show ?case using inv_mret[of nw sb sv fl w] by auto
qed


definition load_x5 :: strace where
  "load_x5 = \<lparr>tr_uuid = 7, tr_wid = 1, tr_wb = True, tr_dst = \<lparr>opd_type = RT_Integer, opd_idx = 5\<rparr>,
     tr_srcs = [\<lparr>opd_type = RT_Integer, opd_idx = 10\<rparr>, \<lparr>opd_type = RT_None, opd_idx = 0\<rparr>], tr_num_pkts = 2\<rparr>"


end
