(* ===== verification/Scheduler.thy ===== *)
theory Scheduler
  imports Cta_Dispatcher Scoreboard
begin

text \<open>
  The warp scheduler of a core, \<open>src/vortex/sim/simx/scheduler.cpp\<close>, built without the raster extension: warp state,
  the pick of the next warp, stalling and release, thread masks, \<open>wspawn\<close>, traps and their return.  A failed
  assertion or an access outside a vector is \<open>None\<close>.  The flush of the pipeline at an asynchronous trap is an
  argument (the program counter of the oldest flushed instruction); the cycle counter of the platform is one too.
\<close>

unbundle bit_operations_syntax

section \<open>State\<close>

record (overloaded) 'w ipdom_entry_t =
  orig_tmask :: "'w::len bitvector"
  else_PC :: "'w word"
  fallthrough :: bool

record cta_csrs_t =
  csr_cta_id :: u32
  csr_cta_rank :: u32
  csr_cta_size :: u32
  csr_thread_idx :: dim3
  csr_block_idx :: dim3
  csr_block_dim :: dim3
  csr_grid_dim :: dim3
  csr_entry :: u64
  csr_lmem_addr :: u64
  csr_cluster_size :: u32

record (overloaded) 'w warp_t =
  ipdom_stack :: "'w::len ipdom_entry_t list"
  w_tmask :: "'w bitvector"
  w_PC :: "'w word"
  w_fcsr :: u8
  w_uuid :: u32
  w_mscratch :: "'w word"
  w_mstatus :: "'w word"
  w_mtvec :: "'w word"
  w_mepc :: "'w word"
  w_mcause :: "'w word"
  w_mtval :: "'w word"
  mscratch_tmask :: "'w bitvector"
  w_cta_csrs :: cta_csrs_t

definition cta_csrs_new :: cta_csrs_t where
  "cta_csrs_new = \<lparr>csr_cta_id = 0, csr_cta_rank = 0, csr_cta_size = 0, csr_thread_idx = mk_dim3 0 0 0,
     csr_block_idx = mk_dim3 0 0 0, csr_block_dim = mk_dim3 1 1 1, csr_grid_dim = mk_dim3 1 1 1, csr_entry = 0,
     csr_lmem_addr = 0, csr_cluster_size = 1\<rparr>"

text \<open>The register \<open>fcsr\<close> has no value before the first reset; it is 0 here.\<close>

definition warp_new :: "nat \<Rightarrow> 'w::len warp_t" where
  "warp_new num_threads = \<lparr>ipdom_stack = [], w_tmask = bv_new num_threads, w_PC = 0, w_fcsr = 0, w_uuid = 0, w_mscratch = 0,
     w_mstatus = 0, w_mtvec = 0, w_mepc = 0, w_mcause = 0, w_mtval = 0, mscratch_tmask = bv_new num_threads,
     w_cta_csrs = cta_csrs_new\<rparr>"

definition warp_reset :: "'w::len warp_t \<Rightarrow> 'w warp_t" where
  "warp_reset w = w\<lparr>w_tmask := bv_reset_all (w_tmask w), w_PC := 0, w_uuid := 0, w_fcsr := 0, w_mstatus := 0, w_mtvec := 0,
     w_mepc := 0, w_mcause := 0, w_mtval := 0, mscratch_tmask := bv_reset_all (mscratch_tmask w)\<rparr>"

record (overloaded) 'w scheduler =
  sch_warps :: "'w::len warp_t list"
  active_warps :: warp_mask
  stalled_warps :: warp_mask
  stalled_warps_next :: warp_mask
  in_async_trap :: "bool list"
  trap_epoch :: "u32 list"
  last_mret_cycle :: "u64 list"
  async_trap_snapshot :: "strace list list"
  wspawn_valid :: bool
  wspawn_num_warps :: u32
  wspawn_nextPC :: "'w word"
  cta_disp :: "'w cta_dispatcher"

definition scheduler_new :: "disp_cfg \<Rightarrow> 'w::len scheduler" where
  "scheduler_new cfg =
     (let nw = unat (cfg_num_warps cfg)
      in \<lparr>sch_warps = replicate nw (warp_new (unat (cfg_num_threads cfg))), active_warps = {}, stalled_warps = {},
          stalled_warps_next = {}, in_async_trap = replicate nw False, trap_epoch = replicate nw 0,
          last_mret_cycle = replicate nw 0, async_trap_snapshot = replicate nw [], wspawn_valid = False,
          wspawn_num_warps = 0, wspawn_nextPC = 0, cta_disp = dispatcher_init cfg\<rparr>)"

definition scheduler_on_reset :: "disp_cfg \<Rightarrow> 'w::len scheduler \<Rightarrow> 'w scheduler" where
  "scheduler_on_reset cfg s = s\<lparr>sch_warps := map warp_reset (sch_warps s), stalled_warps := {}, stalled_warps_next := {},
     active_warps := {}, in_async_trap := map (\<lambda>_. False) (in_async_trap s), trap_epoch := map (\<lambda>_. 0) (trap_epoch s),
     wspawn_valid := False, cta_disp := dispatcher_on_reset cfg (cta_disp s)\<rparr>"

section \<open>Activation\<close>

definition csrs_of_record :: "'w::len cta_warp_record_t \<Rightarrow> cta_csrs_t" where
  "csrs_of_record r = \<lparr>csr_cta_id = rec_cta_id r, csr_cta_rank = rec_cta_rank r, csr_cta_size = rec_cta_size r,
     csr_thread_idx = rec_thread_idx r, csr_block_idx = rec_block_idx r, csr_block_dim = rec_block_dim r,
     csr_grid_dim = rec_grid_dim r, csr_entry = ucast (rec_entry r), csr_lmem_addr = rec_lmem_addr r,
     csr_cluster_size = rec_cluster_size r\<rparr>"

definition activate_warp :: "nat \<Rightarrow> 'w::len cta_warp_record_t \<Rightarrow> 'w scheduler \<Rightarrow> 'w scheduler option" where
  "activate_warp wid r s =
     do {
       w \<leftarrow> vec_get (sch_warps s) wid;
       let w1 = w\<lparr>w_PC := (if rec_do_init r then rec_PC r else w_PC w - 20), w_tmask := rec_tmask r, w_mscratch := rec_mscratch r,
                  w_cta_csrs := csrs_of_record r, ipdom_stack := []\<rparr>;
       ws \<leftarrow> vec_put (sch_warps s) wid w1;
       Some (s\<lparr>sch_warps := ws, active_warps := insert wid (active_warps s), stalled_warps := stalled_warps s - {wid},
               stalled_warps_next := stalled_warps_next s - {wid}\<rparr>)
     }"

definition suspend :: "nat \<Rightarrow> 'w::len scheduler \<Rightarrow> 'w scheduler option" where
  "suspend wid s =
     (if wid \<in> active_warps s \<and> wid \<notin> stalled_warps_next s
      then Some (s\<lparr>stalled_warps_next := insert wid (stalled_warps_next s)\<rparr>) else None)"

definition resume :: "nat \<Rightarrow> 'w::len scheduler \<Rightarrow> 'w scheduler option" where
  "resume wid s =
     (if wid \<in> active_warps s \<and> wid \<in> stalled_warps_next s
      then Some (s\<lparr>stalled_warps_next := stalled_warps_next s - {wid}\<rparr>) else None)"

text \<open>One warp of a pending \<open>wspawn\<close>: lane 0 is added to the mask the slot has.\<close>

definition spawn_one :: "'w::len word \<Rightarrow> nat \<Rightarrow> 'w scheduler \<Rightarrow> 'w scheduler option" where
  "spawn_one scratch i s =
     do {
       w \<leftarrow> vec_get (sch_warps s) i;
       m \<leftarrow> bv_set (w_tmask w) 0;
       ws \<leftarrow> vec_put (sch_warps s) i (w\<lparr>w_PC := wspawn_nextPC s, w_tmask := m, w_mscratch := scratch\<rparr>);
       Some (s\<lparr>sch_warps := ws, active_warps := insert i (active_warps s), stalled_warps := stalled_warps s - {i},
               stalled_warps_next := stalled_warps_next s - {i}\<rparr>)
     }"

definition process_wspawn :: "'w::len scheduler \<Rightarrow> 'w scheduler option" where
  "process_wspawn s =
     (if wspawn_valid s \<and> card (active_warps s) = 1 then
        do {
          w0 \<leftarrow> vec_get (sch_warps s) 0;
          s1 \<leftarrow> fold (\<lambda>i acc. Option.bind acc (spawn_one (w_mscratch w0) i)) [1..<unat (wspawn_num_warps s)] (Some s);
          resume 0 (s1\<lparr>wspawn_valid := False\<rparr>)
        }
      else Some s)"

section \<open>The cycle\<close>

record (overloaded) 'w fetch_req =
  f_uuid :: u64
  f_wid :: nat
  f_cta_id :: u32
  f_PC :: "'w::len word"
  f_tmask :: "'w bitvector"
  f_epoch :: u32

definition pick_warp :: "disp_cfg \<Rightarrow> warp_mask \<Rightarrow> 'w::len scheduler \<Rightarrow> nat option" where
  "pick_warp cfg ready s =
     List.find (\<lambda>wid. wid \<in> active_warps s \<and> wid \<notin> stalled_warps s \<and> wid \<in> ready) [0..<unat (cfg_num_warps cfg)]"

definition make_fetch :: "disp_cfg \<Rightarrow> u32 \<Rightarrow> nat \<Rightarrow> 'w::len scheduler \<Rightarrow> ('w fetch_req \<times> 'w scheduler) option" where
  "make_fetch cfg core_id wid s =
     do {
       w \<leftarrow> vec_get (sch_warps s) wid;
       if \<not> bv_any (w_tmask w) then None
       else do {
         ws \<leftarrow> vec_put (sch_warps s) wid (w\<lparr>w_uuid := w_uuid w + 1\<rparr>);
         e \<leftarrow> vec_get (trap_epoch s) wid;
         let g_wid = core_id * cfg_num_warps cfg + of_nat wid;
         s1 \<leftarrow> suspend wid (s\<lparr>sch_warps := ws\<rparr>);
         Some (\<lparr>f_uuid = push_bit 32 (ucast g_wid) OR ucast (w_uuid w), f_wid = wid, f_cta_id = csr_cta_id (w_cta_csrs w),
                f_PC = w_PC w, f_tmask = w_tmask w, f_epoch = e\<rparr>, s1)
       }
     }"

definition schedule :: "disp_cfg \<Rightarrow> u32 \<Rightarrow> warp_mask \<Rightarrow> kmu \<Rightarrow> 'w::len scheduler
    \<Rightarrow> ('w fetch_req option \<times> kmu \<times> 'w scheduler) option" where
  "schedule cfg core_id ready k s =
     do {
       (out, k1, d1) \<leftarrow> dispatcher_step cfg (active_warps s) k (cta_disp s);
       s1 \<leftarrow> (case out of
                None \<Rightarrow> Some (s\<lparr>cta_disp := d1\<rparr>)
              | Some (wid, r) \<Rightarrow> activate_warp wid r (s\<lparr>cta_disp := d1\<rparr>));
       s2 \<leftarrow> process_wspawn s1;
       (case pick_warp cfg ready s2 of
          None \<Rightarrow> Some (None, k1, s2\<lparr>stalled_warps := stalled_warps_next s2\<rparr>)
        | Some wid \<Rightarrow>
            do {
              (f, s3) \<leftarrow> make_fetch cfg core_id wid s2;
              Some (Some f, k1, s3\<lparr>stalled_warps := stalled_warps_next s3\<rparr>)
            })
     }"

definition sched_running :: "kmu \<Rightarrow> 'w::len scheduler \<Rightarrow> bool" where
  "sched_running k s \<longleftrightarrow> active_warps s \<noteq> {} \<or> dispatcher_running k (cta_disp s)"

section \<open>Warp operations\<close>

definition update_warp :: "nat \<Rightarrow> ('w::len warp_t \<Rightarrow> 'w warp_t) \<Rightarrow> 'w scheduler \<Rightarrow> 'w scheduler option" where
  "update_warp wid f s =
     do {
       w \<leftarrow> vec_get (sch_warps s) wid;
       ws \<leftarrow> vec_put (sch_warps s) wid (f w);
       Some (s\<lparr>sch_warps := ws\<rparr>)
     }"

definition advance_pc :: "nat \<Rightarrow> u32 \<Rightarrow> u32 \<Rightarrow> 'w::len scheduler \<Rightarrow> 'w scheduler option" where
  "advance_pc wid epoch inc s =
     do {
       e \<leftarrow> vec_get (trap_epoch s) wid;
       if epoch \<noteq> e then Some s else update_warp wid (\<lambda>w. w\<lparr>w_PC := w_PC w + ucast inc\<rparr>) s
     }"

definition setTmask :: "disp_cfg \<Rightarrow> nat \<Rightarrow> 'w::len bitvector \<Rightarrow> 'w scheduler \<Rightarrow> (bool \<times> 'w scheduler) option" where
  "setTmask cfg wid m s =
     do {
       s1 \<leftarrow> update_warp wid (\<lambda>w. w\<lparr>w_tmask := m\<rparr>) s;
       if bv_any m then Some (True, s1)
       else do {
         d \<leftarrow> warp_done cfg (cta_disp s1) wid;
         Some (False, s1\<lparr>active_warps := active_warps s1 - {wid}, cta_disp := d\<rparr>)
       }
     }"

definition wspawn :: "disp_cfg \<Rightarrow> u32 \<Rightarrow> 'w::len word \<Rightarrow> 'w scheduler \<Rightarrow> bool \<times> 'w scheduler" where
  "wspawn cfg num nextPC s =
     (let n = min num (cfg_num_warps cfg)
      in if n < 2 \<and> card (active_warps s) = 1 then (True, s)
         else (False, s\<lparr>wspawn_valid := True, wspawn_num_warps := n, wspawn_nextPC := nextPC\<rparr>))"

section \<open>Traps\<close>

definition trap_warp :: "'w::len word \<Rightarrow> 'w word \<Rightarrow> 'w warp_t \<Rightarrow> 'w warp_t" where
  "trap_warp cause trap_pc w = w\<lparr>w_mepc := trap_pc, w_mcause := cause, w_mtval := 0, mscratch_tmask := w_tmask w,
     w_PC := w_mtvec w AND NOT 3\<rparr>"

definition raise_trap :: "nat \<Rightarrow> 'w::len word \<Rightarrow> 'w word \<Rightarrow> 'w scheduler \<Rightarrow> 'w scheduler option" where
  "raise_trap wid cause trap_pc s = update_warp wid (trap_warp cause trap_pc) s"

definition raise_async_trap :: "(strace \<Rightarrow> bool) \<Rightarrow> 'w::len word \<Rightarrow> nat \<Rightarrow> 'w word \<Rightarrow> 'w word \<Rightarrow> 'w bitvector
    \<Rightarrow> 'w scheduler \<times> scoreboard \<Rightarrow> ('w scheduler \<times> scoreboard) option" where
  "raise_async_trap suspended flushed_pc wid cause trap_pc new_tmask st =
     do {
       s1 \<leftarrow> raise_trap wid cause (if flushed_pc = 0 then trap_pc else flushed_pc) (fst st);
       s2 \<leftarrow> update_warp wid (\<lambda>w. w\<lparr>w_tmask := new_tmask\<rparr>) s1;
       ia \<leftarrow> vec_put (in_async_trap s2) wid True;
       s3 \<leftarrow> (if wid \<in> stalled_warps_next s2 then resume wid (s2\<lparr>in_async_trap := ia\<rparr>) else Some (s2\<lparr>in_async_trap := ia\<rparr>));
       (ts, sb) \<leftarrow> snapshot_warp suspended (of_nat wid) (snd st);
       sn \<leftarrow> vec_put (async_trap_snapshot s3) wid ts;
       e \<leftarrow> vec_get (trap_epoch s3) wid;
       es \<leftarrow> vec_put (trap_epoch s3) wid (e + 1);
       Some (s3\<lparr>async_trap_snapshot := sn, trap_epoch := es\<rparr>, sb)
     }"

definition mret :: "u64 \<Rightarrow> nat \<Rightarrow> 'w::len scheduler \<times> scoreboard \<Rightarrow> ('w scheduler \<times> scoreboard) option" where
  "mret cycles wid st =
     do {
       s1 \<leftarrow> update_warp wid (\<lambda>w. w\<lparr>w_PC := w_mepc w, w_tmask := (if bv_any (mscratch_tmask w) then mscratch_tmask w else w_tmask w)\<rparr>) (fst st);
       ts \<leftarrow> vec_get (async_trap_snapshot s1) wid;
       sb \<leftarrow> restore_warp ts (snd st);
       sn \<leftarrow> vec_put (async_trap_snapshot s1) wid [];
       ia \<leftarrow> vec_put (in_async_trap s1) wid False;
       lm \<leftarrow> vec_put (last_mret_cycle s1) wid cycles;
       Some (s1\<lparr>async_trap_snapshot := sn, in_async_trap := ia, last_mret_cycle := lm\<rparr>, sb)
     }"

definition trigger_ecall :: "nat \<Rightarrow> 'w::len word \<Rightarrow> 'w scheduler \<Rightarrow> 'w scheduler option" where
  "trigger_ecall wid trap_pc = raise_trap wid 11 trap_pc"

definition trigger_ebreak :: "nat \<Rightarrow> 'w::len word \<Rightarrow> 'w scheduler \<Rightarrow> 'w scheduler option" where
  "trigger_ebreak wid trap_pc = raise_trap wid 3 trap_pc"

section \<open>Masks\<close>

definition mask_ok :: "nat \<Rightarrow> 'w::len bitvector \<Rightarrow> bool" where
  "mask_ok nt m \<longleftrightarrow> bv_ok m \<and> bv_size m = nt"

lemma mask_test: "mask_ok nt m \<Longrightarrow> t < nt \<Longrightarrow> bv_test m t = Some (t \<in> bv_bits m)"
  using tm.probe_law[of m t] by (simp add: mask_ok_def)

lemma mask_bits: "mask_ok nt m \<Longrightarrow> t \<in> bv_bits m \<Longrightarrow> t < nt"
  using tm.valid_members[of m] by (auto simp: mask_ok_def)

lemma mask_any: "mask_ok nt m \<Longrightarrow> bv_any m \<longleftrightarrow> bv_bits m \<noteq> {}"
  using tm.nonempty_law[of m] by (simp add: mask_ok_def)

lemma mask_count: "mask_ok nt m \<Longrightarrow> bv_count m = card (bv_bits m)"
  using tm.population_law[of m] by (simp add: mask_ok_def)

lemma mask_finite: "mask_ok nt m \<Longrightarrow> finite (bv_bits m)"
  using tm.finite_members[of m] by (simp add: mask_ok_def)

section \<open>The invariant\<close>

definition warp_ok :: "nat \<Rightarrow> 'w::len warp_t \<Rightarrow> bool" where
  "warp_ok nt w \<longleftrightarrow> mask_ok nt (w_tmask w) \<and> mask_ok nt (mscratch_tmask w)"

definition sched_ok :: "disp_cfg \<Rightarrow> (kmu_req_t \<Rightarrow> bool) \<Rightarrow> 'w::len scheduler \<Rightarrow> bool" where
  "sched_ok cfg P s \<longleftrightarrow> length (sch_warps s) = NW cfg \<and> length (trap_epoch s) = NW cfg
     \<and> core_ok cfg P (active_warps s) (cta_disp s)
     \<and> active_warps s \<subseteq> {..<NW cfg} \<and> stalled_warps_next s \<subseteq> stalled_warps s
     \<and> list_all (warp_ok (NT cfg)) (sch_warps s)
     \<and> (\<forall>w \<in> active_warps s. bv_bits (w_tmask (sch_warps s ! w)) \<noteq> {})
     \<and> (wspawn_valid s \<longrightarrow> 0 \<in> active_warps s \<and> 0 \<in> stalled_warps_next s \<and> unat (wspawn_num_warps s) \<le> NW cfg)"

lemma sched_warp:
  assumes "sched_ok cfg P s" "w < NW cfg"
  shows "w < length (sch_warps s)" "warp_ok (NT cfg) (sch_warps s ! w)"
  using assms by (auto simp: sched_ok_def list_all_length)

lemma record_mask:
  assumes "cfg_ok cfg" "record_ok cfg r rec"
  shows "mask_ok (NT cfg) (rec_tmask rec)" "bv_bits (rec_tmask rec) \<noteq> {}"
proof -
  show "mask_ok (NT cfg) (rec_tmask rec)" using assms(2) by (simp add: record_ok_def mask_ok_def)
  have "unat (rec_cta_rank rec) * NT cfg < req_threads r"
    using assms warps_of_bound[OF assms(1), of "unat (rec_cta_rank rec)" "req_block_size r"] by (simp add: record_ok_def req_threads_def)
  moreover have "0 < NT cfg" using assms(1) by (simp add: cfg_ok_def word_gt_0 unat_gt_0)
  ultimately have "0 \<in> bv_bits (rec_tmask rec)" using assms(2) by (simp add: record_ok_def)
  then show "bv_bits (rec_tmask rec) \<noteq> {}" by blast
qed

lemma activate_ok:
  assumes ok: "sched_ok cfg P s" and core: "core_ok cfg P (insert w (active_warps s)) d" and w: "w < NW cfg" "w \<notin> active_warps s"
    and m: "mask_ok (NT cfg) (rec_tmask r)" "bv_bits (rec_tmask r) \<noteq> {}"
  shows "\<exists>s'. activate_warp w r (s\<lparr>cta_disp := d\<rparr>) = Some s' \<and> sched_ok cfg P s' \<and> active_warps s' = insert w (active_warps s)
    \<and> stalled_warps s' = stalled_warps s - {w} \<and> stalled_warps_next s' = stalled_warps_next s - {w} \<and> wspawn_valid s' = wspawn_valid s"
proof -
  note l = sched_warp[OF ok w(1)]
  let ?v = "(sch_warps s ! w)\<lparr>w_PC := (if rec_do_init r then rec_PC r else w_PC (sch_warps s ! w) - 20), w_tmask := rec_tmask r,
    w_mscratch := rec_mscratch r, w_cta_csrs := csrs_of_record r, ipdom_stack := []\<rparr>"
  let ?s = "s\<lparr>cta_disp := d, sch_warps := (sch_warps s)[w := ?v], active_warps := insert w (active_warps s),
    stalled_warps := stalled_warps s - {w}, stalled_warps_next := stalled_warps_next s - {w}\<rparr>"
  have a: "activate_warp w r (s\<lparr>cta_disp := d\<rparr>) = Some ?s" using l(1) by (simp add: activate_warp_def vec_get_def vec_put_def)
  have "warp_ok (NT cfg) ?v" using l(2) m(1) by (simp add: warp_ok_def)
  then have "list_all (warp_ok (NT cfg)) ((sch_warps s)[w := ?v])" using ok by (intro list_all_update) (simp_all add: sched_ok_def)
  moreover have "bv_bits (w_tmask ((sch_warps s)[w := ?v] ! u)) \<noteq> {}" if "u \<in> insert w (active_warps s)" for u
    using that ok l(1) m(2) by (auto simp: sched_ok_def nth_list_update)
  moreover have "w \<noteq> 0" if "wspawn_valid s" using that ok w(2) by (auto simp: sched_ok_def)
  ultimately have "sched_ok cfg P ?s" using ok core w(1) by (auto simp: sched_ok_def)
  then show ?thesis using a by auto
qed

lemma resume_ok:
  assumes "sched_ok cfg P s" "w \<in> active_warps s" "w \<in> stalled_warps_next s" "wspawn_valid s \<Longrightarrow> w \<noteq> 0"
  shows "resume w s = Some (s\<lparr>stalled_warps_next := stalled_warps_next s - {w}\<rparr>)"
    "sched_ok cfg P (s\<lparr>stalled_warps_next := stalled_warps_next s - {w}\<rparr>)"
  using assms by (auto simp: sched_ok_def resume_def)

lemma spawn_one_ok:
  assumes ok: "sched_ok cfg P s" and i: "i < NW cfg" "0 < i" "0 < NT cfg"
  shows "\<exists>s'. spawn_one sc i s = Some s' \<and> sched_ok cfg P s' \<and> active_warps s' = insert i (active_warps s)
    \<and> stalled_warps s' = stalled_warps s - {i} \<and> stalled_warps_next s' = stalled_warps_next s - {i} \<and> wspawn_valid s' = wspawn_valid s"
proof -
  note l = sched_warp[OF ok i(1)]
  obtain m where m: "bv_set (w_tmask (sch_warps s ! i)) 0 = Some m" "mask_ok (NT cfg) m" "0 \<in> bv_bits m"
    using tm.assign_law[of "w_tmask (sch_warps s ! i)" 0 True] l(2) i(3) by (auto simp: warp_ok_def mask_ok_def bv_set_to_def)
  let ?v = "(sch_warps s ! i)\<lparr>w_PC := wspawn_nextPC s, w_tmask := m, w_mscratch := sc\<rparr>"
  let ?s = "s\<lparr>sch_warps := (sch_warps s)[i := ?v], active_warps := insert i (active_warps s),
    stalled_warps := stalled_warps s - {i}, stalled_warps_next := stalled_warps_next s - {i}\<rparr>"
  have a: "spawn_one sc i s = Some ?s" using l(1) m(1) by (simp add: spawn_one_def vec_get_def vec_put_def)
  have "warp_ok (NT cfg) ?v" using l(2) m(2) by (simp add: warp_ok_def)
  then have "list_all (warp_ok (NT cfg)) ((sch_warps s)[i := ?v])" using ok by (intro list_all_update) (simp_all add: sched_ok_def)
  moreover have "bv_bits (w_tmask ((sch_warps s)[i := ?v] ! u)) \<noteq> {}" if "u \<in> insert i (active_warps s)" for u
    using that ok l(1) m(3) by (auto simp: sched_ok_def nth_list_update)
  moreover have "core_ok cfg P (insert i (active_warps s)) (cta_disp s)" using ok by (auto simp: sched_ok_def core_ok_def assigned_active_def)
  ultimately have "sched_ok cfg P ?s" using ok i by (auto simp: sched_ok_def)
  then show ?thesis using a by auto
qed

lemma spawn_fold_ok:
  assumes "sched_ok cfg P s" "n \<le> NW cfg" "0 < NT cfg"
  shows "\<exists>s'. fold (\<lambda>i acc. Option.bind acc (spawn_one sc i)) [1..<n] (Some s) = Some s' \<and> sched_ok cfg P s'
    \<and> active_warps s' = active_warps s \<union> {1..<n} \<and> stalled_warps s' = stalled_warps s - {1..<n}
    \<and> stalled_warps_next s' = stalled_warps_next s - {1..<n} \<and> wspawn_valid s' = wspawn_valid s"
  using assms(2)
proof (induction n)
  case (Suc n)
  show ?case
  proof (cases "n = 0")
    case False
    then have u: "[1..<Suc n] = [1..<n] @ [n]" "{1..<Suc n} = insert n {1..<n}" by auto
    obtain s' where s': "fold (\<lambda>i acc. Option.bind acc (spawn_one sc i)) [1..<n] (Some s) = Some s'" "sched_ok cfg P s'"
      "active_warps s' = active_warps s \<union> {1..<n}" "stalled_warps s' = stalled_warps s - {1..<n}"
      "stalled_warps_next s' = stalled_warps_next s - {1..<n}" "wspawn_valid s' = wspawn_valid s" using Suc by auto
    show ?thesis using spawn_one_ok[OF s'(2), of n sc] s' Suc.prems False assms(3) by (auto simp: u)
  qed (use assms(1) in simp)
qed (use assms(1) in simp)

lemma process_wspawn_ok:
  assumes ok: "sched_ok cfg P s" and nt: "0 < NT cfg"
  shows "\<exists>s'. process_wspawn s = Some s' \<and> sched_ok cfg P s' \<and> active_warps s \<subseteq> active_warps s' \<and> stalled_warps s' \<subseteq> stalled_warps s
    \<and> active_warps s \<inter> stalled_warps s \<subseteq> stalled_warps s'
    \<and> active_warps s \<inter> stalled_warps_next s - (if wspawn_valid s \<and> \<not> wspawn_valid s' then {0} else {}) \<subseteq> stalled_warps_next s'"
proof (cases "wspawn_valid s \<and> card (active_warps s) = 1")
  case True
  then have z: "0 \<in> active_warps s" "0 \<in> stalled_warps_next s" "unat (wspawn_num_warps s) \<le> NW cfg" using ok by (simp_all add: sched_ok_def)
  then have only: "active_warps s = {0}" using True by (auto simp: card_1_singleton_iff)
  have l: "0 < length (sch_warps s)" using ok z(1) by (auto simp: sched_ok_def)
  obtain s1 where s1: "fold (\<lambda>i acc. Option.bind acc (spawn_one (w_mscratch (sch_warps s ! 0)) i)) [1..<unat (wspawn_num_warps s)] (Some s) = Some s1"
    "sched_ok cfg P s1" "active_warps s1 = active_warps s \<union> {1..<unat (wspawn_num_warps s)}" "stalled_warps s1 = stalled_warps s - {1..<unat (wspawn_num_warps s)}"
    "stalled_warps_next s1 = stalled_warps_next s - {1..<unat (wspawn_num_warps s)}" "wspawn_valid s1 = wspawn_valid s"
    using spawn_fold_ok[OF ok z(3) nt, of "w_mscratch (sch_warps s ! 0)"] by auto
  have ok1: "sched_ok cfg P (s1\<lparr>wspawn_valid := False\<rparr>)" using s1(2) by (simp add: sched_ok_def)
  note r = resume_ok[OF ok1, of 0, simplified]
  have "process_wspawn s = Some (s1\<lparr>wspawn_valid := False, stalled_warps_next := stalled_warps_next s1 - {0}\<rparr>)"
    using True l s1(1,3,5) z r(1) by (simp add: process_wspawn_def vec_get_def)
  then show ?thesis using r(2) s1(3-5) z only True by auto
qed (use ok in \<open>auto simp: process_wspawn_def\<close>)

text \<open>The end of a cycle registers the stall state.\<close>

definition clocked :: "'w::len scheduler \<Rightarrow> 'w scheduler" where
  "clocked s = s\<lparr>stalled_warps := stalled_warps_next s\<rparr>"

lemma clocked_ok: "sched_ok cfg P s \<Longrightarrow> sched_ok cfg P (clocked s)"
  by (simp add: sched_ok_def clocked_def)

lemma clocked_simps [simp]:
  "active_warps (clocked s) = active_warps s" "stalled_warps (clocked s) = stalled_warps_next s"
  "stalled_warps_next (clocked s) = stalled_warps_next s" "sch_warps (clocked s) = sch_warps s"
  by (simp_all add: clocked_def)

lemma sched_ok_update:
  assumes "sched_ok cfg P s" "w < NW cfg" "warp_ok (NT cfg) v" "w \<in> active_warps s \<Longrightarrow> bv_bits (w_tmask v) \<noteq> {}"
  shows "sched_ok cfg P (s\<lparr>sch_warps := (sch_warps s)[w := v]\<rparr>)"
proof -
  have "list_all (warp_ok (NT cfg)) ((sch_warps s)[w := v])" using assms(1,3) by (intro list_all_update) (simp_all add: sched_ok_def)
  moreover have "bv_bits (w_tmask ((sch_warps s)[w := v] ! u)) \<noteq> {}" if "u \<in> active_warps s" for u
    using that assms by (cases "u = w") (auto simp: sched_ok_def)
  ultimately show ?thesis using assms(1) by (simp add: sched_ok_def)
qed

lemma make_fetch_ok:
  assumes ok: "sched_ok cfg P s" and w: "w \<in> active_warps s" "w \<notin> stalled_warps s"
  shows "\<exists>f s'. make_fetch cfg cid w s = Some (f, s') \<and> sched_ok cfg P (clocked s') \<and> f_wid f = w
    \<and> f_PC f = w_PC (sch_warps s' ! w) \<and> f_tmask f = w_tmask (sch_warps s' ! w) \<and> bv_bits (f_tmask f) \<noteq> {}
    \<and> active_warps s' = active_warps s \<and> stalled_warps_next s' = insert w (stalled_warps_next s) \<and> wspawn_valid s' = wspawn_valid s"
proof -
  have b: "w < NW cfg" and n: "w \<notin> stalled_warps_next s" and m: "bv_bits (w_tmask (sch_warps s ! w)) \<noteq> {}" and t: "w < length (trap_epoch s)"
    using ok w by (auto simp: sched_ok_def)
  note l = sched_warp[OF ok b]
  let ?v = "(sch_warps s ! w)\<lparr>w_uuid := w_uuid (sch_warps s ! w) + 1\<rparr>"
  let ?s = "s\<lparr>sch_warps := (sch_warps s)[w := ?v], stalled_warps_next := insert w (stalled_warps_next s)\<rparr>"
  have any: "bv_any (w_tmask (sch_warps s ! w))" using l(2) m mask_any by (auto simp: warp_ok_def)
  have run: "\<exists>f. make_fetch cfg cid w s = Some (f, ?s) \<and> f_wid f = w \<and> f_PC f = w_PC (sch_warps s ! w) \<and> f_tmask f = w_tmask (sch_warps s ! w)"
    using l(1) t any w(1) n by (simp add: make_fetch_def vec_get_def vec_put_def suspend_def)
  have "sched_ok cfg P (s\<lparr>sch_warps := (sch_warps s)[w := ?v]\<rparr>)"
    by (rule sched_ok_update[OF ok b]) (use l(2) m in \<open>simp_all add: warp_ok_def\<close>)
  then have "sched_ok cfg P (clocked ?s)" by (auto simp: sched_ok_def clocked_def)
  then show ?thesis using run l(1) m by (elim exE conjE) (auto intro!: exI)
qed

text \<open>What a cycle of the scheduler does for the warps it found.\<close>

definition cycle_ok :: "warp_mask \<Rightarrow> 'w::len scheduler \<Rightarrow> 'w fetch_req option \<Rightarrow> 'w scheduler \<Rightarrow> bool" where
  "cycle_ok ready s out s' \<longleftrightarrow> stalled_warps s' = stalled_warps_next s' \<and> active_warps s \<subseteq> active_warps s'
     \<and> active_warps s \<inter> stalled_warps_next s - (if wspawn_valid s \<and> \<not> wspawn_valid s' then {0} else {}) \<subseteq> stalled_warps_next s'
     \<and> (case out of
          None \<Rightarrow> active_warps s \<inter> ready \<subseteq> stalled_warps s
        | Some f \<Rightarrow> f_wid f \<in> active_warps s' \<and> f_wid f \<in> ready \<and> f_wid f \<in> stalled_warps s'
            \<and> (f_wid f \<in> active_warps s \<longrightarrow> f_wid f \<notin> stalled_warps s)
            \<and> f_PC f = w_PC (sch_warps s' ! f_wid f) \<and> f_tmask f = w_tmask (sch_warps s' ! f_wid f) \<and> bv_bits (f_tmask f) \<noteq> {})"

lemma dispatch_ok:
  assumes cfg: "cfg_ok cfg" and fits: "launch_fits cfg k0" and k: "same_regs k0 k" and ok: "sched_ok cfg (same_launch k0) s"
  shows "\<exists>out k1 d1 s1. dispatcher_step cfg (active_warps s) k (cta_disp s) = Some (out, k1, d1) \<and> same_regs k0 k1
    \<and> (case out of None \<Rightarrow> Some (s\<lparr>cta_disp := d1\<rparr>) | Some (w, r) \<Rightarrow> activate_warp w r (s\<lparr>cta_disp := d1\<rparr>)) = Some s1
    \<and> sched_ok cfg (same_launch k0) s1 \<and> active_warps s \<subseteq> active_warps s1 \<and> stalled_warps s1 \<subseteq> stalled_warps s
    \<and> active_warps s \<inter> stalled_warps s \<subseteq> stalled_warps s1 \<and> active_warps s \<inter> stalled_warps_next s \<subseteq> stalled_warps_next s1
    \<and> wspawn_valid s1 = wspawn_valid s"
proof -
  have core: "core_ok cfg (same_launch k0) (active_warps s) (cta_disp s)" using ok by (simp add: sched_ok_def)
  obtain out k1 d1 where d: "dispatcher_step cfg (active_warps s) k (cta_disp s) = Some (out, k1, d1)"
    and st: "core_step_ok cfg (same_launch k0) (active_warps s) k (cta_disp s) out k1 d1"
    using dispatcher_step_ok[OF cfg core same_regs_request[OF k] same_launch_fits[OF fits]] by blast
  have k1: "same_regs k0 k1"
    using st k same_regs_trans[OF k same_regs_advance] by (auto simp: core_step_ok_def moved_def split: option.splits)
  show ?thesis
  proof (cases out)
    case None
    then have "sched_ok cfg (same_launch k0) (s\<lparr>cta_disp := d1\<rparr>)" using ok st by (simp add: sched_ok_def core_step_ok_def)
    then show ?thesis using d k1 None by auto
  next
    case (Some x)
    obtain w r where x: "x = (w, r)" by (cases x)
    then have w: "core_ok cfg (same_launch k0) (insert w (active_warps s)) d1" "w < NW cfg" "w \<notin> active_warps s"
      and rec: "\<exists>q. same_launch k0 q \<and> record_ok cfg q r" using st Some by (auto simp: core_step_ok_def)
    have m: "mask_ok (NT cfg) (rec_tmask r)" "bv_bits (rec_tmask r) \<noteq> {}" using rec record_mask[OF cfg] by blast+
    show ?thesis using activate_ok[OF ok w m] d k1 w(3) Some x by auto
  qed
qed

lemma schedule_ok:
  assumes cfg: "cfg_ok cfg" and fits: "launch_fits cfg k0" and k: "same_regs k0 k" and ok: "sched_ok cfg (same_launch k0) s"
  shows "\<exists>out k' s'. schedule cfg cid ready k s = Some (out, k', s') \<and> same_regs k0 k' \<and> sched_ok cfg (same_launch k0) s'
    \<and> cycle_ok ready s out s'"
proof -
  obtain o1 k1 d1 s1 where d: "dispatcher_step cfg (active_warps s) k (cta_disp s) = Some (o1, k1, d1)" "same_regs k0 k1"
    "(case o1 of None \<Rightarrow> Some (s\<lparr>cta_disp := d1\<rparr>) | Some (w, r) \<Rightarrow> activate_warp w r (s\<lparr>cta_disp := d1\<rparr>)) = Some s1"
    and s1: "sched_ok cfg (same_launch k0) s1" "active_warps s \<subseteq> active_warps s1" "stalled_warps s1 \<subseteq> stalled_warps s"
    "active_warps s \<inter> stalled_warps s \<subseteq> stalled_warps s1" "active_warps s \<inter> stalled_warps_next s \<subseteq> stalled_warps_next s1"
    "wspawn_valid s1 = wspawn_valid s"
    using dispatch_ok[OF assms] by (elim exE conjE) (rule that)
  have nt: "0 < NT cfg" using cfg by (simp add: cfg_ok_def word_gt_0 unat_gt_0)
  obtain s2 where p: "process_wspawn s1 = Some s2" and s2: "sched_ok cfg (same_launch k0) s2" "active_warps s1 \<subseteq> active_warps s2"
    "stalled_warps s2 \<subseteq> stalled_warps s1" "active_warps s1 \<inter> stalled_warps s1 \<subseteq> stalled_warps s2"
    "active_warps s1 \<inter> stalled_warps_next s1 - (if wspawn_valid s1 \<and> \<not> wspawn_valid s2 then {0} else {}) \<subseteq> stalled_warps_next s2"
    using process_wspawn_ok[OF s1(1) nt] by (elim exE conjE) (rule that)
  have run: "schedule cfg cid ready k s = (case pick_warp cfg ready s2 of
          None \<Rightarrow> Some (None, k1, clocked s2)
        | Some wid \<Rightarrow> Option.bind (make_fetch cfg cid wid s2) (\<lambda>(f, s3). Some (Some f, k1, clocked s3)))"
    by (simp add: schedule_def d(1,3) p clocked_def split: option.split)
  have keep: "active_warps s \<inter> stalled_warps_next s - (if wspawn_valid s \<and> \<not> wspawn_valid s2 then {0} else {}) \<subseteq> stalled_warps_next s2"
    using s1(2,5,6) s2(5) by auto
  show ?thesis
  proof (cases "pick_warp cfg ready s2")
    case None
    then have "\<forall>w < NW cfg. w \<in> active_warps s2 \<and> w \<in> ready \<longrightarrow> w \<in> stalled_warps s2" by (auto simp: pick_warp_def find_None_iff)
    moreover have "active_warps s2 \<subseteq> {..<NW cfg}" using s2(1) by (simp add: sched_ok_def)
    ultimately have "active_warps s \<inter> ready \<subseteq> stalled_warps s" using s1 s2 by blast
    then have "cycle_ok ready s None (clocked s2)" using s1(2) s2(2) keep by (auto simp: cycle_ok_def clocked_def)
    then show ?thesis using run None d(2) clocked_ok[OF s2(1)] by simp
  next
    case (Some w)
    then have w: "w \<in> active_warps s2" "w \<notin> stalled_warps s2" "w \<in> ready" by (auto simp: pick_warp_def find_Some_iff)
    obtain f s3 where f: "make_fetch cfg cid w s2 = Some (f, s3)" "sched_ok cfg (same_launch k0) (clocked s3)" "f_wid f = w"
      "f_PC f = w_PC (sch_warps s3 ! w)" "f_tmask f = w_tmask (sch_warps s3 ! w)" "bv_bits (f_tmask f) \<noteq> {}"
      "active_warps s3 = active_warps s2" "stalled_warps_next s3 = insert w (stalled_warps_next s2)"
      "wspawn_valid s3 = wspawn_valid s2"
      using make_fetch_ok[OF s2(1) w(1,2), of cid] by (elim exE conjE) (rule that)
    have "w \<in> active_warps s \<longrightarrow> w \<notin> stalled_warps s" using w(2) s1 s2 by blast
    then have "cycle_ok ready s (Some f) (clocked s3)" using f w s1(2) s2(2) keep by (auto simp: cycle_ok_def clocked_def)
    then show ?thesis using run Some d(2) f(1,2) by simp
  qed
qed

section \<open>The operations of the pipeline\<close>

lemma update_warp_ok:
  assumes "sched_ok cfg P s" "update_warp w f s = Some s'" "w < NW cfg"
    "\<And>v. warp_ok (NT cfg) v \<Longrightarrow> warp_ok (NT cfg) (f v)"
    "\<And>v. warp_ok (NT cfg) v \<Longrightarrow> bv_bits (w_tmask v) \<noteq> {} \<Longrightarrow> bv_bits (w_tmask (f v)) \<noteq> {}"
  shows "sched_ok cfg P s'" "active_warps s' = active_warps s" "stalled_warps_next s' = stalled_warps_next s"
proof -
  note l = sched_warp[OF assms(1,3)]
  have s': "s' = s\<lparr>sch_warps := (sch_warps s)[w := f (sch_warps s ! w)]\<rparr>"
    using assms(2) l(1) by (simp add: update_warp_def vec_get_def vec_put_def)
  show "sched_ok cfg P s'" unfolding s'
    by (rule sched_ok_update[OF assms(1,3)]) (use assms l in \<open>auto simp: sched_ok_def\<close>)
  show "active_warps s' = active_warps s" "stalled_warps_next s' = stalled_warps_next s" by (simp_all add: s')
qed

lemma setTmask_ok:
  assumes ok: "sched_ok cfg P s" and w: "w \<in> active_warps s" "wspawn_valid s \<Longrightarrow> w \<noteq> 0" and m: "mask_ok (NT cfg) m"
  shows "\<exists>s'. setTmask cfg w m s = Some (bv_bits m \<noteq> {}, s') \<and> sched_ok cfg P s'
    \<and> active_warps s' = (if bv_bits m \<noteq> {} then active_warps s else active_warps s - {w})"
proof -
  have b: "w < NW cfg" using ok w(1) by (auto simp: sched_ok_def)
  note l = sched_warp[OF ok b]
  let ?v = "(sch_warps s ! w)\<lparr>w_tmask := m\<rparr>"
  let ?s = "s\<lparr>sch_warps := (sch_warps s)[w := ?v]\<rparr>"
  have u: "update_warp w (\<lambda>v. v\<lparr>w_tmask := m\<rparr>) s = Some ?s" using l(1) by (simp add: update_warp_def vec_get_def vec_put_def)
  have v: "warp_ok (NT cfg) ?v" using l(2) m by (simp add: warp_ok_def)
  show ?thesis
  proof (cases "bv_bits m = {}")
    case False
    then have "sched_ok cfg P ?s" using sched_ok_update[OF ok b v] by simp
    then show ?thesis using u False mask_any[OF m] by (simp add: setTmask_def)
  next
    case True
    have core: "core_ok cfg P (active_warps s) (cta_disp s)" using ok by (simp add: sched_ok_def)
    obtain d where d: "warp_done cfg (cta_disp s) w = Some d" "core_ok cfg P (active_warps s - {w}) d"
      using warp_done_core_ok[OF core b] by blast
    let ?t = "?s\<lparr>active_warps := active_warps s - {w}, cta_disp := d\<rparr>"
    have "list_all (warp_ok (NT cfg)) ((sch_warps s)[w := ?v])" using ok v by (intro list_all_update) (simp_all add: sched_ok_def)
    then have "sched_ok cfg P ?t" using ok d(2) w by (auto simp: sched_ok_def)
    then show ?thesis using u True mask_any[OF m] d(1) by (simp add: setTmask_def)
  qed
qed

lemma wspawn_ok:
  assumes "sched_ok cfg P s" "0 \<in> active_warps s" "0 \<in> stalled_warps_next s"
  shows "sched_ok cfg P (snd (wspawn cfg n pc s))"
proof -
  have "unat (min n (cfg_num_warps cfg)) \<le> unat (cfg_num_warps cfg)" by (simp add: min_def word_le_nat_alt)
  then show ?thesis using assms by (auto simp: sched_ok_def wspawn_def Let_def)
qed

lemma mask_kept:
  "warp_ok nt v \<Longrightarrow> warp_ok nt (trap_warp cause pc v)" "w_tmask (trap_warp cause pc v) = w_tmask v"
  by (simp_all add: warp_ok_def trap_warp_def)

lemma raise_trap_ok:
  assumes "sched_ok cfg P s" "raise_trap w cause pc s = Some s'" "w < NW cfg"
  shows "sched_ok cfg P s'" "active_warps s' = active_warps s" "stalled_warps_next s' = stalled_warps_next s"
  using update_warp_ok[OF assms(1) _ assms(3), of "trap_warp cause pc" s'] assms(2) by (simp_all add: raise_trap_def mask_kept)

lemma advance_pc_ok:
  assumes "sched_ok cfg P s" "advance_pc w e inc s = Some s'" "w < NW cfg"
  shows "sched_ok cfg P s'"
  using assms update_warp_ok(1)[OF assms(1) _ assms(3), of "\<lambda>v. v\<lparr>w_PC := w_PC v + ucast inc\<rparr>" s']
  by (auto simp: advance_pc_def warp_ok_def split: bind_splits if_splits)

lemma async_trap_ok:
  assumes ok: "sched_ok cfg P s" and s: "raise_async_trap sus pc0 w cause pc m (s, sb) = Some (s', sb')"
    and w: "w \<in> active_warps s" "wspawn_valid s \<Longrightarrow> w \<noteq> 0" and m: "mask_ok (NT cfg) m" "bv_bits m \<noteq> {}"
  shows "sched_ok cfg P s'"
proof -
  have b: "w < NW cfg" using ok w(1) by (auto simp: sched_ok_def)
  obtain s1 where s1: "raise_trap w cause (if pc0 = 0 then pc else pc0) s = Some s1" using s by (auto simp: raise_async_trap_def split: bind_splits)
  note o1 = raise_trap_ok[OF ok s1 b]
  obtain s2 where s2: "update_warp w (\<lambda>v. v\<lparr>w_tmask := m\<rparr>) s1 = Some s2" using s s1 by (auto simp: raise_async_trap_def split: bind_splits)
  have o2: "sched_ok cfg P s2" "active_warps s2 = active_warps s1" "stalled_warps_next s2 = stalled_warps_next s1"
    by (rule update_warp_ok[OF o1(1) s2 b]; use m in \<open>simp add: warp_ok_def\<close>)+
  have v: "wspawn_valid s2 = wspawn_valid s" using s1 s2 by (auto simp: raise_trap_def update_warp_def split: bind_splits)
  have inv: "sched_ok cfg P (s2\<lparr>in_async_trap := ia\<rparr>)" for ia using o2(1) by (simp add: sched_ok_def)
  obtain s3 where s3: "sched_ok cfg P s3" "\<exists>sn es. s' = s3\<lparr>async_trap_snapshot := sn, trap_epoch := es\<rparr> \<and> length es = length (trap_epoch s3)"
  proof (cases "w \<in> stalled_warps_next s2")
    case True
    have r: "sched_ok cfg P (s2\<lparr>in_async_trap := ia, stalled_warps_next := stalled_warps_next s2 - {w}\<rparr>)" for ia
      using resume_ok(2)[OF inv[of ia], of w] True w v o1(2) o2(2) by simp
    show thesis by (rule that[OF r[of "(in_async_trap s2)[w := True]"]])
      (use s s1 s2 True w o1(2) o2(2) in \<open>auto simp: raise_async_trap_def resume_def vec_put_def split: bind_splits if_splits prod.splits intro!: exI\<close>)
  next
    case False
    show thesis by (rule that[OF inv[of "(in_async_trap s2)[w := True]"]])
      (use s s1 s2 False in \<open>auto simp: raise_async_trap_def vec_put_def split: bind_splits if_splits prod.splits intro!: exI\<close>)
  qed
  then show ?thesis by (auto simp: sched_ok_def)
qed

lemma mret_ok:
  assumes ok: "sched_ok cfg P s" and s: "mret cyc w (s, sb) = Some (s', sb')" and b: "w < NW cfg"
  shows "sched_ok cfg P s'"
proof -
  let ?f = "\<lambda>v. v\<lparr>w_PC := w_mepc v, w_tmask := (if bv_any (mscratch_tmask v) then mscratch_tmask v else w_tmask v)\<rparr>"
  obtain s1 where s1: "update_warp w ?f s = Some s1" "\<exists>sn ia lm. s' = s1\<lparr>async_trap_snapshot := sn, in_async_trap := ia, last_mret_cycle := lm\<rparr>"
    using s by (auto simp: mret_def split: bind_splits)
  have "sched_ok cfg P s1"
    by (rule update_warp_ok(1)[OF ok s1(1) b]) (auto simp: warp_ok_def mask_any)
  then show ?thesis using s1(2) by (auto simp: sched_ok_def)
qed

section \<open>A core under one launch\<close>

text \<open>
  A state is the walk over the grid, the scheduler and the warps that have an instruction in flight: fetched and not
  released.  The steps are the cycle of the scheduler, blocks taken by other cores, the release of a warp, the
  change of its thread mask (an empty one ends it), \<open>wspawn\<close> by warp 0, the advance of a program counter, and
  synchronous and asynchronous traps and their return.  While a \<open>wspawn\<close> is pending warp 0, which executed it, is
  released by the scheduler.
\<close>

inductive sched_reach :: "disp_cfg \<Rightarrow> u32 \<Rightarrow> kmu \<Rightarrow> kmu \<times> 'w::len scheduler \<times> nat set \<Rightarrow> bool" for cfg cid k0 where
  start: "sched_reach cfg cid k0 (kmu_start k0, scheduler_new cfg, {})"
| cycle: "sched_reach cfg cid k0 (k, s, F) \<Longrightarrow> schedule cfg cid ready k s = Some (out, k', s')
     \<Longrightarrow> sched_reach cfg cid k0 (k', s', (F - (if wspawn_valid s \<and> \<not> wspawn_valid s' then {0} else {})) \<union> f_wid ` set_option out)"
| others: "sched_reach cfg cid k0 (k, s, F) \<Longrightarrow> kmu_running k \<Longrightarrow> sched_reach cfg cid k0 (kmu_advance k, s, F)"
| release: "sched_reach cfg cid k0 (k, s, F) \<Longrightarrow> w \<in> F \<Longrightarrow> (wspawn_valid s \<longrightarrow> w \<noteq> 0) \<Longrightarrow> resume w s = Some s'
     \<Longrightarrow> sched_reach cfg cid k0 (k, s', F - {w})"
| tmask: "sched_reach cfg cid k0 (k, s, F) \<Longrightarrow> w \<in> F \<Longrightarrow> (wspawn_valid s \<longrightarrow> w \<noteq> 0) \<Longrightarrow> mask_ok (NT cfg) m
     \<Longrightarrow> setTmask cfg w m s = Some (alive, s') \<Longrightarrow> sched_reach cfg cid k0 (k, s', if alive then F else F - {w})"
| spawn: "sched_reach cfg cid k0 (k, s, F) \<Longrightarrow> 0 \<in> F \<Longrightarrow> sched_reach cfg cid k0 (k, snd (wspawn cfg n pc s), F)"
| decode: "sched_reach cfg cid k0 (k, s, F) \<Longrightarrow> w < NW cfg \<Longrightarrow> advance_pc w e inc s = Some s' \<Longrightarrow> sched_reach cfg cid k0 (k, s', F)"
| trap: "sched_reach cfg cid k0 (k, s, F) \<Longrightarrow> w < NW cfg \<Longrightarrow> raise_trap w cause pc s = Some s' \<Longrightarrow> sched_reach cfg cid k0 (k, s', F)"
| async: "sched_reach cfg cid k0 (k, s, F) \<Longrightarrow> w \<in> active_warps s \<Longrightarrow> (wspawn_valid s \<longrightarrow> w \<noteq> 0) \<Longrightarrow> mask_ok (NT cfg) m \<Longrightarrow> bv_bits m \<noteq> {}
     \<Longrightarrow> raise_async_trap sus pc0 w cause pc m (s, sb) = Some (s', sb') \<Longrightarrow> sched_reach cfg cid k0 (k, s', F - {w})"
| return: "sched_reach cfg cid k0 (k, s, F) \<Longrightarrow> w < NW cfg \<Longrightarrow> mret cyc w (s, sb) = Some (s', sb') \<Longrightarrow> sched_reach cfg cid k0 (k, s', F)"

definition sched_inv :: "disp_cfg \<Rightarrow> kmu \<Rightarrow> kmu \<times> 'w::len scheduler \<times> nat set \<Rightarrow> bool" where
  "sched_inv cfg k0 x \<longleftrightarrow> (case x of (k, s, F) \<Rightarrow>
     same_regs k0 k \<and> sched_ok cfg (same_launch k0) s \<and> F \<subseteq> active_warps s \<inter> stalled_warps_next s)"

lemma scheduler_new_ok: "sched_ok cfg P (scheduler_new cfg)"
  by (simp add: sched_ok_def scheduler_new_def Let_def dispatcher_init_core_ok list_all_length warp_ok_def mask_ok_def warp_new_def
      tm.fresh_law)

text \<open>Operations that keep the sets of active and of stalled warps.\<close>

lemma frames:
  "advance_pc w e inc s = Some s' \<Longrightarrow> active_warps s' = active_warps s \<and> stalled_warps_next s' = stalled_warps_next s"
  "mret cyc w (s, sb) = Some (s', sb') \<Longrightarrow> active_warps s' = active_warps s \<and> stalled_warps_next s' = stalled_warps_next s"
  "active_warps (snd (wspawn cfg n pc s)) = active_warps s" "stalled_warps_next (snd (wspawn cfg n pc s)) = stalled_warps_next s"
  "setTmask cfg w m s = Some (r, s') \<Longrightarrow> stalled_warps_next s' = stalled_warps_next s"
  by (auto simp: advance_pc_def update_warp_def mret_def wspawn_def setTmask_def Let_def split: bind_splits if_splits)

lemma async_frame:
  "raise_async_trap sus pc0 w cause pc m (s, sb) = Some (s', sb') \<Longrightarrow> active_warps s' = active_warps s \<and> stalled_warps_next s' = stalled_warps_next s - {w}"
  by (auto simp: raise_async_trap_def raise_trap_def update_warp_def resume_def split: bind_splits if_splits prod.splits)

lemma sched_reach_inv:
  assumes "cfg_ok cfg" "launch_fits cfg k0"
  shows "sched_reach cfg cid k0 x \<Longrightarrow> sched_inv cfg k0 x"
proof (induction rule: sched_reach.induct)
  case start
  then show ?case by (simp add: sched_inv_def same_regs_start scheduler_new_ok)
next
  case (cycle k s F ready out k' s')
  then have i: "same_regs k0 k" "sched_ok cfg (same_launch k0) s" "F \<subseteq> active_warps s \<inter> stalled_warps_next s" by (simp_all add: sched_inv_def)
  have c: "same_regs k0 k'" "sched_ok cfg (same_launch k0) s'" "cycle_ok ready s out s'"
    using schedule_ok[OF assms i(1,2), of cid ready] cycle.hyps by auto
  then show ?case using i(3) by (cases out) (auto simp: sched_inv_def cycle_ok_def)
next
  case (others k s F)
  then show ?case using same_regs_trans[OF _ same_regs_advance] by (auto simp: sched_inv_def)
next
  case (release k s F w s')
  then have w: "sched_ok cfg (same_launch k0) s" "w \<in> active_warps s" "w \<in> stalled_warps_next s" by (auto simp: sched_inv_def)
  show ?case using resume_ok[OF w] release by (auto simp: sched_inv_def)
next
  case (tmask k s F w m alive s')
  then have w: "sched_ok cfg (same_launch k0) s" "w \<in> active_warps s" by (auto simp: sched_inv_def)
  show ?case using setTmask_ok[OF w _ tmask(4)] tmask frames(5)[OF tmask(5)] by (auto simp: sched_inv_def)
next
  case (spawn k s F n pc)
  then show ?case using wspawn_ok[of cfg "same_launch k0" s n pc] by (auto simp: sched_inv_def frames)
next
  case (decode k s F w e inc s')
  then show ?case using advance_pc_ok[of cfg "same_launch k0" s] frames(1)[OF decode(3)] by (auto simp: sched_inv_def)
next
  case (trap k s F w cause pc s')
  then show ?case using raise_trap_ok[of cfg "same_launch k0" s w cause pc s'] by (auto simp: sched_inv_def)
next
  case (async k s F w m sus pc0 cause pc sb s' sb')
  then have "sched_ok cfg (same_launch k0) s" by (simp add: sched_inv_def)
  from async_trap_ok[OF this async(6,2) _ async(4,5)] show ?case using async async_frame[OF async(6)] by (auto simp: sched_inv_def)
next
  case (return k s F w cyc sb s' sb')
  then show ?case using mret_ok[of cfg "same_launch k0" s cyc w sb s' sb'] frames(2)[OF return(3)] by (auto simp: sched_inv_def)
qed



end
