(* ===== verification/Barrier.thy ===== *)
theory Barrier
  imports Scheduler
begin

text \<open>
  Barriers: the barrier unit of a core, \<open>src/vortex/sim/simx/barrier_unit.cpp\<close>, and the global barriers of a cluster,
  \<open>global_barrier_arrive\<close> of \<open>src/vortex/sim/simx/cluster.cpp\<close>.  A cluster is the list of its cores, each a scheduler
  with its barriers, and the arrival masks of its global barriers.  A failed assertion, an access outside a
  vector and the abort on a count of zero are \<open>None\<close>.
\<close>

unbundle bit_operations_syntax

record warp_barrier_t =
  wait_mask :: warp_mask
  arrival_mask :: warp_mask
  bar_count :: u32
  bar_events :: u32
  bar_phase :: u32

definition barrier_reset :: warp_barrier_t where
  "barrier_reset = \<lparr>wait_mask = {}, arrival_mask = {}, bar_count = 0, bar_events = 0, bar_phase = 0\<rparr>"

record (overloaded) 'w bcore =
  bc_sched :: "'w::len scheduler"
  bc_bars :: "warp_barrier_t list"

record (overloaded) 'w cluster =
  cl_cores :: "'w::len bcore list"
  cl_gbars :: "nat set list"

definition barriers_on_reset :: "'w::len bcore \<Rightarrow> 'w bcore" where
  "barriers_on_reset c = c\<lparr>bc_bars := map (\<lambda>_. barrier_reset) (bc_bars c)\<rparr>"

definition bar_decode_id :: "u32 \<Rightarrow> u32 \<Rightarrow> u32" where
  "bar_decode_id raw num_barriers =
     (raw AND 0xff) * num_barriers + (drop_bit 8 raw AND 0x7fffff) OR (raw AND 0x80000000)"

definition bar_index :: "u32 \<Rightarrow> nat" where
  "bar_index bar_id = unat (bar_id AND 0x7fffffff)"

definition get_phase :: "u32 \<Rightarrow> 'w::len bcore \<Rightarrow> u32 option" where
  "get_phase bar_id c = map_option bar_phase (vec_get (bc_bars c) (bar_index bar_id))"

text \<open>The warps of the wait mask are resumed in the order of their numbers.\<close>

definition resume_waiters :: "nat \<Rightarrow> warp_mask \<Rightarrow> 'w::len scheduler \<Rightarrow> 'w scheduler option" where
  "resume_waiters nw waiting s =
     fold (\<lambda>i acc. Option.bind acc (\<lambda>s. if i \<in> waiting then resume i s else Some s)) [0..<nw] (Some s)"

definition put_bar :: "u32 \<Rightarrow> warp_barrier_t \<Rightarrow> 'w::len bcore \<Rightarrow> 'w bcore option" where
  "put_bar bar_id b c = map_option (\<lambda>bs. c\<lparr>bc_bars := bs\<rparr>) (vec_put (bc_bars c) (bar_index bar_id) b)"

text \<open>The end of a phase: waiting warps resume, the wait mask is cleared and the phase advances.\<close>

definition finish_phase :: "nat \<Rightarrow> u32 \<Rightarrow> 'w::len bcore \<Rightarrow> 'w bcore option" where
  "finish_phase nw bar_id c =
     do {
       b \<leftarrow> vec_get (bc_bars c) (bar_index bar_id);
       s \<leftarrow> resume_waiters nw (wait_mask b) (bc_sched c);
       put_bar bar_id (b\<lparr>wait_mask := {}, bar_phase := bar_phase b + 1\<rparr>) (c\<lparr>bc_sched := s\<rparr>)
     }"

definition global_resume :: "nat \<Rightarrow> u32 \<Rightarrow> 'w::len bcore \<Rightarrow> 'w bcore option" where
  "global_resume nw bar_id c = finish_phase nw bar_id c"

definition bar_wait :: "u32 \<Rightarrow> u32 \<Rightarrow> nat \<Rightarrow> 'w::len bcore \<Rightarrow> (bool \<times> 'w bcore) option" where
  "bar_wait bar_id phase wid c =
     do {
       b \<leftarrow> vec_get (bc_bars c) (bar_index bar_id);
       if bar_phase b = phase then map_option (Pair True) (put_bar bar_id (b\<lparr>wait_mask := insert wid (wait_mask b)\<rparr>) c)
       else Some (False, c)
     }"

definition event_attach :: "u32 \<Rightarrow> u32 \<Rightarrow> 'w::len bcore \<Rightarrow> 'w bcore option" where
  "event_attach bar_id cnt c =
     do {
       b \<leftarrow> vec_get (bc_bars c) (bar_index bar_id);
       put_bar bar_id (b\<lparr>bar_events := bar_events b + cnt\<rparr>) c
     }"

section \<open>Local arrival\<close>

definition arrive_local :: "nat \<Rightarrow> u32 \<Rightarrow> u32 \<Rightarrow> nat \<Rightarrow> bool \<Rightarrow> 'w::len bcore \<Rightarrow> 'w bcore option" where
  "arrive_local nw bar_id cnt wid is_sync c =
     do {
       b \<leftarrow> vec_get (bc_bars c) (bar_index bar_id);
       let b1 = (if is_sync then b\<lparr>wait_mask := insert wid (wait_mask b)\<rparr> else b);
       let cnt_p1 = bar_count b1 + 1;
       c1 \<leftarrow> put_bar bar_id b1 c;
       c2 \<leftarrow> (if cnt_p1 = cnt \<and> bar_events b1 = 0 then finish_phase nw bar_id c1 else Some c1);
       if cnt = 0 then None
       else do {
         b2 \<leftarrow> vec_get (bc_bars c2) (bar_index bar_id);
         put_bar bar_id (b2\<lparr>bar_count := cnt_p1 mod cnt\<rparr>) c2
       }
     }"

section \<open>Global arrival\<close>

definition on_core :: "nat \<Rightarrow> ('w::len bcore \<Rightarrow> 'w bcore option) \<Rightarrow> 'w cluster \<Rightarrow> 'w cluster option" where
  "on_core i f cl =
     do {
       c \<leftarrow> vec_get (cl_cores cl) i;
       c1 \<leftarrow> f c;
       cs \<leftarrow> vec_put (cl_cores cl) i c1;
       Some (cl\<lparr>cl_cores := cs\<rparr>)
     }"

definition global_barrier_arrive :: "nat \<Rightarrow> u32 \<Rightarrow> u32 \<Rightarrow> u32 \<Rightarrow> 'w::len cluster \<Rightarrow> 'w cluster option" where
  "global_barrier_arrive nw bar_id cnt core_id cl =
     (let i = unat bar_id mod length (cl_gbars cl);
          n = length (cl_cores cl)
      in do {
           m \<leftarrow> vec_get (cl_gbars cl) i;
           let m1 = insert (unat core_id mod n) m;
           gs \<leftarrow> vec_put (cl_gbars cl) i m1;
           if card m1 = unat cnt then
             do {
               cl1 \<leftarrow> fold (\<lambda>j acc. Option.bind acc (\<lambda>x. if j \<in> m1 then on_core j (global_resume nw bar_id) x else Some x))
                        [0..<n] (Some (cl\<lparr>cl_gbars := gs\<rparr>));
               gs1 \<leftarrow> vec_put (cl_gbars cl1) i {};
               Some (cl1\<lparr>cl_gbars := gs1\<rparr>)
             }
           else Some (cl\<lparr>cl_gbars := gs\<rparr>)
         })"

definition clear_arrivals :: "u32 \<Rightarrow> 'w::len bcore \<Rightarrow> 'w bcore option" where
  "clear_arrivals bar_id c =
     do {
       b \<leftarrow> vec_get (bc_bars c) (bar_index bar_id);
       put_bar bar_id (b\<lparr>arrival_mask := {}, bar_count := 0, bar_events := 0\<rparr>) c
     }"

definition notify_global :: "nat \<Rightarrow> u32 \<Rightarrow> u32 \<Rightarrow> u32 \<Rightarrow> 'w::len cluster \<Rightarrow> 'w cluster option" where
  "notify_global nw bar_id cnt core_id cl =
     Option.bind (global_barrier_arrive nw bar_id cnt core_id cl)
       (on_core (unat core_id mod length (cl_cores cl)) (clear_arrivals bar_id))"

definition arrive_global :: "nat \<Rightarrow> u32 \<Rightarrow> u32 \<Rightarrow> nat \<Rightarrow> bool \<Rightarrow> u32 \<Rightarrow> 'w::len cluster \<Rightarrow> 'w cluster option" where
  "arrive_global nw bar_id cnt wid is_sync core_id cl =
     (let i = unat core_id mod length (cl_cores cl)
      in do {
           c \<leftarrow> vec_get (cl_cores cl) i;
           b \<leftarrow> vec_get (bc_bars c) (bar_index bar_id);
           let b1 = b\<lparr>bar_count := cnt, arrival_mask := insert wid (arrival_mask b),
                      wait_mask := (if is_sync then insert wid (wait_mask b) else wait_mask b)\<rparr>;
           cl1 \<leftarrow> on_core i (put_bar bar_id b1) cl;
           if card (arrival_mask b1) = card (active_warps (bc_sched c)) \<and> bar_events b1 = 0
           then notify_global nw bar_id cnt core_id cl1 else Some cl1
         })"

section \<open>Operations of the unit\<close>

definition bar_arrive :: "nat \<Rightarrow> u32 \<Rightarrow> u32 \<Rightarrow> nat \<Rightarrow> bool \<Rightarrow> u32 \<Rightarrow> 'w::len cluster \<Rightarrow> 'w cluster option" where
  "bar_arrive nw bar_id cnt wid is_sync core_id cl =
     (if bit bar_id 31 then arrive_global nw bar_id cnt wid is_sync core_id cl
      else on_core (unat core_id mod length (cl_cores cl)) (arrive_local nw bar_id cnt wid is_sync) cl)"

definition event_release :: "nat \<Rightarrow> u32 \<Rightarrow> u32 \<Rightarrow> 'w::len cluster \<Rightarrow> 'w cluster option" where
  "event_release nw bar_id core_id cl =
     (let i = unat core_id mod length (cl_cores cl)
      in do {
           c \<leftarrow> vec_get (cl_cores cl) i;
           b \<leftarrow> vec_get (bc_bars c) (bar_index bar_id);
           if \<not> bar_events b > 0 then None
           else do {
             cl1 \<leftarrow> on_core i (put_bar bar_id (b\<lparr>bar_events := bar_events b - 1\<rparr>)) cl;
             if bar_events b - 1 \<noteq> 0 then Some cl1
             else if bit bar_id 31 then
               (if card (arrival_mask b) = card (active_warps (bc_sched c))
                then notify_global nw bar_id (bar_count b) core_id cl1 else Some cl1)
             else if bar_count b = 0 then on_core i (finish_phase nw bar_id) cl1
             else Some cl1
           }
         })"


section \<open>A round of a barrier\<close>

lemma resume_waiters_upto:
  "waiting \<inter> {..<k} \<subseteq> active_warps s \<inter> stalled_warps_next s \<Longrightarrow>
     resume_waiters k waiting s = Some (s\<lparr>stalled_warps_next := stalled_warps_next s - (waiting \<inter> {..<k})\<rparr>)"
proof (induction k)
  case (Suc k)
  have "resume_waiters k waiting s = Some (s\<lparr>stalled_warps_next := stalled_warps_next s - (waiting \<inter> {..<k})\<rparr>)"
    using Suc by (auto simp: lessThan_Suc)
  moreover have "resume_waiters (Suc k) waiting s
      = Option.bind (resume_waiters k waiting s) (\<lambda>s. if k \<in> waiting then resume k s else Some s)"
    by (simp add: resume_waiters_def)
  moreover have "k \<in> waiting \<Longrightarrow> k \<in> active_warps s \<and> k \<in> stalled_warps_next s" using Suc.prems by (auto simp: lessThan_Suc)
  moreover have "stalled_warps_next s - waiting \<inter> {..<k} - {k} = stalled_warps_next s - waiting \<inter> {..<Suc k}" if "k \<in> waiting"
    using that by auto
  moreover have "waiting \<inter> {..<Suc k} = waiting \<inter> {..<k}" if "k \<notin> waiting" using that by (auto simp: less_Suc_eq)
  ultimately show ?case by (cases "k \<in> waiting") (simp_all add: resume_def)
qed (simp add: resume_waiters_def)

lemma resume_waiters_all:
  assumes "waiting \<subseteq> {..<nw}" "waiting \<subseteq> active_warps s" "waiting \<subseteq> stalled_warps_next s"
  shows "resume_waiters nw waiting s = Some (s\<lparr>stalled_warps_next := stalled_warps_next s - waiting\<rparr>)"
proof -
  have "waiting \<inter> {..<nw} = waiting" using assms(1) by blast
  then show ?thesis using resume_waiters_upto[of waiting nw s] assms(2,3) by simp
qed

definition set_bar :: "u32 \<Rightarrow> warp_barrier_t \<Rightarrow> 'w::len bcore \<Rightarrow> 'w bcore" where
  "set_bar bar_id b c = c\<lparr>bc_bars := (bc_bars c)[bar_index bar_id := b]\<rparr>"

abbreviation the_bar :: "u32 \<Rightarrow> 'w::len bcore \<Rightarrow> warp_barrier_t" where
  "the_bar bar_id c \<equiv> bc_bars c ! bar_index bar_id"

lemma set_bar_simps [simp]:
  "bar_index bar_id < length (bc_bars c) \<Longrightarrow> the_bar bar_id (set_bar bar_id b c) = b"
  "length (bc_bars (set_bar bar_id b c)) = length (bc_bars c)" "bc_sched (set_bar bar_id b c) = bc_sched c"
  "set_bar bar_id b' (set_bar bar_id b c) = set_bar bar_id b' c"
  "(set_bar bar_id b c)\<lparr>bc_sched := s\<rparr> = set_bar bar_id b (c\<lparr>bc_sched := s\<rparr>)"
  by (simp_all add: set_bar_def)

lemma put_bar_eq: "bar_index bar_id < length (bc_bars c) \<Longrightarrow> put_bar bar_id b c = Some (set_bar bar_id b c)"
  by (simp add: put_bar_def set_bar_def vec_put_def)

lemma finish_phase_eq:
  assumes "bar_index bar_id < length (bc_bars c)" "wait_mask (the_bar bar_id c) \<subseteq> {..<nw}"
    "wait_mask (the_bar bar_id c) \<subseteq> active_warps (bc_sched c)" "wait_mask (the_bar bar_id c) \<subseteq> stalled_warps_next (bc_sched c)"
  shows "finish_phase nw bar_id c = Some (set_bar bar_id ((the_bar bar_id c)\<lparr>wait_mask := {}, bar_phase := bar_phase (the_bar bar_id c) + 1\<rparr>)
    (c\<lparr>bc_sched := (bc_sched c)\<lparr>stalled_warps_next := stalled_warps_next (bc_sched c) - wait_mask (the_bar bar_id c)\<rparr>\<rparr>))"
  using assms resume_waiters_all[OF assms(2-4)] by (simp add: finish_phase_def vec_get_def put_bar_eq)

definition waits_on :: "warp_mask \<Rightarrow> (nat \<times> bool) list \<Rightarrow> warp_mask" where
  "waits_on W as = W \<union> {w. (w, True) \<in> set as}"

definition arrivals :: "nat \<Rightarrow> u32 \<Rightarrow> u32 \<Rightarrow> (nat \<times> bool) list \<Rightarrow> 'w::len bcore \<Rightarrow> 'w bcore option" where
  "arrivals nw bar_id cnt as c = fold (\<lambda>a acc. Option.bind acc (arrive_local nw bar_id cnt (fst a) (snd a))) as (Some c)"

lemma arrivals_snoc: "arrivals nw bar_id cnt (as @ [a]) c = Option.bind (arrivals nw bar_id cnt as c) (arrive_local nw bar_id cnt (fst a) (snd a))"
  by (simp add: arrivals_def)

lemma arrivals_wait:
  assumes "bar_index bar_id < length (bc_bars c)" "bar_count (the_bar bar_id c) = 0"
  shows "length as < unat cnt \<Longrightarrow> arrivals nw bar_id cnt as c
    = Some (set_bar bar_id ((the_bar bar_id c)\<lparr>wait_mask := waits_on (wait_mask (the_bar bar_id c)) as, bar_count := of_nat (length as)\<rparr>) c)"
proof (induction as rule: rev_induct)
  case Nil
  have "(the_bar bar_id c)\<lparr>bar_count := 0\<rparr> = the_bar bar_id c" using assms(2) by simp
  then show ?case by (simp add: arrivals_def waits_on_def set_bar_def)
next
  case (snoc a as)
  have n: "length as < unat cnt" "Suc (length as) < unat cnt" using snoc.prems by simp_all
  have lt: "Suc (length as) < 2 ^ 32" using n(2) u32_bound[of cnt] by simp
  have c0: "cnt \<noteq> 0" using n by auto
  have u: "unat (1 + word_of_nat (length as) :: u32) = Suc (length as)"
    using lt by (simp add: unat_of_nat flip: of_nat_Suc)
  have ne: "(1 + word_of_nat (length as) :: u32) \<noteq> cnt" using u n(2) by auto
  have md: "(1 + word_of_nat (length as) :: u32) mod cnt = 1 + word_of_nat (length as)"
    using u n(2) by (simp add: word_unat_eq_iff unat_mod_distrib)
  have w: "waits_on W (as @ [a]) = (if snd a then insert (fst a) (waits_on W as) else waits_on W as)" for W
    by (cases a) (auto simp: waits_on_def)
  show ?case
    using snoc.IH[OF n(1)] assms(1) ne md c0
    by (simp add: arrivals_snoc arrive_local_def vec_get_def put_bar_eq Let_def w add.commute)
qed

lemma arrivals_last:
  assumes i: "bar_index bar_id < length (bc_bars c)" and b: "bar_count (the_bar bar_id c) = 0" "bar_events (the_bar bar_id c) = 0"
    and as: "length as = unat cnt" "cnt \<noteq> 0"
    and ws: "waits_on (wait_mask (the_bar bar_id c)) as \<subseteq> {..<nw} \<inter> active_warps (bc_sched c) \<inter> stalled_warps_next (bc_sched c)"
  shows "arrivals nw bar_id cnt as c
    = Some (set_bar bar_id ((the_bar bar_id c)\<lparr>wait_mask := {}, bar_phase := bar_phase (the_bar bar_id c) + 1\<rparr>)
        (c\<lparr>bc_sched := (bc_sched c)\<lparr>stalled_warps_next := stalled_warps_next (bc_sched c) - waits_on (wait_mask (the_bar bar_id c)) as\<rparr>\<rparr>))"
proof -
  have "0 < unat cnt" using as(2) by (simp add: unat_gt_0)
  then obtain bs a where sn: "as = bs @ [a]" using as(1) by (cases as rule: rev_cases) auto
  have n: "length bs < unat cnt" "Suc (length bs) = unat cnt" using as(1) sn by simp_all
  have u: "(1 + word_of_nat (length bs) :: u32) = cnt" using n(2) by (simp flip: of_nat_Suc)
  have w: "waits_on W as = (if snd a then insert (fst a) (waits_on W bs) else waits_on W bs)" for W
    by (cases a) (auto simp: waits_on_def sn)
  let ?b = "(the_bar bar_id c)\<lparr>wait_mask := waits_on (wait_mask (the_bar bar_id c)) as, bar_count := of_nat (length bs)\<rparr>"
  have f: "finish_phase nw bar_id (set_bar bar_id ?b c) = Some (set_bar bar_id (?b\<lparr>wait_mask := {}, bar_phase := bar_phase (the_bar bar_id c) + 1\<rparr>)
      (c\<lparr>bc_sched := (bc_sched c)\<lparr>stalled_warps_next := stalled_warps_next (bc_sched c) - waits_on (wait_mask (the_bar bar_id c)) as\<rparr>\<rparr>))"
    using finish_phase_eq[of bar_id "set_bar bar_id ?b c" nw] i ws by simp
  have b0: "(the_bar bar_id c)\<lparr>wait_mask := {}, bar_phase := x, bar_count := 0\<rparr> = (the_bar bar_id c)\<lparr>wait_mask := {}, bar_phase := x\<rparr>" for x
    using b(1) by (cases "the_bar bar_id c") simp
  have swap: "(the_bar bar_id c)\<lparr>bar_count := x, wait_mask := y\<rparr> = (the_bar bar_id c)\<lparr>wait_mask := y, bar_count := x\<rparr>" for x y
    by (cases "the_bar bar_id c") simp
  have "arrive_local nw bar_id cnt (fst a) (snd a)
      (set_bar bar_id ((the_bar bar_id c)\<lparr>wait_mask := waits_on (wait_mask (the_bar bar_id c)) bs, bar_count := of_nat (length bs)\<rparr>) c)
    = Some (set_bar bar_id ((the_bar bar_id c)\<lparr>wait_mask := {}, bar_phase := bar_phase (the_bar bar_id c) + 1, bar_count := 0\<rparr>)
      (c\<lparr>bc_sched := (bc_sched c)\<lparr>stalled_warps_next := stalled_warps_next (bc_sched c) - waits_on (wait_mask (the_bar bar_id c)) as\<rparr>\<rparr>))"
    using f i b(2) u as(2)
    by (cases "snd a") (simp_all add: arrive_local_def vec_get_def put_bar_eq Let_def w add.commute swap)
  then show ?thesis unfolding sn arrivals_snoc arrivals_wait[OF i b(1) n(1)] by (simp add: b0 sn)
qed


text \<open>
  C14.  A local barrier without pending transactions: until the last of \<open>cnt\<close> arrivals no warp is released and the
  phase stays; the last one releases exactly the warps that wait, those that arrived synchronously and those
  that waited before, starts the next phase and leaves the barrier ready for it.
\<close>

theorem barrier_round:
  assumes "bar_index bar_id < length (bc_bars c)" "bc_bars c ! bar_index bar_id = b" "bar_count b = 0" "bar_events b = 0"
    and "length as = unat cnt" "cnt \<noteq> 0"
    and "wait_mask b \<union> {w. (w, True) \<in> set as} \<subseteq> {..<nw} \<inter> active_warps (bc_sched c) \<inter> stalled_warps_next (bc_sched c)"
  shows "(\<forall>k < length as. arrivals nw bar_id cnt (take k as) c
      = Some (c\<lparr>bc_bars := (bc_bars c)[bar_index bar_id := b\<lparr>wait_mask := wait_mask b \<union> {w. (w, True) \<in> set (take k as)}, bar_count := of_nat k\<rparr>]\<rparr>))
    \<and> arrivals nw bar_id cnt as c
      = Some (c\<lparr>bc_sched := (bc_sched c)\<lparr>stalled_warps_next := stalled_warps_next (bc_sched c) - (wait_mask b \<union> {w. (w, True) \<in> set as})\<rparr>,
          bc_bars := (bc_bars c)[bar_index bar_id := b\<lparr>wait_mask := {}, bar_phase := bar_phase b + 1\<rparr>]\<rparr>)"
proof (intro conjI allI impI)
  fix k assume "k < length as"
  then show "arrivals nw bar_id cnt (take k as) c
      = Some (c\<lparr>bc_bars := (bc_bars c)[bar_index bar_id := b\<lparr>wait_mask := wait_mask b \<union> {w. (w, True) \<in> set (take k as)}, bar_count := of_nat k\<rparr>]\<rparr>)"
    using arrivals_wait[of bar_id c "take k as" cnt nw] assms(1-3,5) by (simp add: set_bar_def waits_on_def)
next
  show "arrivals nw bar_id cnt as c
      = Some (c\<lparr>bc_sched := (bc_sched c)\<lparr>stalled_warps_next := stalled_warps_next (bc_sched c) - (wait_mask b \<union> {w. (w, True) \<in> set as})\<rparr>,
          bc_bars := (bc_bars c)[bar_index bar_id := b\<lparr>wait_mask := {}, bar_phase := bar_phase b + 1\<rparr>]\<rparr>)"
    using arrivals_last[of bar_id c as cnt nw] assms by (simp add: set_bar_def waits_on_def)
qed

text \<open>Two warps at a barrier of a core whose warps 0 and 1 are stalled, in the phase that follows the first.\<close>

definition bar_demo :: "32 bcore" where
  "bar_demo = \<lparr>bc_sched = (scheduler_new demo_cfg)\<lparr>active_warps := {0, 1}, stalled_warps_next := {0, 1}\<rparr>,
     bc_bars = [barrier_reset, barrier_reset\<lparr>bar_phase := 1\<rparr>]\<rparr>"

theorem barrier_round_witness:
  "arrivals 4 1 2 [(0, True), (1, True)] bar_demo
    = Some (bar_demo\<lparr>bc_sched := (bc_sched bar_demo)\<lparr>stalled_warps_next := {}\<rparr>,
        bc_bars := [barrier_reset, barrier_reset\<lparr>bar_phase := 2\<rparr>]\<rparr>)"
proof -
  have w: "{w. w = 0 \<or> w = Suc 0} = {0, 1}" by auto
  show ?thesis
    using barrier_round[of 1 bar_demo "barrier_reset\<lparr>bar_phase := 1\<rparr>" "[(0, True), (1, True)]" 2 4]
    by (simp add: bar_demo_def bar_index_def barrier_reset_def w)
qed

end
