(* ===== verification/Wctl.thy ===== *)
theory Wctl
  imports Barrier
begin

text \<open>
  Warp control, \<open>src/vortex/sim/simx/wctl_unit.cpp\<close>: thread masks, spawning, divergence with the stack of reconvergence
  points, barriers and predication.  An abort, a failed assertion and an access outside a vector are \<open>None\<close>, and
  so is a shift of \<open>1\<close> by 32 or more, which C++ leaves undefined.
\<close>

unbundle bit_operations_syntax

section \<open>The unit\<close>

datatype wctl_type = TMC | WSPAWN | SPLIT | JOIN | BAR | PRED | WSYNC

record wctl_args =
  is_cond_neg :: bool
  is_sync_bar :: bool
  is_bar_arrive :: bool

record (overloaded) 'w wctl_trace =
  wt_wid :: nat
  wt_PC :: "'w::len word"
  wt_eop :: bool
  wt_wb :: bool
  wt_fetch_stall :: bool
  wt_rs1 :: "'w word list"
  wt_rs2 :: "'w word list"
  wt_dst :: "'w word list"

definition thread_start :: "nat \<Rightarrow> 'w::len bitvector \<Rightarrow> nat" where
  "thread_start nt m = (case List.find (\<lambda>t. bv_test m t = Some True) [0..<nt] of None \<Rightarrow> nt | Some t \<Rightarrow> t)"

text \<open>The last lane; no lane gives -1, which is outside every vector.\<close>

definition thread_last :: "nat \<Rightarrow> 'w::len bitvector \<Rightarrow> nat option" where
  "thread_last nt m = List.find (\<lambda>t. bv_test m t = Some True) (rev [0..<nt])"

definition last_value :: "nat \<Rightarrow> 'w::len bitvector \<Rightarrow> 'w word list \<Rightarrow> 'w word option" where
  "last_value nt m xs = Option.bind (thread_last nt m) (vec_get xs)"

text \<open>A mask filled lane by lane.\<close>

definition lane_mask :: "nat \<Rightarrow> (nat \<Rightarrow> bool option) \<Rightarrow> 'w::len bitvector option" where
  "lane_mask nt p =
     fold (\<lambda>t acc. Option.bind acc (\<lambda>a. Option.bind (p t) (\<lambda>v. bv_set_to a t v))) [0..<nt] (Some (bv_new nt))"

text \<open>\<open>1 << t\<close> is an \<open>int\<close>: lane 31 tests the sign bits of a 64-bit register.\<close>

definition tmc_lane :: "'w::len word \<Rightarrow> nat \<Rightarrow> bool option" where
  "tmc_lane v t = (if t < 32 then Some (v AND scast (push_bit t (1 :: u32)) \<noteq> 0) else None)"

definition wctl_tmc :: "disp_cfg \<Rightarrow> 'w::len wctl_trace \<Rightarrow> 'w scheduler \<Rightarrow> (bool \<times> 'w scheduler) option" where
  "wctl_tmc cfg tr s =
     do {
       w \<leftarrow> vec_get (sch_warps s) (wt_wid tr);
       v \<leftarrow> last_value (unat (cfg_num_threads cfg)) (w_tmask w) (wt_rs1 tr);
       m \<leftarrow> lane_mask (unat (cfg_num_threads cfg)) (tmc_lane v);
       if wt_eop tr then setTmask cfg (wt_wid tr) m s else Some (wt_fetch_stall tr, s)
     }"

definition wctl_wspawn :: "disp_cfg \<Rightarrow> 'w::len wctl_trace \<Rightarrow> 'w scheduler \<Rightarrow> (bool \<times> 'w scheduler) option" where
  "wctl_wspawn cfg tr s =
     (if wt_eop tr then
        do {
          w \<leftarrow> vec_get (sch_warps s) (wt_wid tr);
          n \<leftarrow> last_value (unat (cfg_num_threads cfg)) (w_tmask w) (wt_rs1 tr);
          pc \<leftarrow> last_value (unat (cfg_num_threads cfg)) (w_tmask w) (wt_rs2 tr);
          Some (wspawn cfg (ucast n) pc s)
        }
      else Some (wt_fetch_stall tr, s))"

text \<open>The predicate of a lane, and the lanes of the mask for which it has a value.\<close>

definition lane_cond :: "bool \<Rightarrow> 'w::len wctl_trace \<Rightarrow> nat \<Rightarrow> bool option" where
  "lane_cond neg tr t = map_option (\<lambda>v. bit v 0 \<noteq> neg) (vec_get (wt_rs1 tr) t)"

definition side_mask :: "nat \<Rightarrow> bool \<Rightarrow> 'w::len wctl_trace \<Rightarrow> 'w bitvector \<Rightarrow> bool \<Rightarrow> 'w bitvector option" where
  "side_mask nt neg tr m side =
     lane_mask nt (\<lambda>t. do { c \<leftarrow> lane_cond neg tr t; a \<leftarrow> bv_test m t; Some (a \<and> c = side) })"

definition wctl_split :: "disp_cfg \<Rightarrow> bool \<Rightarrow> 'w::len wctl_trace \<Rightarrow> 'w scheduler \<Rightarrow> (bool \<times> 'w word list \<times> 'w scheduler) option" where
  "wctl_split cfg neg tr s =
     (let nt = unat (cfg_num_threads cfg) in
      do {
        w \<leftarrow> vec_get (sch_warps s) (wt_wid tr);
        then_m \<leftarrow> side_mask nt neg tr (w_tmask w) True;
        else_m \<leftarrow> side_mask nt neg tr (w_tmask w) False;
        let stack_size = length (ipdom_stack w);
        let dst = map (\<lambda>(t, v). if thread_start nt (w_tmask w) \<le> t \<and> t < nt then of_nat stack_size else v) (enumerate 0 (wt_dst tr));
        if \<not> wt_eop tr then Some (wt_fetch_stall tr, dst, s)
        else if bv_any then_m \<and> bv_any else_m then
          (if stack_size = nt - 1 then None
           else do {
             s1 \<leftarrow> update_warp (wt_wid tr) (\<lambda>w. w\<lparr>ipdom_stack := \<lparr>orig_tmask = w_tmask w, else_PC = wt_PC tr + 4, fallthrough = False\<rparr> # ipdom_stack w\<rparr>) s;
             (r, s2) \<leftarrow> setTmask cfg (wt_wid tr) (if bv_count then_m \<le> bv_count else_m then then_m else else_m) s1;
             Some (r, dst, s2)
           })
        else do {
          (r, s2) \<leftarrow> setTmask cfg (wt_wid tr) (w_tmask w) s;
          Some (r, dst, s2)
        }
      })"

definition wctl_join :: "disp_cfg \<Rightarrow> 'w::len wctl_trace \<Rightarrow> 'w scheduler \<Rightarrow> (bool \<times> 'w scheduler) option" where
  "wctl_join cfg tr s =
     do {
       w \<leftarrow> vec_get (sch_warps s) (wt_wid tr);
       stack_ptr \<leftarrow> last_value (unat (cfg_num_threads cfg)) (w_tmask w) (wt_rs1 tr);
       if \<not> wt_eop tr then Some (wt_fetch_stall tr, s)
       else if unat stack_ptr = length (ipdom_stack w) then setTmask cfg (wt_wid tr) (w_tmask w) s
       else
         (case ipdom_stack w of
            [] \<Rightarrow> None
          | e # es \<Rightarrow>
              if fallthrough e then
                do {
                  s1 \<leftarrow> update_warp (wt_wid tr) (\<lambda>w. w\<lparr>ipdom_stack := es\<rparr>) s;
                  setTmask cfg (wt_wid tr) (orig_tmask e) s1
                }
              else
                do {
                  m \<leftarrow> bv_and (bv_flip (w_tmask w)) (orig_tmask e);
                  s1 \<leftarrow> update_warp (wt_wid tr) (\<lambda>w. w\<lparr>w_PC := else_PC e, ipdom_stack := e\<lparr>fallthrough := True\<rparr> # es\<rparr>) s;
                  setTmask cfg (wt_wid tr) m s1
                })
     }"

definition wctl_pred :: "disp_cfg \<Rightarrow> bool \<Rightarrow> 'w::len wctl_trace \<Rightarrow> 'w scheduler \<Rightarrow> (bool \<times> 'w scheduler) option" where
  "wctl_pred cfg neg tr s =
     (let nt = unat (cfg_num_threads cfg) in
      do {
        w \<leftarrow> vec_get (sch_warps s) (wt_wid tr);
        p \<leftarrow> side_mask nt neg tr (w_tmask w) True;
        m \<leftarrow> (if bv_any p then bv_and (w_tmask w) p
              else map_option (bv_of_word nt) (last_value nt (w_tmask w) (wt_rs2 tr)));
        if wt_eop tr then setTmask cfg (wt_wid tr) m s else Some (wt_fetch_stall tr, s)
      })"

section \<open>Barriers\<close>

definition core_of :: "u32 \<Rightarrow> 'w::len cluster \<Rightarrow> 'w bcore option" where
  "core_of core_id cl = vec_get (cl_cores cl) (unat core_id mod length (cl_cores cl))"

definition wctl_bar :: "disp_cfg \<Rightarrow> u32 \<Rightarrow> u32 \<Rightarrow> wctl_args \<Rightarrow> 'w::len wctl_trace \<Rightarrow> 'w cluster
    \<Rightarrow> (bool \<times> 'w word list \<times> 'w cluster) option" where
  "wctl_bar cfg num_barriers core_id args tr cl =
     (let nt = unat (cfg_num_threads cfg); nw = unat (cfg_num_warps cfg);
          i = unat core_id mod length (cl_cores cl) in
      do {
        c \<leftarrow> core_of core_id cl;
        w \<leftarrow> vec_get (sch_warps (bc_sched c)) (wt_wid tr);
        a1 \<leftarrow> last_value nt (w_tmask w) (wt_rs1 tr);
        a2 \<leftarrow> last_value nt (w_tmask w) (wt_rs2 tr);
        let arg2 = (ucast a2 :: u32);
        let bar_id = bar_decode_id (ucast a1) num_barriers;
        dst \<leftarrow> (if is_bar_arrive args then
                  map_option (\<lambda>ph. map (\<lambda>(t, v). if bv_test (w_tmask w) t = Some True then ucast (ph AND 1) else v) (enumerate 0 (wt_dst tr)))
                    (get_phase bar_id c)
                else Some (wt_dst tr));
        if \<not> wt_eop tr then Some (wt_fetch_stall tr, dst, cl)
        else if is_bar_arrive args \<and> bit arg2 31 then
          map_option (\<lambda>cl. (wt_fetch_stall tr, dst, cl)) (on_core i (event_attach bar_id (arg2 AND 0x7fffffff)) cl)
        else if wt_wb tr \<or> is_sync_bar args then
          map_option (\<lambda>cl. (wt_fetch_stall tr \<and> \<not> is_sync_bar args, dst, cl))
            (bar_arrive nw bar_id arg2 (wt_wid tr) (is_sync_bar args) core_id cl)
        else do {
          (waits, c1) \<leftarrow> bar_wait bar_id arg2 (wt_wid tr) c;
          cs \<leftarrow> vec_put (cl_cores cl) i c1;
          Some (\<not> waits, dst, cl\<lparr>cl_cores := cs\<rparr>)
        }
      })"

section \<open>Dispatch\<close>

definition with_sched :: "u32 \<Rightarrow> ('w::len scheduler \<Rightarrow> ('a \<times> 'w scheduler) option) \<Rightarrow> 'w cluster \<Rightarrow> ('a \<times> 'w cluster) option" where
  "with_sched core_id f cl =
     do {
       c \<leftarrow> core_of core_id cl;
       (r, s) \<leftarrow> f (bc_sched c);
       cs \<leftarrow> vec_put (cl_cores cl) (unat core_id mod length (cl_cores cl)) (c\<lparr>bc_sched := s\<rparr>);
       Some (r, cl\<lparr>cl_cores := cs\<rparr>)
     }"

definition keep_dst :: "'w::len wctl_trace \<Rightarrow> (bool \<times> 'w cluster) option \<Rightarrow> (bool \<times> 'w word list \<times> 'w cluster) option" where
  "keep_dst tr r = map_option (\<lambda>(b, cl). (b, wt_dst tr, cl)) r"

definition wctl_process :: "disp_cfg \<Rightarrow> u32 \<Rightarrow> u32 \<Rightarrow> wctl_type \<Rightarrow> wctl_args \<Rightarrow> 'w::len wctl_trace \<Rightarrow> 'w cluster
    \<Rightarrow> (bool \<times> 'w word list \<times> 'w cluster) option" where
  "wctl_process cfg num_barriers core_id ty args tr cl =
     (case ty of
        TMC \<Rightarrow> keep_dst tr (with_sched core_id (wctl_tmc cfg tr) cl)
      | WSPAWN \<Rightarrow> keep_dst tr (with_sched core_id (wctl_wspawn cfg tr) cl)
      | SPLIT \<Rightarrow> map_option (\<lambda>((r, dst), cl). (r, dst, cl))
          (with_sched core_id (\<lambda>s. map_option (\<lambda>(r, dst, s). ((r, dst), s)) (wctl_split cfg (is_cond_neg args) tr s)) cl)
      | JOIN \<Rightarrow> keep_dst tr (with_sched core_id (wctl_join cfg tr) cl)
      | BAR \<Rightarrow> wctl_bar cfg num_barriers core_id args tr cl
      | PRED \<Rightarrow> keep_dst tr (with_sched core_id (wctl_pred cfg (is_cond_neg args) tr) cl)
      | WSYNC \<Rightarrow> Some (True, wt_dst tr, cl))"

section \<open>Tokens of asynchronous arrivals\<close>

lemma low_bit_token: "(ucast (ucast (ph AND 1 :: u32) :: 'w::len word) :: u32) = ph AND 1"
proof -
  have "ph AND 1 = 0 \<or> ph AND 1 = 1" by (simp add: and_one_eq) (metis mod2_eq_if)
  then show ?thesis by auto
qed

lemma low_bit_fixed: "(ph :: u32) = ph AND 1 \<longleftrightarrow> ph < 2"
  by (simp add: and_one_eq word_unat_eq_iff unat_mod_distrib word_less_nat_alt) presburger

lemma wctl_bar_token:
  assumes "wctl_bar cfg nb core_id args tr cl = Some (r, dst, cl')" "is_bar_arrive args"
    "core_of core_id cl = Some c" "vec_get (sch_warps (bc_sched c)) (wt_wid tr) = Some w"
    "last_value (unat (cfg_num_threads cfg)) (w_tmask w) (wt_rs1 tr) = Some a1"
    "get_phase (bar_decode_id (ucast a1) nb) c = Some ph"
  shows "dst = map (\<lambda>(t, v). if bv_test (w_tmask w) t = Some True then ucast (ph AND 1) else v) (enumerate 0 (wt_dst tr))"
  using assms by (auto simp: wctl_bar_def Let_def bind_eq_Some_conv split: if_splits)

text \<open>
  C15.  The token an asynchronous arrival writes to the lanes of its warp is the low bit of the phase, but \<open>wait\<close> compares
  it with the whole phase counter: as long as that phase is not over, a warp that waits with the token is suspended
  when the phase is one of the first two of the barrier, and passes it in all later ones.
\<close>

theorem async_wait_phases:
  assumes arrive: "wctl_bar cfg nb core_id args tr cl = Some (r, dst, cl')" "is_bar_arrive args"
    and warp: "core_of core_id cl = Some c" "vec_get (sch_warps (bc_sched c)) (wt_wid tr) = Some w"
    and bar: "last_value (unat (cfg_num_threads cfg)) (w_tmask w) (wt_rs1 tr) = Some a1" "bar_id = bar_decode_id (ucast a1) nb"
    and lane: "bv_test (w_tmask w) t = Some True" "t < length dst"
    and phase: "get_phase bar_id c = Some ph" "get_phase bar_id c' = Some ph"
  shows "dst ! t = ucast (ph AND 1)
    \<and> map_option fst (bar_wait bar_id (ucast (dst ! t)) wid c') = Some (ph < 2)"
proof -
  have d: "dst ! t = ucast (ph AND 1)"
    using wctl_bar_token[OF arrive warp bar(1) phase(1)[unfolded bar(2)]] lane by (auto simp: nth_enumerate_eq)
  have "map_option fst (bar_wait bar_id (ph AND 1) wid c') = Some (ph < 2)"
    using phase(2) low_bit_fixed[of ph] by (auto simp: get_phase_def bar_wait_def vec_get_def put_bar_eq split: if_splits)
  then show ?thesis using d low_bit_token by metis
qed

text \<open>Warp 0 arrives at a barrier in its third phase, one of two arrivals expected.\<close>

definition async_core :: "32 bcore" where
  "async_core = bar_demo\<lparr>bc_sched := (bc_sched bar_demo)\<lparr>sch_warps := map (\<lambda>w. w\<lparr>w_tmask := bv_of_word 4 1\<rparr>) (sch_warps (bc_sched bar_demo))\<rparr>,
     bc_bars := [barrier_reset, barrier_reset\<lparr>bar_phase := 2\<rparr>]\<rparr>"

definition async_trace :: "32 wctl_trace" where
  "async_trace = \<lparr>wt_wid = 0, wt_PC = 0, wt_eop = True, wt_wb = True, wt_fetch_stall = False,
     wt_rs1 = [0x100, 0, 0, 0], wt_rs2 = [2, 0, 0, 0], wt_dst = [7, 7, 7, 7]\<rparr>"

definition async_arrival :: "(bool \<times> 32 word list \<times> 32 cluster) option" where
  "async_arrival = wctl_bar demo_cfg 2 0 \<lparr>is_cond_neg = False, is_sync_bar = False, is_bar_arrive = True\<rparr> async_trace
     \<lparr>cl_cores = [async_core], cl_gbars = []\<rparr>"

theorem async_wait_phases_witness:
  "case async_arrival of None \<Rightarrow> False
   | Some (r, dst, cl') \<Rightarrow> dst ! 0 = 0 \<and> get_phase 1 (cl_cores cl' ! 0) = Some 2
       \<and> map_option fst (bar_wait 1 (ucast (dst ! 0)) 0 (cl_cores cl' ! 0)) = Some False"
proof -
  have run: "case async_arrival of None \<Rightarrow> False | Some (r, dst, cl') \<Rightarrow> 0 < length dst \<and> get_phase 1 (cl_cores cl' ! 0) = Some 2"
    by code_simp
  obtain r dst cl' where s: "async_arrival = Some (r, dst, cl')" using run by (cases async_arrival) auto
  have q: "0 < length dst" "get_phase 1 (cl_cores cl' ! 0) = Some 2" using run by (simp_all add: s)
  let ?w = "sch_warps (bc_sched async_core) ! 0"
  have w: "vec_get (sch_warps (bc_sched async_core)) 0 = Some ?w" by code_simp
  have v: "last_value 4 (w_tmask ?w) (wt_rs1 async_trace) = Some 0x100" by code_simp
  have b: "bar_decode_id 0x100 2 = 1" by code_simp
  have t: "bv_test (w_tmask ?w) 0 = Some True" by code_simp
  have p: "get_phase 1 async_core = Some 2" by code_simp
  have n: "unat (cfg_num_threads demo_cfg) = 4" by (simp add: demo_cfg_def)
  have "dst ! 0 = ucast (2 AND 1 :: u32) \<and> map_option fst (bar_wait 1 (ucast (dst ! 0)) 0 (cl_cores cl' ! 0)) = Some ((2 :: u32) < 2)"
    using async_wait_phases[OF s[unfolded async_arrival_def], of async_core ?w "0x100" 1 0 2 "cl_cores cl' ! 0" 0] w v b t p n q
    by (auto simp: core_of_def vec_get_def async_trace_def)
  then show ?thesis using q(2) by (auto simp: s)
qed

end
