(* ===== verification/Simt.thy ===== *)
theory Simt
  imports Wctl
begin

text \<open>
  Divergence and reconvergence of the threads of a warp, over the model of the warp control unit: what \<open>split\<close> and
  \<open>join\<close> do to the thread mask and to the stack of open branches, structured programs with nested branches, their
  meaning for one thread alone, and the theorem that running them warp by warp gives every thread its own result.
\<close>

section \<open>Masks of a warp\<close>

lemma lane_mask_ok:
  assumes "\<And>t. t < nt \<Longrightarrow> p t = Some (q t)"
  shows "\<exists>m :: 'w::len bitvector. lane_mask nt p = Some m \<and> mask_ok nt m \<and> bv_bits m = {t. t < nt \<and> q t}"
proof -
  let ?e = "Some (bv_new nt) :: 'w bitvector option"
  have "fold (\<lambda>t acc. Option.bind acc (\<lambda>a. Option.bind (p t) (\<lambda>v. bv_set_to a t v))) [0..<nt] ?e
      = fold (\<lambda>t acc. Option.bind acc (\<lambda>a. bv_set_to a t (q t))) [0..<nt] ?e"
    by (rule fold_cong) (auto simp: assms)
  moreover obtain m :: "'w bitvector" where "fold (\<lambda>t acc. Option.bind acc (\<lambda>a. bv_set_to a t (q t))) [0..<nt] ?e = Some m"
    "bv_ok m" "bv_size m = nt" "bv_bits m = {t. t < nt \<and> q t}" using tm.fill_loop[of nt nt q] by blast
  ultimately show ?thesis unfolding lane_mask_def mask_ok_def by (intro exI[of _ m]) simp
qed

lemma other_side_ok:
  assumes "mask_ok nt m" "mask_ok nt a" "bv_bits a \<subseteq> bv_bits m"
  shows "\<exists>c. bv_and (bv_flip a) m = Some c \<and> mask_ok nt c \<and> bv_bits c = bv_bits m - bv_bits a"
  using tm.other_side[of m a] assms by (auto simp: mask_ok_def)

lemma side_mask_ok:
  assumes "mask_ok nt m" "length (wt_rs1 tr) = nt"
  shows "\<exists>a. side_mask nt neg tr m side = Some a \<and> mask_ok nt a
    \<and> bv_bits a = {t \<in> bv_bits m. (bit (wt_rs1 tr ! t) 0 \<noteq> neg) = side}"
proof -
  have "\<exists>a. side_mask nt neg tr m side = Some a \<and> mask_ok nt a
      \<and> bv_bits a = {t. t < nt \<and> (t \<in> bv_bits m \<and> (bit (wt_rs1 tr ! t) 0 \<noteq> neg) = side)}"
    unfolding side_mask_def
    by (rule lane_mask_ok) (use assms in \<open>simp add: lane_cond_def vec_get_def mask_test[OF assms(1)]\<close>)
  then show ?thesis using mask_bits[OF assms(1)] by (simp add: conj_ac Collect_conv_if cong: conj_cong) blast
qed

lemma thread_last_in:
  assumes "mask_ok nt m" "bv_bits m \<noteq> {}"
  shows "\<exists>t. thread_last nt m = Some t \<and> t \<in> bv_bits m"
proof -
  obtain u where "u \<in> bv_bits m" using assms(2) by blast
  then have "List.find (\<lambda>t. bv_test m t = Some True) (rev [0..<nt]) \<noteq> None"
    using mask_bits[OF assms(1)] mask_test[OF assms(1)] by (auto simp: find_None_iff)
  then obtain t where t: "thread_last nt m = Some t" by (auto simp: thread_last_def)
  then have "t < nt" "bv_test m t = Some True" by (auto simp: thread_last_def find_Some_iff rev_nth)
  then show ?thesis using t mask_test[OF assms(1)] by auto
qed

lemma thread_start_le: "mask_ok nt m \<Longrightarrow> t \<in> bv_bits m \<Longrightarrow> thread_start nt m \<le> t"
proof -
  assume m: "mask_ok nt m" "t \<in> bv_bits m"
  then have t: "t < nt" "bv_test m t = Some True" using mask_bits[OF m] mask_test[OF m(1)] by auto
  then have "List.find (\<lambda>t. bv_test m t = Some True) [0..<nt] \<noteq> None" by (auto simp: find_None_iff)
  then obtain u where u: "List.find (\<lambda>t. bv_test m t = Some True) [0..<nt] = Some u" by auto
  then have "u \<le> t" using t by (auto simp: find_Some_iff) (metis add_0 leI nth_upt order.strict_trans)
  then show "thread_start nt m \<le> t" using u by (simp add: thread_start_def)
qed
section \<open>The operations on one warp\<close>

definition put_warp :: "nat \<Rightarrow> 'w::len warp_t \<Rightarrow> 'w scheduler \<Rightarrow> 'w scheduler" where
  "put_warp wid w s = s\<lparr>sch_warps := (sch_warps s)[wid := w]\<rparr>"

abbreviation the_warp :: "nat \<Rightarrow> 'w::len scheduler \<Rightarrow> 'w warp_t" where
  "the_warp wid s \<equiv> sch_warps s ! wid"

lemma put_warp_simps [simp]:
  "wid < length (sch_warps s) \<Longrightarrow> the_warp wid (put_warp wid w s) = w"
  "length (sch_warps (put_warp wid w s)) = length (sch_warps s)"
  "put_warp wid v (put_warp wid w s) = put_warp wid v s"
  "put_warp wid (the_warp wid s) s = s"
  "active_warps (put_warp wid w s) = active_warps s"
  by (simp_all add: put_warp_def)

lemma update_warp_eq: "wid < length (sch_warps s) \<Longrightarrow> update_warp wid f s = Some (put_warp wid (f (the_warp wid s)) s)"
  by (simp add: update_warp_def put_warp_def vec_get_def vec_put_def)

lemma setTmask_any: "wid < length (sch_warps s) \<Longrightarrow> bv_any m
    \<Longrightarrow> setTmask cfg wid m s = Some (True, put_warp wid ((the_warp wid s)\<lparr>w_tmask := m\<rparr>) s)"
  by (simp add: setTmask_def update_warp_eq)

lemma last_value_ok:
  assumes "mask_ok nt m" "bv_bits m \<noteq> {}" "length xs = nt" "\<forall>t \<in> bv_bits m. xs ! t = v"
  shows "last_value nt m xs = Some v"
proof -
  obtain t where t: "thread_last nt m = Some t" "t \<in> bv_bits m" using thread_last_in[OF assms(1,2)] by blast
  then show ?thesis using assms(3,4) mask_bits[OF assms(1)] by (auto simp: last_value_def vec_get_def)
qed

definition pushed :: "'w::len word \<Rightarrow> 'w bitvector \<Rightarrow> 'w warp_t \<Rightarrow> 'w warp_t" where
  "pushed pc m w = w\<lparr>ipdom_stack := \<lparr>orig_tmask = w_tmask w, else_PC = pc, fallthrough = False\<rparr> # ipdom_stack w, w_tmask := m\<rparr>"

lemma split_dst:
  assumes "mask_ok nt m" "length xs = nt" "t \<in> bv_bits m"
  shows "map (\<lambda>(t, v). if thread_start nt m \<le> t \<and> t < nt then x else v) (enumerate 0 xs) ! t = x"
  using assms mask_bits[OF assms(1,3)] thread_start_le[OF assms(1,3)] by (simp add: nth_enumerate_eq)

lemma split_divergent:
  fixes s :: "'w::len scheduler"
  assumes wid: "wt_wid tr < length (sch_warps s)" and ok: "mask_ok nt (w_tmask (the_warp (wt_wid tr) s))" and nt: "nt = unat (cfg_num_threads cfg)"
    and tr: "wt_eop tr" "length (wt_rs1 tr) = nt" "length (wt_dst tr) = nt"
    and t: "t1 \<in> bv_bits (w_tmask (the_warp (wt_wid tr) s))" "bit (wt_rs1 tr ! t1) 0 \<noteq> neg"
    and e: "t2 \<in> bv_bits (w_tmask (the_warp (wt_wid tr) s))" "bit (wt_rs1 tr ! t2) 0 = neg"
    and room: "length (ipdom_stack (the_warp (wt_wid tr) s)) \<noteq> nt - 1"
  shows "\<exists>dst m side. wctl_split cfg neg tr s = Some (True, dst, put_warp (wt_wid tr) (pushed (wt_PC tr + 4) m (the_warp (wt_wid tr) s)) s)
    \<and> mask_ok nt m \<and> bv_bits m = {t \<in> bv_bits (w_tmask (the_warp (wt_wid tr) s)). (bit (wt_rs1 tr ! t) 0 \<noteq> neg) = side}
    \<and> length dst = nt \<and> (\<forall>t \<in> bv_bits (w_tmask (the_warp (wt_wid tr) s)). dst ! t = of_nat (length (ipdom_stack (the_warp (wt_wid tr) s))))"
proof -
  let ?w = "the_warp (wt_wid tr) s"
  obtain a where a: "side_mask nt neg tr (w_tmask ?w) True = Some a" "mask_ok nt a"
    "bv_bits a = {t \<in> bv_bits (w_tmask ?w). (bit (wt_rs1 tr ! t) 0 \<noteq> neg) = True}" using side_mask_ok[OF ok tr(2), of neg True] by (elim exE conjE) (rule that)
  obtain b where b: "side_mask nt neg tr (w_tmask ?w) False = Some b" "mask_ok nt b"
    "bv_bits b = {t \<in> bv_bits (w_tmask ?w). (bit (wt_rs1 tr ! t) 0 \<noteq> neg) = False}" using side_mask_ok[OF ok tr(2), of neg False] by (elim exE conjE) (rule that)
  have any: "bv_any a" "bv_any b" using t e a(3) b(3) mask_any[OF a(2)] mask_any[OF b(2)] by auto
  let ?m = "if bv_count a \<le> bv_count b then a else b"
  let ?dst = "map (\<lambda>(t, v). if thread_start nt (w_tmask ?w) \<le> t \<and> t < nt then of_nat (length (ipdom_stack ?w)) else v) (enumerate 0 (wt_dst tr)) :: 'w word list"
  have "bv_any ?m" using any by simp
  then have "wctl_split cfg neg tr s = Some (True, ?dst, put_warp (wt_wid tr) (pushed (wt_PC tr + 4) ?m ?w) s)"
    using a(1) b(1) any room wid tr(1)
    by (simp add: wctl_split_def nt[symmetric] Let_def vec_get_def update_warp_eq setTmask_any pushed_def)
  moreover have "mask_ok nt ?m" "bv_bits ?m = {t \<in> bv_bits (w_tmask ?w). (bit (wt_rs1 tr ! t) 0 \<noteq> neg) = (bv_count a \<le> bv_count b)}"
    using a b by auto
  moreover have "length ?dst = nt" "\<forall>t \<in> bv_bits (w_tmask ?w). ?dst ! t = of_nat (length (ipdom_stack ?w))"
    using tr(3) split_dst[OF ok tr(3)] by auto
  ultimately show ?thesis by (intro exI[of _ ?dst] exI[of _ ?m] exI[of _ "bv_count a \<le> bv_count b"] conjI)
qed

lemma split_uniform:
  fixes s :: "'w::len scheduler"
  assumes wid: "wt_wid tr < length (sch_warps s)" and ok: "mask_ok nt (w_tmask (the_warp (wt_wid tr) s))" and nt: "nt = unat (cfg_num_threads cfg)"
    and tr: "wt_eop tr" "length (wt_rs1 tr) = nt" "length (wt_dst tr) = nt" and ne: "bv_bits (w_tmask (the_warp (wt_wid tr) s)) \<noteq> {}"
    and u: "\<forall>t \<in> bv_bits (w_tmask (the_warp (wt_wid tr) s)). (bit (wt_rs1 tr ! t) 0 \<noteq> neg) = v"
  shows "\<exists>dst. wctl_split cfg neg tr s = Some (True, dst, s)
    \<and> length dst = nt \<and> (\<forall>t \<in> bv_bits (w_tmask (the_warp (wt_wid tr) s)). dst ! t = of_nat (length (ipdom_stack (the_warp (wt_wid tr) s))))"
proof -
  let ?w = "the_warp (wt_wid tr) s"
  obtain a where a: "side_mask nt neg tr (w_tmask ?w) True = Some a" "mask_ok nt a"
    "bv_bits a = {t \<in> bv_bits (w_tmask ?w). (bit (wt_rs1 tr ! t) 0 \<noteq> neg) = True}" using side_mask_ok[OF ok tr(2), of neg True] by (elim exE conjE) (rule that)
  obtain b where b: "side_mask nt neg tr (w_tmask ?w) False = Some b" "mask_ok nt b"
    "bv_bits b = {t \<in> bv_bits (w_tmask ?w). (bit (wt_rs1 tr ! t) 0 \<noteq> neg) = False}" using side_mask_ok[OF ok tr(2), of neg False] by (elim exE conjE) (rule that)
  have any: "bv_any a \<longleftrightarrow> v" "bv_any b \<longleftrightarrow> \<not> v" using u ne a(3) b(3) mask_any[OF a(2)] mask_any[OF b(2)] by (cases v; auto)+
  let ?dst = "map (\<lambda>(t, v). if thread_start nt (w_tmask ?w) \<le> t \<and> t < nt then of_nat (length (ipdom_stack ?w)) else v) (enumerate 0 (wt_dst tr)) :: 'w word list"
  have "bv_any (w_tmask ?w)" using ne mask_any[OF ok] by simp
  then have "wctl_split cfg neg tr s = Some (True, ?dst, s)"
    using a(1) b(1) any wid tr(1)
    by (cases v) (simp_all add: wctl_split_def nt[symmetric] Let_def vec_get_def setTmask_any)
  moreover have "length ?dst = nt" "\<forall>t \<in> bv_bits (w_tmask ?w). ?dst ! t = of_nat (length (ipdom_stack ?w))"
    using tr(3) split_dst[OF ok tr(3)] by auto
  ultimately show ?thesis by (intro exI[of _ ?dst] conjI)
qed


lemma join_aligned:
  assumes wid: "wt_wid tr < length (sch_warps s)" and ok: "mask_ok nt (w_tmask (the_warp (wt_wid tr) s))" and nt: "nt = unat (cfg_num_threads cfg)"
    and ne: "bv_bits (w_tmask (the_warp (wt_wid tr) s)) \<noteq> {}" and tr: "wt_eop tr" "length (wt_rs1 tr) = nt"
    and v: "\<forall>t \<in> bv_bits (w_tmask (the_warp (wt_wid tr) s)). wt_rs1 tr ! t = v" "unat v = length (ipdom_stack (the_warp (wt_wid tr) s))"
  shows "wctl_join cfg tr s = Some (True, s)"
proof -
  have "bv_any (w_tmask (the_warp (wt_wid tr) s))" using ne mask_any[OF ok] by simp
  then show ?thesis using last_value_ok[OF ok ne tr(2) v(1)] wid tr(1) v(2)
    by (simp add: wctl_join_def nt[symmetric] vec_get_def setTmask_any)
qed

lemma join_first:
  assumes wid: "wt_wid tr < length (sch_warps s)" and ok: "mask_ok nt (w_tmask (the_warp (wt_wid tr) s))" and nt: "nt = unat (cfg_num_threads cfg)"
    and ne: "bv_bits (w_tmask (the_warp (wt_wid tr) s)) \<noteq> {}" and tr: "wt_eop tr" "length (wt_rs1 tr) = nt"
    and v: "\<forall>t \<in> bv_bits (w_tmask (the_warp (wt_wid tr) s)). wt_rs1 tr ! t = v" "unat v \<noteq> length (ipdom_stack (the_warp (wt_wid tr) s))"
    and e: "ipdom_stack (the_warp (wt_wid tr) s) = e # es" "\<not> fallthrough e" "mask_ok nt (orig_tmask e)"
      "bv_bits (w_tmask (the_warp (wt_wid tr) s)) \<subset> bv_bits (orig_tmask e)"
  shows "\<exists>m. wctl_join cfg tr s = Some (True, put_warp (wt_wid tr) ((the_warp (wt_wid tr) s)\<lparr>w_PC := else_PC e,
      ipdom_stack := e\<lparr>fallthrough := True\<rparr> # es, w_tmask := m\<rparr>) s)
    \<and> mask_ok nt m \<and> bv_bits m = bv_bits (orig_tmask e) - bv_bits (w_tmask (the_warp (wt_wid tr) s))"
proof -
  let ?w = "the_warp (wt_wid tr) s"
  obtain m where m: "bv_and (bv_flip (w_tmask ?w)) (orig_tmask e) = Some m" "mask_ok nt m" "bv_bits m = bv_bits (orig_tmask e) - bv_bits (w_tmask ?w)"
    using other_side_ok[OF e(3) ok] e(4) by blast
  have "bv_any m" using m(3) e(4) mask_any[OF m(2)] by auto
  then have "wctl_join cfg tr s = Some (True, put_warp (wt_wid tr) (?w\<lparr>w_PC := else_PC e, ipdom_stack := e\<lparr>fallthrough := True\<rparr> # es, w_tmask := m\<rparr>) s)"
    using last_value_ok[OF ok ne tr(2) v(1)] wid tr(1) v(2) e(1,2) m(1)
    by (simp add: wctl_join_def nt[symmetric] vec_get_def setTmask_any update_warp_eq)
  then show ?thesis using m(2,3) by (intro exI[of _ m] conjI)
qed

lemma join_second:
  assumes wid: "wt_wid tr < length (sch_warps s)" and ok: "mask_ok nt (w_tmask (the_warp (wt_wid tr) s))" and nt: "nt = unat (cfg_num_threads cfg)"
    and ne: "bv_bits (w_tmask (the_warp (wt_wid tr) s)) \<noteq> {}" and tr: "wt_eop tr" "length (wt_rs1 tr) = nt"
    and v: "\<forall>t \<in> bv_bits (w_tmask (the_warp (wt_wid tr) s)). wt_rs1 tr ! t = v" "unat v \<noteq> length (ipdom_stack (the_warp (wt_wid tr) s))"
    and e: "ipdom_stack (the_warp (wt_wid tr) s) = e # es" "fallthrough e" "bv_any (orig_tmask e)"
  shows "wctl_join cfg tr s = Some (True, put_warp (wt_wid tr) ((the_warp (wt_wid tr) s)\<lparr>ipdom_stack := es, w_tmask := orig_tmask e\<rparr>) s)"
  using last_value_ok[OF ok ne tr(2) v(1)] wid tr(1) v(2) e
  by (simp add: wctl_join_def nt[symmetric] vec_get_def setTmask_any update_warp_eq)

section \<open>Structured programs\<close>

text \<open>
  A program of one thread over its private state, and the code a warp runs for it: a branch is a \<open>SPLIT\<close> at \<open>pc\<close>, a
  jump taken on the predicate of the last active lane, the code of the two sides, and a \<open>JOIN\<close> at \<open>jpc\<close>
  whose operand is the value \<open>SPLIT\<close> returned.  Where the warp goes after \<open>JOIN\<close> is read off its program counter:
  behind \<open>JOIN\<close>, or back to the jump behind \<open>SPLIT\<close>.
\<close>

datatype ('l, 'a) prog = Op "'a \<Rightarrow> 'a" | Seq "('l, 'a) prog" "('l, 'a) prog"
  | Branch 'l 'l "'a \<Rightarrow> bool" "('l, 'a) prog" "('l, 'a) prog"

primrec run_thread :: "('l, 'a) prog \<Rightarrow> 'a \<Rightarrow> 'a" where
  "run_thread (Op f) x = f x"
| "run_thread (Seq p q) x = run_thread q (run_thread p x)"
| "run_thread (Branch pc jpc c p q) x = (if c x then run_thread p x else run_thread q x)"

definition split_trace :: "nat \<Rightarrow> nat \<Rightarrow> 'w::len word \<Rightarrow> ('a \<Rightarrow> bool) \<Rightarrow> (nat \<Rightarrow> 'a) \<Rightarrow> 'w wctl_trace" where
  "split_trace nt wid pc c st = \<lparr>wt_wid = wid, wt_PC = pc, wt_eop = True, wt_wb = True, wt_fetch_stall = True,
     wt_rs1 = map (\<lambda>t. if c (st t) then 1 else 0) [0..<nt], wt_rs2 = replicate nt 0, wt_dst = replicate nt 0\<rparr>"

definition join_trace :: "nat \<Rightarrow> nat \<Rightarrow> 'w::len word \<Rightarrow> 'w word list \<Rightarrow> 'w wctl_trace" where
  "join_trace nt wid pc ptr = \<lparr>wt_wid = wid, wt_PC = pc, wt_eop = True, wt_wb = False, wt_fetch_stall = True,
     wt_rs1 = ptr, wt_rs2 = replicate nt 0, wt_dst = replicate nt 0\<rparr>"

type_synonym ('w, 'a) lanes = "'w scheduler \<times> (nat \<Rightarrow> 'a)"

definition take_side :: "nat \<Rightarrow> nat \<Rightarrow> ('a \<Rightarrow> bool) \<Rightarrow> (('w::len, 'a) lanes \<Rightarrow> ('w, 'a) lanes option)
    \<Rightarrow> (('w, 'a) lanes \<Rightarrow> ('w, 'a) lanes option) \<Rightarrow> ('w, 'a) lanes \<Rightarrow> ('w, 'a) lanes option" where
  "take_side nt wid c p q x =
     do {
       t \<leftarrow> thread_last nt (w_tmask (the_warp wid (fst x)));
       if c (snd x t) then p x else q x
     }"

definition join_at :: "disp_cfg \<Rightarrow> nat \<Rightarrow> 'w::len word \<Rightarrow> 'w word list \<Rightarrow> ('w, 'a) lanes \<Rightarrow> ('w, 'a) lanes option" where
  "join_at cfg wid jpc ptr x =
     do {
       s1 \<leftarrow> update_warp wid (\<lambda>w. w\<lparr>w_PC := jpc + 4\<rparr>) (fst x);
       (r, s2) \<leftarrow> wctl_join cfg (join_trace (unat (cfg_num_threads cfg)) wid jpc ptr) s1;
       if r then Some (s2, snd x) else None
     }"

definition run_branch :: "disp_cfg \<Rightarrow> nat \<Rightarrow> 'w::len word \<Rightarrow> 'w word \<Rightarrow> ('a \<Rightarrow> bool)
    \<Rightarrow> (('w, 'a) lanes \<Rightarrow> ('w, 'a) lanes option) \<Rightarrow> (('w, 'a) lanes \<Rightarrow> ('w, 'a) lanes option)
    \<Rightarrow> ('w, 'a) lanes \<Rightarrow> ('w, 'a) lanes option" where
  "run_branch cfg wid pc jpc c p q x =
     (let nt = unat (cfg_num_threads cfg) in
      do {
        (r, ptr, s1) \<leftarrow> wctl_split cfg False (split_trace nt wid pc c (snd x)) (fst x);
        y \<leftarrow> take_side nt wid c p q (s1, snd x);
        z \<leftarrow> join_at cfg wid jpc ptr y;
        if w_PC (the_warp wid (fst z)) = jpc + 4 then Some z
        else if w_PC (the_warp wid (fst z)) = pc + 4 then
          do {
            y' \<leftarrow> take_side nt wid c p q z;
            z' \<leftarrow> join_at cfg wid jpc ptr y';
            if w_PC (the_warp wid (fst z')) = jpc + 4 then Some z' else None
          }
        else None
      })"

primrec exec_warp :: "disp_cfg \<Rightarrow> nat \<Rightarrow> ('w::len word, 'a) prog \<Rightarrow> ('w, 'a) lanes \<Rightarrow> ('w, 'a) lanes option" where
  "exec_warp cfg wid (Op f) x =
     Some (fst x, \<lambda>t. if t \<in> bv_bits (w_tmask (the_warp wid (fst x))) then f (snd x t) else snd x t)"
| "exec_warp cfg wid (Seq p q) x = Option.bind (exec_warp cfg wid p x) (exec_warp cfg wid q)"
| "exec_warp cfg wid (Branch pc jpc c p q) x = run_branch cfg wid pc jpc c (exec_warp cfg wid p) (exec_warp cfg wid q) x"

primrec labels_ok :: "('l, 'a) prog \<Rightarrow> bool" where
  "labels_ok (Op f) \<longleftrightarrow> True"
| "labels_ok (Seq p q) \<longleftrightarrow> labels_ok p \<and> labels_ok q"
| "labels_ok (Branch pc jpc c p q) \<longleftrightarrow> pc \<noteq> jpc \<and> labels_ok p \<and> labels_ok q"

text \<open>The condition under which a warp starts: its mask is not empty and the stack has room for its lanes.\<close>

definition simt_ok :: "disp_cfg \<Rightarrow> nat \<Rightarrow> 'w::len scheduler \<Rightarrow> bool" where
  "simt_ok cfg wid s \<longleftrightarrow> wid < length (sch_warps s) \<and> mask_ok (NT cfg) (w_tmask (the_warp wid s))
     \<and> bv_bits (w_tmask (the_warp wid s)) \<noteq> {}
     \<and> length (ipdom_stack (the_warp wid s)) + card (bv_bits (w_tmask (the_warp wid s))) \<le> NT cfg"

definition after :: "nat \<Rightarrow> ('a \<Rightarrow> 'a) \<Rightarrow> ('w::len, 'a) lanes \<Rightarrow> ('w, 'a) lanes \<Rightarrow> bool" where
  "after wid f x y \<longleftrightarrow> (\<exists>pc. fst y = put_warp wid ((the_warp wid (fst x))\<lparr>w_PC := pc\<rparr>) (fst x))
     \<and> (\<forall>t. snd y t = (if t \<in> bv_bits (w_tmask (the_warp wid (fst x))) then f (snd x t) else snd x t))"

definition implements :: "disp_cfg \<Rightarrow> nat \<Rightarrow> ('a \<Rightarrow> 'a) \<Rightarrow> (('w::len, 'a) lanes \<Rightarrow> ('w, 'a) lanes option) \<Rightarrow> bool" where
  "implements cfg wid f p \<longleftrightarrow> (\<forall>x. simt_ok cfg wid (fst x) \<longrightarrow> (\<exists>y. p x = Some y \<and> after wid f x y))"

lemma implementsD: "implements cfg wid f p \<Longrightarrow> simt_ok cfg wid (fst x) \<Longrightarrow> \<exists>y. p x = Some y \<and> after wid f x y"
  unfolding implements_def by blast

lemma implements_seq:
  fixes p :: "('w::len, 'a) lanes \<Rightarrow> ('w, 'a) lanes option"
  assumes p: "implements cfg wid f p" and q: "implements cfg wid g q"
  shows "implements cfg wid (g \<circ> f) (\<lambda>x. Option.bind (p x) q)"
  unfolding implements_def
proof (intro allI impI)
  fix x :: "('w, 'a) lanes" assume ok: "simt_ok cfg wid (fst x)"
  then have l: "wid < length (sch_warps (fst x))" by (simp add: simt_ok_def)
  obtain y where y: "p x = Some y" "after wid f x y" using implementsD[OF p ok] by blast
  then obtain pc where pc: "fst y = put_warp wid ((the_warp wid (fst x))\<lparr>w_PC := pc\<rparr>) (fst x)" by (auto simp: after_def)
  have "simt_ok cfg wid (fst y)" using ok l by (simp add: simt_ok_def pc)
  then obtain z where z: "q y = Some z" "after wid g y z" using implementsD[OF q] by blast
  have "after wid (g \<circ> f) x z" using y(2) z(2) l by (auto simp: after_def)
  then show "\<exists>z. Option.bind (p x) q = Some z \<and> after wid (g \<circ> f) x z" using y(1) z(1) by simp
qed

text \<open>The lanes of one side agree on the predicate, so the last of them decides for all.\<close>

lemma take_side_ok:
  assumes ok: "simt_ok cfg wid (fst x)" and p: "implements cfg wid f p" and q: "implements cfg wid g q"
    and agree: "\<forall>t \<in> bv_bits (w_tmask (the_warp wid (fst x))). c (snd x t) = v"
  shows "\<exists>y. take_side (NT cfg) wid c p q x = Some y \<and> after wid (if v then f else g) x y"
proof -
  have m: "mask_ok (NT cfg) (w_tmask (the_warp wid (fst x)))" "bv_bits (w_tmask (the_warp wid (fst x))) \<noteq> {}"
    using ok by (simp_all add: simt_ok_def)
  obtain t where t: "thread_last (NT cfg) (w_tmask (the_warp wid (fst x))) = Some t" "t \<in> bv_bits (w_tmask (the_warp wid (fst x)))"
    using thread_last_in[OF m] by blast
  then have "take_side (NT cfg) wid c p q x = (if v then p x else q x)" using agree by (simp add: take_side_def)
  then show ?thesis using implementsD[OF p ok] implementsD[OF q ok] by simp
qed


text \<open>The three outcomes of \<open>JOIN\<close>.\<close>

lemma join_at_aligned:
  assumes "wid < length (sch_warps s)" "mask_ok (NT cfg) (w_tmask (the_warp wid s))" "bv_bits (w_tmask (the_warp wid s)) \<noteq> {}"
    "length ptr = NT cfg" "\<forall>t \<in> bv_bits (w_tmask (the_warp wid s)). ptr ! t = v" "unat v = length (ipdom_stack (the_warp wid s))"
  shows "join_at cfg wid jpc ptr (s, st) = Some (put_warp wid ((the_warp wid s)\<lparr>w_PC := jpc + 4\<rparr>) s, st)"
proof -
  let ?s = "put_warp wid ((the_warp wid s)\<lparr>w_PC := jpc + 4\<rparr>) s"
  have "wctl_join cfg (join_trace (NT cfg) wid jpc ptr) ?s = Some (True, ?s)"
    by (rule join_aligned[where nt = "NT cfg" and v = v]) (use assms in \<open>simp_all add: join_trace_def\<close>)
  then show ?thesis using assms(1) by (simp add: join_at_def update_warp_eq)
qed

lemma join_at_first:
  assumes "wid < length (sch_warps s)" "mask_ok (NT cfg) (w_tmask (the_warp wid s))" "bv_bits (w_tmask (the_warp wid s)) \<noteq> {}"
    "length ptr = NT cfg" "\<forall>t \<in> bv_bits (w_tmask (the_warp wid s)). ptr ! t = v" "unat v \<noteq> length (ipdom_stack (the_warp wid s))"
    and e: "ipdom_stack (the_warp wid s) = e # es" "\<not> fallthrough e" "mask_ok (NT cfg) (orig_tmask e)"
      "bv_bits (w_tmask (the_warp wid s)) \<subset> bv_bits (orig_tmask e)"
  shows "\<exists>m. join_at cfg wid jpc ptr (s, st) = Some (put_warp wid ((the_warp wid s)\<lparr>w_PC := else_PC e,
      ipdom_stack := e\<lparr>fallthrough := True\<rparr> # es, w_tmask := m\<rparr>) s, st)
    \<and> mask_ok (NT cfg) m \<and> bv_bits m = bv_bits (orig_tmask e) - bv_bits (w_tmask (the_warp wid s))"
proof -
  let ?s = "put_warp wid ((the_warp wid s)\<lparr>w_PC := jpc + 4\<rparr>) s" and ?tr = "join_trace (NT cfg) wid jpc ptr"
  have "\<exists>m. wctl_join cfg ?tr ?s = Some (True, put_warp (wt_wid ?tr) ((the_warp (wt_wid ?tr) ?s)\<lparr>w_PC := else_PC e,
      ipdom_stack := e\<lparr>fallthrough := True\<rparr> # es, w_tmask := m\<rparr>) ?s)
    \<and> mask_ok (NT cfg) m \<and> bv_bits m = bv_bits (orig_tmask e) - bv_bits (w_tmask (the_warp (wt_wid ?tr) ?s))"
    by (rule join_first[where nt = "NT cfg" and v = v and es = es]) (use assms in \<open>simp_all add: join_trace_def\<close>)
  then show ?thesis using assms(1) by (auto simp: join_at_def update_warp_eq join_trace_def)
qed

lemma join_at_second:
  assumes "wid < length (sch_warps s)" "mask_ok (NT cfg) (w_tmask (the_warp wid s))" "bv_bits (w_tmask (the_warp wid s)) \<noteq> {}"
    "length ptr = NT cfg" "\<forall>t \<in> bv_bits (w_tmask (the_warp wid s)). ptr ! t = v" "unat v \<noteq> length (ipdom_stack (the_warp wid s))"
    and e: "ipdom_stack (the_warp wid s) = e # es" "fallthrough e" "bv_any (orig_tmask e)"
  shows "join_at cfg wid jpc ptr (s, st) = Some (put_warp wid ((the_warp wid s)\<lparr>w_PC := jpc + 4, ipdom_stack := es, w_tmask := orig_tmask e\<rparr>) s, st)"
proof -
  let ?s = "put_warp wid ((the_warp wid s)\<lparr>w_PC := jpc + 4\<rparr>) s" and ?tr = "join_trace (NT cfg) wid jpc ptr"
  have "wctl_join cfg ?tr ?s = Some (True, put_warp (wt_wid ?tr) ((the_warp (wt_wid ?tr) ?s)\<lparr>ipdom_stack := es, w_tmask := orig_tmask e\<rparr>) ?s)"
    by (rule join_second[where nt = "NT cfg" and v = v]) (use assms in \<open>simp_all add: join_trace_def\<close>)
  then show ?thesis using assms(1) by (simp add: join_at_def update_warp_eq join_trace_def)
qed

lemma split_trace_simps [simp]:
  "wt_wid (split_trace nt wid pc c st) = wid" "wt_PC (split_trace nt wid pc c st) = pc" "wt_eop (split_trace nt wid pc c st)"
  "length (wt_rs1 (split_trace nt wid pc c st)) = nt" "length (wt_dst (split_trace nt wid pc c st)) = nt"
  "t < nt \<Longrightarrow> bit (wt_rs1 (split_trace nt wid pc c st) ! t) 0 \<longleftrightarrow> c (st t)"
  by (simp_all add: split_trace_def)

lemma branch_uniform:
  fixes p :: "('w::len, 'a) lanes \<Rightarrow> ('w, 'a) lanes option"
  assumes p: "implements cfg wid f p" and q: "implements cfg wid g q" and ok: "simt_ok cfg wid (fst x)"
    and width: "NT cfg < 2 ^ LENGTH('w)" and u: "\<forall>t \<in> bv_bits (w_tmask (the_warp wid (fst x))). c (snd x t) = v"
  shows "\<exists>y. run_branch cfg wid pc jpc c p q x = Some y \<and> after wid (\<lambda>a. if c a then f a else g a) x y"
proof -
  let ?w = "the_warp wid (fst x)" and ?nt = "NT cfg"
  let ?tr = "split_trace ?nt wid pc c (snd x) :: 'w wctl_trace"
  have w: "wid < length (sch_warps (fst x))" "mask_ok ?nt (w_tmask ?w)" "bv_bits (w_tmask ?w) \<noteq> {}"
    "length (ipdom_stack ?w) + card (bv_bits (w_tmask ?w)) \<le> ?nt" using ok by (simp_all add: simt_ok_def)
  have u': "\<forall>t \<in> bv_bits (w_tmask ?w). (bit (wt_rs1 ?tr ! t) 0 \<noteq> False) = v" using u mask_bits[OF w(2)] by simp
  have "\<exists>dst. wctl_split cfg False ?tr (fst x) = Some (True, dst, fst x)
    \<and> length dst = ?nt \<and> (\<forall>t \<in> bv_bits (w_tmask (the_warp (wt_wid ?tr) (fst x))). dst ! t = of_nat (length (ipdom_stack (the_warp (wt_wid ?tr) (fst x)))))"
    by (rule split_uniform[where nt = ?nt and v = v]) (use w u' in simp_all)
  then obtain dst where d: "wctl_split cfg False ?tr (fst x) = Some (True, dst, fst x)" "length dst = ?nt"
    "\<forall>t \<in> bv_bits (w_tmask ?w). dst ! t = of_nat (length (ipdom_stack ?w))" by auto
  obtain y where y: "take_side ?nt wid c p q x = Some y" "after wid (if v then f else g) x y" using take_side_ok[OF ok p q u] by blast
  obtain pc1 where y1: "fst y = put_warp wid (?w\<lparr>w_PC := pc1\<rparr>) (fst x)" using y(2) by (auto simp: after_def)
  have "length (ipdom_stack ?w) < 2 ^ LENGTH('w)" using w(4) width by simp
  then have un: "unat (of_nat (length (ipdom_stack ?w)) :: 'w word) = length (ipdom_stack ?w)" by (simp add: unat_of_nat)
  have "join_at cfg wid jpc dst (fst y, snd y) = Some (put_warp wid ((the_warp wid (fst y))\<lparr>w_PC := jpc + 4\<rparr>) (fst y), snd y)"
    by (rule join_at_aligned[where v = "of_nat (length (ipdom_stack ?w))"]) (use w d un in \<open>simp_all add: y1\<close>)
  then have j: "join_at cfg wid jpc dst y = Some (put_warp wid (?w\<lparr>w_PC := jpc + 4\<rparr>) (fst x), snd y)"
    unfolding prod.collapse using w(1) by (simp add: y1)
  have "run_branch cfg wid pc jpc c p q x = Some (put_warp wid (?w\<lparr>w_PC := jpc + 4\<rparr>) (fst x), snd y)"
    using d(1) y(1) j w(1) by (simp add: run_branch_def Let_def)
  moreover have "after wid (\<lambda>a. if c a then f a else g a) x (put_warp wid (?w\<lparr>w_PC := jpc + 4\<rparr>) (fst x), snd y)"
    using y(2) u by (auto simp: after_def)
  ultimately show ?thesis by blast
qed

text \<open>What a divergent \<open>SPLIT\<close>, one side and the first \<open>JOIN\<close> leave: the other side is next.\<close>

lemma branch_first_half:
  fixes p :: "('w::len, 'a) lanes \<Rightarrow> ('w, 'a) lanes option"
  assumes p: "implements cfg wid f p" and q: "implements cfg wid g q" and ok: "simt_ok cfg wid (fst x)"
    and width: "NT cfg < 2 ^ LENGTH('w)"
    and d1: "t1 \<in> bv_bits (w_tmask (the_warp wid (fst x)))" "c (snd x t1)" and d2: "t2 \<in> bv_bits (w_tmask (the_warp wid (fst x)))" "\<not> c (snd x t2)"
  shows "\<exists>dst s1 y m v e. wctl_split cfg False (split_trace (NT cfg) wid pc c (snd x)) (fst x) = Some (True, dst, s1)
    \<and> take_side (NT cfg) wid c p q (s1, snd x) = Some y
    \<and> join_at cfg wid jpc dst y = Some (put_warp wid ((the_warp wid (fst x))\<lparr>w_PC := pc + 4, ipdom_stack := e # ipdom_stack (the_warp wid (fst x)), w_tmask := m\<rparr>) (fst x), snd y)
    \<and> fallthrough e \<and> orig_tmask e = w_tmask (the_warp wid (fst x)) \<and> mask_ok (NT cfg) m
    \<and> bv_bits m = {t \<in> bv_bits (w_tmask (the_warp wid (fst x))). c (snd x t) = (\<not> v)}
    \<and> (\<forall>t. snd y t = (if t \<in> bv_bits (w_tmask (the_warp wid (fst x))) \<and> c (snd x t) = v then (if v then f else g) (snd x t) else snd x t))
    \<and> length dst = NT cfg \<and> (\<forall>t \<in> bv_bits (w_tmask (the_warp wid (fst x))). dst ! t = of_nat (length (ipdom_stack (the_warp wid (fst x)))))"
proof -
  let ?w = "the_warp wid (fst x)" and ?nt = "NT cfg" and ?M = "bv_bits (w_tmask (the_warp wid (fst x)))"
  let ?tr = "split_trace ?nt wid pc c (snd x) :: 'w wctl_trace"
  have w: "wid < length (sch_warps (fst x))" "mask_ok ?nt (w_tmask ?w)" "?M \<noteq> {}" "length (ipdom_stack ?w) + card ?M \<le> ?nt"
    using ok by (simp_all add: simt_ok_def)
  have fin: "finite ?M" by (rule mask_finite[OF w(2)])
  have "card {t1, t2} \<le> card ?M" by (rule card_mono[OF fin]) (use d1 d2 in simp)
  moreover have "t1 \<noteq> t2" using d1 d2 by auto
  ultimately have c2: "2 \<le> card ?M" by simp
  have bit: "bit (wt_rs1 ?tr ! t) 0 \<longleftrightarrow> c (snd x t)" if "t \<in> ?M" for t using mask_bits[OF w(2) that] by simp
  have "\<exists>dst m side. wctl_split cfg False ?tr (fst x) = Some (True, dst, put_warp (wt_wid ?tr) (pushed (wt_PC ?tr + 4) m (the_warp (wt_wid ?tr) (fst x))) (fst x))
    \<and> mask_ok ?nt m \<and> bv_bits m = {t \<in> bv_bits (w_tmask (the_warp (wt_wid ?tr) (fst x))). (bit (wt_rs1 ?tr ! t) 0 \<noteq> False) = side}
    \<and> length dst = ?nt \<and> (\<forall>t \<in> bv_bits (w_tmask (the_warp (wt_wid ?tr) (fst x))). dst ! t = of_nat (length (ipdom_stack (the_warp (wt_wid ?tr) (fst x)))))"
    by (rule split_divergent[where nt = ?nt and ?t1.0 = t1 and ?t2.0 = t2]) (use w c2 d1 d2 bit in simp_all)
  then obtain dst m v where d: "wctl_split cfg False ?tr (fst x) = Some (True, dst, put_warp wid (pushed (pc + 4) m ?w) (fst x))"
    "mask_ok ?nt m" "bv_bits m = {t \<in> ?M. (bit (wt_rs1 ?tr ! t) 0 \<noteq> False) = v}" "length dst = ?nt"
    "\<forall>t \<in> ?M. dst ! t = of_nat (length (ipdom_stack ?w))" by auto
  have bm: "bv_bits m = {t \<in> ?M. c (snd x t) = v}" using d(3) bit by auto
  have sub: "bv_bits m \<subset> ?M" "bv_bits m \<noteq> {}" using bm d1 d2 by (cases v; auto)+
  let ?s1 = "put_warp wid (pushed (pc + 4) m ?w) (fst x)"
  have "card (bv_bits m) < card ?M" by (rule psubset_card_mono[OF fin sub(1)])
  then have ok1: "simt_ok cfg wid (fst (?s1, snd x))" using w d(2) sub(2) by (simp add: simt_ok_def pushed_def)
  obtain y where y: "take_side ?nt wid c p q (?s1, snd x) = Some y" "after wid (if v then f else g) (?s1, snd x) y"
    using take_side_ok[OF ok1 p q, of c v] bm w(1) by (auto simp: pushed_def)
  obtain pc1 where y1: "fst y = put_warp wid ((pushed (pc + 4) m ?w)\<lparr>w_PC := pc1\<rparr>) (fst x)" using y(2) w(1) by (auto simp: after_def)
  have "length (ipdom_stack ?w) < 2 ^ LENGTH('w)" using w(4) width by simp
  then have un: "unat (of_nat (length (ipdom_stack ?w)) :: 'w word) = length (ipdom_stack ?w)" by (simp add: unat_of_nat)
  let ?e = "\<lparr>orig_tmask = w_tmask ?w, else_PC = pc + 4, fallthrough = False\<rparr>"
  have "\<exists>m'. join_at cfg wid jpc dst (fst y, snd y) = Some (put_warp wid ((the_warp wid (fst y))\<lparr>w_PC := else_PC ?e,
      ipdom_stack := ?e\<lparr>fallthrough := True\<rparr> # ipdom_stack ?w, w_tmask := m'\<rparr>) (fst y), snd y)
    \<and> mask_ok ?nt m' \<and> bv_bits m' = bv_bits (orig_tmask ?e) - bv_bits (w_tmask (the_warp wid (fst y)))"
    by (rule join_at_first[where v = "of_nat (length (ipdom_stack ?w))"]) (use w d un sub in \<open>auto simp: y1 pushed_def\<close>)
  then obtain m' where m': "join_at cfg wid jpc dst y = Some (put_warp wid ((the_warp wid (fst y))\<lparr>w_PC := else_PC ?e,
      ipdom_stack := ?e\<lparr>fallthrough := True\<rparr> # ipdom_stack ?w, w_tmask := m'\<rparr>) (fst y), snd y)" "mask_ok ?nt m'"
      "bv_bits m' = bv_bits (orig_tmask ?e) - bv_bits (w_tmask (the_warp wid (fst y)))"
    unfolding prod.collapse by (elim exE conjE) (rule that)
  have mb: "bv_bits m' = ?M - bv_bits m" using m'(3) w(1) by (simp add: y1 pushed_def)
  have "join_at cfg wid jpc dst y = Some (put_warp wid (?w\<lparr>w_PC := pc + 4, ipdom_stack := ?e\<lparr>fallthrough := True\<rparr> # ipdom_stack ?w, w_tmask := m'\<rparr>) (fst x), snd y)"
    using m'(1) w(1) by (simp add: y1 pushed_def)
  moreover have "bv_bits m' = {t \<in> ?M. c (snd x t) = (\<not> v)}" using mb bm by auto
  moreover have "\<forall>t. snd y t = (if t \<in> ?M \<and> c (snd x t) = v then (if v then f else g) (snd x t) else snd x t)"
    using y(2) bm w(1) by (auto simp: after_def pushed_def)
  ultimately show ?thesis using d(1,4,5) y(1) m'(2)
    by (intro exI[of _ dst] exI[of _ ?s1] exI[of _ y] exI[of _ m'] exI[of _ v] exI[of _ "?e\<lparr>fallthrough := True\<rparr>"] conjI) simp_all
qed


lemma branch_divergent:
  fixes p :: "('w::len, 'a) lanes \<Rightarrow> ('w, 'a) lanes option"
  assumes p: "implements cfg wid f p" and q: "implements cfg wid g q" and ok: "simt_ok cfg wid (fst x)"
    and width: "NT cfg < 2 ^ LENGTH('w)" and pcs: "pc \<noteq> jpc"
    and d1: "t1 \<in> bv_bits (w_tmask (the_warp wid (fst x)))" "c (snd x t1)" and d2: "t2 \<in> bv_bits (w_tmask (the_warp wid (fst x)))" "\<not> c (snd x t2)"
  shows "\<exists>y. run_branch cfg wid pc jpc c p q x = Some y \<and> after wid (\<lambda>a. if c a then f a else g a) x y"
proof -
  let ?w = "the_warp wid (fst x)" and ?nt = "NT cfg" and ?M = "bv_bits (w_tmask (the_warp wid (fst x)))"
  have w: "wid < length (sch_warps (fst x))" "mask_ok ?nt (w_tmask ?w)" "?M \<noteq> {}" "length (ipdom_stack ?w) + card ?M \<le> ?nt"
    using ok by (simp_all add: simt_ok_def)
  obtain dst s1 y m v e where h: "wctl_split cfg False (split_trace ?nt wid pc c (snd x)) (fst x) = Some (True, dst, s1)"
    "take_side ?nt wid c p q (s1, snd x) = Some y"
    "join_at cfg wid jpc dst y = Some (put_warp wid (?w\<lparr>w_PC := pc + 4, ipdom_stack := e # ipdom_stack ?w, w_tmask := m\<rparr>) (fst x), snd y)"
    "fallthrough e" "orig_tmask e = w_tmask ?w" "mask_ok ?nt m" "bv_bits m = {t \<in> ?M. c (snd x t) = (\<not> v)}"
    "\<forall>t. snd y t = (if t \<in> ?M \<and> c (snd x t) = v then (if v then f else g) (snd x t) else snd x t)"
    "length dst = ?nt" "\<forall>t \<in> ?M. dst ! t = of_nat (length (ipdom_stack ?w))"
    using branch_first_half[OF p q ok width d1 d2, of pc jpc] by (elim exE conjE) (rule that)
  let ?z = "(put_warp wid (?w\<lparr>w_PC := pc + 4, ipdom_stack := e # ipdom_stack ?w, w_tmask := m\<rparr>) (fst x), snd y)"
  have sub: "bv_bits m \<subset> ?M" "bv_bits m \<noteq> {}" using h(7) d1 d2 by (cases v; auto)+
  have "card (bv_bits m) < card ?M" by (rule psubset_card_mono[OF mask_finite[OF w(2)] sub(1)])
  then have okz: "simt_ok cfg wid (fst ?z)" using w h(6) sub(2) by (simp add: simt_ok_def)
  have agree: "\<forall>t \<in> bv_bits (w_tmask (the_warp wid (fst ?z))). c (snd ?z t) = (\<not> v)" using h(7,8) w(1) by auto
  obtain y' where y: "take_side ?nt wid c p q ?z = Some y'" "after wid (if \<not> v then f else g) ?z y'"
    using take_side_ok[OF okz p q agree] by blast
  obtain pc1 where y1: "fst y' = put_warp wid (?w\<lparr>ipdom_stack := e # ipdom_stack ?w, w_tmask := m, w_PC := pc1\<rparr>) (fst x)"
    using y(2) w(1) by (auto simp: after_def)
  have "length (ipdom_stack ?w) < 2 ^ LENGTH('w)" using w(4) width by simp
  then have un: "unat (of_nat (length (ipdom_stack ?w)) :: 'w word) = length (ipdom_stack ?w)" by (simp add: unat_of_nat)
  have "join_at cfg wid jpc dst (fst y', snd y') = Some (put_warp wid ((the_warp wid (fst y'))\<lparr>w_PC := jpc + 4,
      ipdom_stack := ipdom_stack ?w, w_tmask := orig_tmask e\<rparr>) (fst y'), snd y')"
    by (rule join_at_second[where v = "of_nat (length (ipdom_stack ?w))"])
      (use w h(4,5,6,9,10) un sub mask_any[OF w(2)] in \<open>auto simp: y1\<close>)
  then have j: "join_at cfg wid jpc dst y' = Some (put_warp wid (?w\<lparr>w_PC := jpc + 4\<rparr>) (fst x), snd y')"
    unfolding prod.collapse using w(1) by (simp add: y1 h(5))
  have "run_branch cfg wid pc jpc c p q x = Some (put_warp wid (?w\<lparr>w_PC := jpc + 4\<rparr>) (fst x), snd y')"
    using h(1,2,3) y(1) j w(1) pcs by (simp add: run_branch_def Let_def)
  moreover have "after wid (\<lambda>a. if c a then f a else g a) x (put_warp wid (?w\<lparr>w_PC := jpc + 4\<rparr>) (fst x), snd y')"
    using y(2) h(7,8) w(1) by (auto simp: after_def)
  ultimately show ?thesis by blast
qed

lemma implements_branch:
  fixes p :: "('w::len, 'a) lanes \<Rightarrow> ('w, 'a) lanes option"
  assumes "implements cfg wid f p" "implements cfg wid g q" "NT cfg < 2 ^ LENGTH('w)" "pc \<noteq> jpc"
  shows "implements cfg wid (\<lambda>a. if c a then f a else g a) (run_branch cfg wid pc jpc c p q)"
  unfolding implements_def
proof (intro allI impI)
  fix x :: "('w, 'a) lanes" assume ok: "simt_ok cfg wid (fst x)"
  show "\<exists>y. run_branch cfg wid pc jpc c p q x = Some y \<and> after wid (\<lambda>a. if c a then f a else g a) x y"
  proof (cases "\<exists>v. \<forall>t \<in> bv_bits (w_tmask (the_warp wid (fst x))). c (snd x t) = v")
    case True
    then show ?thesis using branch_uniform[OF assms(1,2) ok assms(3)] by blast
  next
    case False
    then obtain t1 t2 where "t1 \<in> bv_bits (w_tmask (the_warp wid (fst x)))" "c (snd x t1)"
      "t2 \<in> bv_bits (w_tmask (the_warp wid (fst x)))" "\<not> c (snd x t2)" by blast
    then show ?thesis by (rule branch_divergent[OF assms(1,2) ok assms(3,4)])
  qed
qed

lemma exec_implements:
  fixes p :: "('w::len word, 'a) prog"
  assumes "NT cfg < 2 ^ LENGTH('w)"
  shows "labels_ok p \<Longrightarrow> implements cfg wid (run_thread p) (exec_warp cfg wid p)"
proof (induction p)
  case (Op f)
  have "\<exists>pc. a = put_warp wid ((the_warp wid a)\<lparr>w_PC := pc\<rparr>) a" for a :: "'w scheduler"
    by (rule exI[of _ "w_PC (the_warp wid a)"]) simp
  then show ?case unfolding implements_def by (auto simp: after_def)
next
  case (Seq p q)
  then show ?case using implements_seq[of cfg wid "run_thread p" "exec_warp cfg wid p" "run_thread q" "exec_warp cfg wid q"]
    by (simp add: comp_def)
next
  case (Branch pc jpc c p q)
  then show ?case using implements_branch[OF _ _ assms, of wid "run_thread p" "exec_warp cfg wid p" "run_thread q" "exec_warp cfg wid q" pc jpc c]
    by simp
qed

text \<open>
  C11.  A warp reconverges: run on a structured program with arbitrarily nested branches, it ends without an abort with
  the thread mask and the stack it started with, every active thread has executed exactly its own path through
  the program, and no other thread has changed.  The stack of \<open>NUM_THREADS - 1\<close> entries never fills up.
\<close>

theorem warps_reconverge:
  fixes s :: "'w::len scheduler"
  assumes "labels_ok p" "wid < length (sch_warps s)" "bv_ok (w_tmask (sch_warps s ! wid))"
    and "bv_size (w_tmask (sch_warps s ! wid)) = NT cfg" "bv_bits (w_tmask (sch_warps s ! wid)) \<noteq> {}"
    and "length (ipdom_stack (sch_warps s ! wid)) + card (bv_bits (w_tmask (sch_warps s ! wid))) \<le> NT cfg" "NT cfg < 2 ^ LENGTH('w)"
  shows "\<exists>pc. exec_warp cfg wid p (s, st) = Some (s\<lparr>sch_warps := (sch_warps s)[wid := (sch_warps s ! wid)\<lparr>w_PC := pc\<rparr>]\<rparr>,
    \<lambda>t. if t \<in> bv_bits (w_tmask (sch_warps s ! wid)) then run_thread p (st t) else st t)"
proof -
  have "simt_ok cfg wid (fst (s, st))" using assms(2-6) by (simp add: simt_ok_def mask_ok_def)
  then obtain y where y: "exec_warp cfg wid p (s, st) = Some y" "after wid (run_thread p) (s, st) y"
    using implementsD[OF exec_implements[OF assms(7,1)]] by blast
  then obtain pc where "fst y = put_warp wid ((the_warp wid s)\<lparr>w_PC := pc\<rparr>) s" by (auto simp: after_def)
  moreover have "snd y = (\<lambda>t. if t \<in> bv_bits (w_tmask (the_warp wid s)) then run_thread p (st t) else st t)"
    using y(2) by (auto simp: after_def)
  ultimately show ?thesis using y(1) by (cases y) (auto simp: put_warp_def)
qed


text \<open>A warp of four threads of which three are active, in a program with a branch inside a branch.\<close>

definition simt_demo :: "32 scheduler" where
  "simt_demo = (scheduler_new demo_cfg)\<lparr>sch_warps := [(warp_new (NT demo_cfg))\<lparr>w_tmask := bv_of_word (NT demo_cfg) 7\<rparr>]\<rparr>"

definition nested_demo :: "(32 word, nat) prog" where
  "nested_demo = Branch 64 128 even (Op Suc) (Branch 80 96 (\<lambda>x. x < 3) (Op ((*) 10)) (Op (\<lambda>x. 0)))"

theorem warps_reconverge_witness:
  "\<exists>pc st. exec_warp demo_cfg 0 nested_demo (simt_demo, \<lambda>t. t)
      = Some (simt_demo\<lparr>sch_warps := (sch_warps simt_demo)[0 := (sch_warps simt_demo ! 0)\<lparr>w_PC := pc\<rparr>]\<rparr>, st)
    \<and> map st [0..<4] = [1, 10, 3, 3]"
proof -
  let ?m = "bv_of_word (NT demo_cfg) 7 :: 32 bitvector"
  have "{i. i < (4 :: nat) \<and> bit (7 :: 32 word) i} = {i \<in> {0, 1, 2, 3}. bit (7 :: 32 word) i}" by auto
  also have "\<dots> = {0, 1, 2}" by auto
  finally have b: "bv_bits ?m = {0, 1, 2}" by (simp add: bv_of_word_ok demo_cfg_def)
  have w: "sch_warps simt_demo ! 0 = (warp_new (NT demo_cfg))\<lparr>w_tmask := ?m\<rparr>" by (simp add: simt_demo_def)
  have "\<exists>pc. exec_warp demo_cfg 0 nested_demo (simt_demo, \<lambda>t. t)
      = Some (simt_demo\<lparr>sch_warps := (sch_warps simt_demo)[0 := (sch_warps simt_demo ! 0)\<lparr>w_PC := pc\<rparr>]\<rparr>,
        \<lambda>t. if t \<in> bv_bits (w_tmask (sch_warps simt_demo ! 0)) then run_thread nested_demo t else t)"
    by (rule warps_reconverge) (simp_all add: w b bv_of_word_ok(1,2) nested_demo_def, simp_all add: simt_demo_def warp_new_def demo_cfg_def)
  moreover have "map (\<lambda>t. if t \<in> bv_bits (w_tmask (sch_warps simt_demo ! 0)) then run_thread nested_demo t else t) [0..<4] = [1, 10, 3, 3]"
    by (simp add: w b nested_demo_def upt_conv_Cons)
  ultimately show ?thesis by (elim exE) (rule exI, rule exI, rule conjI)
qed

end
