(* ===== verification/Spec2Isabelle.thy ===== *)
theory Spec2Isabelle
  imports Thread_Mask Launch Mem_Unit Simx_Driver Alloc_Spec Simt
begin

text \<open>
  A verification library for the GPU simulator and runtime under \<open>src/vortex\<close>: the host runtime that validates
  and encodes kernel launches, the command processor that executes them, the simulated device (kernel
  management unit, CTA dispatchers, warp scheduler, scoreboard, warp control, barriers), and the memory behind all
  of them (allocator, RAM, access control, address translation).

  \<^bold>\<open>How the parts interact.\<close>  \<open>Queue::enqueue_launch\<close> checks a launch request and derives the kernel descriptor.  The
  descriptor reaches the device as register writes, or packed into memory for the command processor
  (\<open>CommandProcessor\<close>) to replay.  The simulator back end (\<open>vx_device\<close>) connects the command processor's hooks to the
  memory and to the processor.  Started, the kernel management unit (\<open>Kmu\<close>) walks the grid and hands CTAs (blocks)
  to the dispatchers of the cores.  A dispatcher (\<open>CtaDispatcher\<close>) gives a CTA a slot of the local memory and starts
  its warps in the scheduler.  The scheduler picks a warp per cycle; the scoreboard says whether its
  instruction may issue; warp control changes thread masks and barriers suspend and release warps.  Device
  memory is handed out by \<open>MemoryAllocator\<close> and kept by \<open>RAM\<close>; the cores reach it through \<open>MemoryUnit\<close> and the copy
  engine through the command processor's own page table walk.

  \<^bold>\<open>The theories and what they model.\<close>  A theory has the definitions first, in the order of the source file, then the
  lemmas.  Definitions carry the names of the source where these are free; a prefix (\<open>kmu_\<close>, \<open>al_\<close>, \<open>bv_\<close>, \<open>sb_\<close>)
  tells the class otherwise.

  \<^item> \<open>Prelude\<close>: machine integers (\<open>u8\<close> to \<open>u64\<close>), bounds-checked vector access (\<open>vec_get\<close>, \<open>vec_put\<close>), little-endian
    bytes, packed fields.

  \<^item> \<open>Bitmanip\<close>: \<open>sw/common/bitmanip.h\<close>.  \<open>Bitvector\<close>: the class \<open>BitVector\<close> of \<open>sw/common/bitvector.h\<close> in both
    representations; the lemmas say that it implements sets of positions, and where it does not (\<open>resize\<close>,
    \<open>reverse\<close>).  \<open>Thread_Mask\<close>: the locale \<open>mask_algebra\<close>, the part of it the warp logic relies on, interpreted on
    \<open>Bitvector\<close>.

  \<^item> \<open>Kmu\<close>: \<open>sim/simx/kmu/kmu.cpp\<close>; the walk visits every block once and ends.  \<open>Cta_Dispatcher\<close>:
    \<open>sim/simx/cta_dispatcher.cpp\<close>; slot accounting, thread indices, and the relation \<open>grid_reach\<close> of all cores sharing
    one kernel management unit, over which every thread is started once.

  \<^item> \<open>Launch\<close>: the launch path of \<open>sw/runtime/common/queue.cpp\<close>; validation, descriptor, both encodings, and what the
    kernel management unit holds after them.

  \<^item> \<open>Scoreboard\<close>, \<open>Scheduler\<close>, \<open>Barrier\<close>, \<open>Wctl\<close>: the files \<open>scoreboard.cpp\<close>, \<open>scheduler.cpp\<close>, \<open>barrier_unit.cpp\<close> (with the
    global barriers of \<open>cluster.cpp\<close>) and \<open>wctl_unit.cpp\<close> of \<open>sim/simx\<close>.  \<open>sb_reach\<close> and \<open>sched_reach\<close> are the states
    reached under the pipeline's calls; their invariants give the properties of issue, commit, fetch and
    stall.  \<open>Simt\<close> has structured programs over \<open>split\<close> and \<open>join\<close> and the theorem that divergence does not change
    what a thread computes.

  \<^item> \<open>Acl\<close> and \<open>Ram\<close>: the classes \<open>ACLManager\<close> and \<open>RAM\<close> of \<open>sim/common/mem.cpp\<close>; a function from addresses to flags and
    one from addresses to bytes.  \<open>Vm_Types\<close>: \<open>sw/common/vm_types.h\<close> and a reference page table walk.  \<open>Mem_Unit\<close>: the
    class \<open>MemoryUnit\<close>, its walk against the reference, and what its translation buffer does.

  \<^item> \<open>Caps\<close>, \<open>Cmd_Processor\<close>: \<open>sim/common/cmd_processor.cpp\<close> and \<open>sw/runtime/common/caps.h\<close>.  \<open>Cp_Exec\<close>: a reference
    semantics of a ring of commands and the proof that the clocked machine reaches its result.  \<open>Cp_Dma\<close>: the
    locales \<open>byte_store\<close> and \<open>launch_store\<close>, a memory and a launch target behind the hooks.  \<open>Simx_Driver\<close>:
    \<open>sw/runtime/simx/vortex.cpp\<close> and the register routing of \<open>sim/simx/processor.cpp\<close>; it interprets these locales
    on the back end's own hooks.

  \<^item> \<open>Mem_Alloc\<close>: \<open>sw/common/mem_alloc.h\<close>.  \<open>Alloc_Spec\<close>: its invariant and the locale \<open>block_allocator\<close> on the live
    blocks, interpreted on it.

  \<^item> This theory: the launch from the request to the running threads, and the agreement of the two
    translators.

  \<^bold>\<open>Conventions.\<close>  Integers have the width of the source and wrap.  The templates over the machine word (\<open>XLEN\<close>) are
  polymorphic in \<open>'w\<close>.  A failed assertion, an abort, an access outside a vector, a division by zero or an
  undefined shift has the result \<open>None\<close>; exceptions and return codes that callers see are values.  \<open>std::map\<close> and
  \<open>std::unordered_map\<close> are association lists, \<open>std::bitset\<close> masks are sets, linked lists are lists.  Build
  constants (\<open>VX_CFG_*\<close>) are record fields or arguments, so the theorems hold for every build.  The shift in
  \<open>fetch_if_needed\<close> is the exception: for a ring size register of 64 or more, undefined in C++, the model
  computes with the mathematical shift, and the properties about the ring say nothing about the code.

  \<^bold>\<open>Parameters.\<close>  Code outside the sources, or run on other threads, is an argument: the device behind the
  command processor's hooks in \<open>Cp_Exec\<close>, the run of a kernel and its schedule in \<open>Simx_Driver\<close> (the effect of the
  run is applied when it is started, while the busy line follows the given schedule), the flushed program
  counter at an asynchronous trap in \<open>Scheduler\<close>, the address of staged arguments in \<open>Launch\<close>.

  \<^bold>\<open>Loops and bounds.\<close>  Every definition is total.  Loops are structural recursions except \<open>dma_copy\<close>, \<open>pad_words\<close> and
  \<open>hex_lines\<close>, which have termination proofs.  The reference run of a ring takes the number of polls a launch or
  an event wait may need as an argument and is \<open>None\<close> when that is not enough; the properties hold for every number
  with which it completes.  The register channel runs bursts of at most 256 ticks, as the code does, and
  \<open>polling_sees_completion\<close> says that finitely many polls are enough; \<open>cp_executes_ring\<close> says that the machine reaches
  the reference result after some number of ticks, not only that it is right if reached.

  \<^bold>\<open>What the proofs found.\<close>  Some theorems say where the code departs from its intention: clusters split across
  cores (\<open>cluster_split_across_cores\<close>), tokens of asynchronous barriers (\<open>async_wait_phases\<close>), kernels that end
  before the first poll (\<open>cp_misses_short_kernel\<close>), large pages and misplaced entries of the translation buffer
  (\<open>mmu_large_pages\<close>, \<open>tlb_entry_misplaced\<close>), bits lost by \<open>resize\<close> (\<open>bitvector_resize\<close>) and writes that stop half
  way (\<open>ram_write_partial\<close>).

  \<^bold>\<open>Not modelled.\<close>  The timing of the pipeline, caches and memory channels; instruction decoding and the arithmetic
  units (floating point is an external library); the tensor, graphics, ray tracing and copy extensions, and
  with them the fragment waves of the scheduler; the debug module; object lifetimes and threads of the
  runtime; page table construction in the runtime; the other back ends, which drive generated or
  external simulators; opening and reading files; the hardware descriptions.
\<close>

section \<open>From a launch request to running threads\<close>

text \<open>
  C1.  A launch request reaches the cores whole.  Take a request the runtime accepts, whose grid and
  block axes in use are not 0 and whose sizes fit the 32-bit counters, and the register writes it
  makes.  Then, for any number of cores and any interleaving of their dispatchers, warp exits and
  spawns, every warp started carries the kernel's program address and the thread coordinates of its
  first thread, no thread is started twice, and once no dispatcher is running exactly the threads of
  the requested grid have been started.
\<close>

theorem launch_runs_every_thread:
  assumes check: "enqueue_launch_check sz (Some info) = Inr r" "0 < li_ndim info" "li_kernel info = Some kn"
    and writes: "enqueue_launch_writes (cfg_num_threads cfg) args r = Some out"
    and cfg: "cfg_ok cfg" "launch_fits cfg (program_kmu k out)"
    and grid: "g = upto_ndim (li_ndim info) (li_grid_dim info)" "nx g * ny g * nz g \<noteq> 0"
    and block: "b = upto_ndim (li_ndim info) (li_block_dim info)" "nx b * ny b * nz b \<noteq> 0" "nx b * ny b * nz b < 2 ^ 32"
    and reach: "grid_reach cfg n (program_kmu k out) (k', cs, log)"
  shows "(\<forall>rec \<in> set log. rec_PC rec = ucast (module_base kn) \<and>
        at_thread b (unat (rec_cta_rank rec) * unat (cfg_num_threads cfg)) (rec_thread_idx rec))
    \<and> (\<forall>i j. i < j \<and> j < length log \<longrightarrow> threads_of cfg (log ! i) \<inter> threads_of cfg (log ! j) = {})
    \<and> (cs \<noteq> [] \<and> (\<forall>c \<in> set cs. \<not> dispatcher_running k' (snd c)) \<longrightarrow>
        (\<Union> (threads_of cfg ` set log)) = {(p, j). in_grid g p \<and> j < nx b * ny b * nz b})"
proof -
  let ?k = "program_kmu k out"
  note c = check_fields[OF check(1)]
  have pos: "0 < nx b" "0 < ny b" "0 < nz b" using block(2) by auto
  obtain ws where ws: "warp_step (cfg_num_threads cfg) (li_ndim info) b = Some ws" "step_matches (unat (cfg_num_threads cfg)) b ws"
    using warp_step_value[OF block(3,1) pos check(2)] by blast
  have "holds_launch ?k r args ws" using program_writes[OF writes, of ws] check(2) c ws(1) block(1) by simp
  then have k: "kmu_block_dim ?k = b" "kmu_grid_dim ?k = g" "kmu_warp_step ?k = ws" "kmu_block_size ?k = block_volume (li_ndim info) b"
    "kmu_cluster_dim ?k = lr_cluster r" "kmu_PC ?k = module_base kn"
    using c grid(1) block(1) check(3) by (simp_all add: holds_launch_def)
  have cd: "cluster_divides (kmu_cluster_dim ?k) (kmu_grid_dim ?k)" using c(2,6) grid(1) k by simp
  have vol: "unat (kmu_block_size ?k) = nx b * ny b * nz b" using block_volume_value(1)[OF block(3,1) pos] k by simp
  have "0 < nx g" "0 < ny g" "0 < nz g" using grid(2) by auto
  then have run: "kmu_running (kmu_start ?k)"
    using vol block(2) k(2) cd by (auto simp: kmu_start_def Let_def word_gt_0 cluster_divides_def)
  note once = grid_launched_once[OF cfg run cd reach]
  have gt: "grid_threads ?k = {(p, j). in_grid g p \<and> j < nx b * ny b * nz b}" unfolding grid_threads_def vol k(2) ..
  have recs: "rec_PC rec = ucast (module_base kn) \<and>
      at_thread b (unat (rec_cta_rank rec) * unat (cfg_num_threads cfg)) (rec_thread_idx rec)" if "rec \<in> set log" for rec
  proof -
    obtain q where q: "same_launch ?k q" "record_ok cfg q rec"
      by (rule grid_inv_log[OF grid_reach_inv[OF cfg run cd reach] \<open>rec \<in> set log\<close>])
    then have "shape_ok cfg q" using vol k ws(2) by (simp add: shape_ok_def same_launch_def req_threads_def)
    then show ?thesis using q k by (simp add: record_ok_def same_launch_def)
  qed
  have "\<forall>rec \<in> set log. rec_PC rec = ucast (module_base kn) \<and>
      at_thread b (unat (rec_cta_rank rec) * unat (cfg_num_threads cfg)) (rec_thread_idx rec)" using recs by (rule ballI)
  then show ?thesis
    by (intro conjI once[THEN conjunct1] once[THEN conjunct2, THEN conjunct2, unfolded gt])
qed

text \<open>The witness: a one-dimensional launch of one block of two threads, run to its end on one core.\<close>

definition small_info :: launch_info where
  "small_info = \<lparr>li_struct_size = 100, li_kernel = Some \<lparr>kernel_pc = 0x80000100, module_base = 0x80000000\<rparr>,
     li_args_host = None, li_args_size = 0, li_ndim = 1, li_grid_dim = mk_dim3 1 0 0, li_block_dim = mk_dim3 2 0 0,
     li_lmem_size = 0, li_cluster_dim = mk_dim3 0 0 0\<rparr>"

definition small_rec :: launch_rec where
  "small_rec = \<lparr>lr_kernel = li_kernel small_info, lr_args = [], lr_ndim = 1, lr_lmem_size = 0,
     lr_grid = mk_dim3 1 1 1, lr_block = mk_dim3 2 1 1, lr_cluster = mk_dim3 1 1 1\<rparr>"

definition small_kmu :: kmu where
  "small_kmu = program_kmu kmu_init (the (enqueue_launch_writes (cfg_num_threads demo_cfg) None small_rec))"

lemma small_step: "launched_and_quiet (dispatcher_step demo_cfg {} (kmu_start small_kmu) (dispatcher_init demo_cfg))"
  by code_simp

lemma small_writes: "enqueue_launch_writes (cfg_num_threads demo_cfg) None small_rec \<noteq> None"
  by code_simp

theorem launch_runs_every_thread_witness:
  "\<exists>k' cs log. grid_reach demo_cfg 1 small_kmu (k', cs, log :: 32 cta_warp_record_t list)
     \<and> (\<Union> (threads_of demo_cfg ` set log)) = {(p, j). in_grid (mk_dim3 1 1 1) p \<and> j < 2}"
proof -
  obtain out where out: "enqueue_launch_writes (cfg_num_threads demo_cfg) None small_rec = Some out"
    using small_writes by blast
  have k: "small_kmu = program_kmu kmu_init out" by (simp add: small_kmu_def out)
  have "holds_launch small_kmu small_rec None (mk_dim3 0 0 0)"
    using program_writes[OF out, of "mk_dim3 0 0 0" kmu_init]
    by (simp add: k small_rec_def warp_step_def udiv_def upto_ndim_def mk_dim3_def demo_cfg_def ndim_ge)
  then have fits: "launch_fits demo_cfg (program_kmu kmu_init out)"
    by (simp add: k holds_launch_def launch_fits_def block_fits_def demo_cfg_def small_rec_def block_volume_def upto_ndim_def mk_dim3_def)
  have chk: "enqueue_launch_check 100 (Some small_info) = Inr small_rec"
    by (simp add: enqueue_launch_check_def small_info_def small_rec_def upto_ndim_def mk_dim3_def cluster_shape_def cluster_axis_def)
  let ?d = "dispatcher_init demo_cfg :: 32 cta_dispatcher"
  obtain w rec k' d' where st: "dispatcher_step demo_cfg {} (kmu_start small_kmu) ?d = Some (Some (w, rec), k', d')"
    and q: "\<not> dispatcher_running k' d'"
    using small_step by (auto simp: launched_and_quiet_def split: option.splits prod.splits)
  have "grid_step demo_cfg (kmu_start small_kmu, [({}, ?d)], []) (k', [({}, ?d)][0 := (insert w {}, d')], [] @ [rec])"
    using st by (intro grid_step.launch) simp_all
  then have r: "grid_reach demo_cfg 1 small_kmu (k', [({w}, d')], [rec])"
    using grid_reach.step[OF grid_reach.start[of demo_cfg 1 small_kmu]] by simp
  have "(\<Union> (threads_of demo_cfg ` set [rec])) = {(p, j). in_grid (mk_dim3 1 1 1) p \<and> j < 2}"
    using launch_runs_every_thread[OF chk _ _ out _ fits, of _ "mk_dim3 1 1 1" "mk_dim3 2 1 1" 1 k' "[({w}, d')]" "[rec]"] r[unfolded k] q demo_launch_ok
    by (simp add: small_info_def upto_ndim_def mk_dim3_def)
  then show ?thesis using r by blast
qed

section \<open>Translation in the command processor and in the cores\<close>

lemma walk_in_mono:
  "walk_in w P entry vs i base \<Longrightarrow> (\<And>a. P a \<Longrightarrow> Q a) \<Longrightarrow> walk_in w Q entry vs i base"
proof (induction i arbitrary: base)
  case 0
  then show ?case by (auto simp: walk_in.simps split: option.splits)
next
  case (Suc i)
  then show ?case by (auto simp: walk_in.simps[of w _ _ _ "Suc i"] split: option.splits)
qed

lemma walk_in_cong:
  assumes "walk_in w P e1 vs i base" "\<And>a. P a \<Longrightarrow> e1 a = e2 a"
  shows "walk_in w P e2 vs i base \<and> pt_leaf w e2 vs i base = pt_leaf w e1 vs i base"
  using assms(1)
proof (induction i arbitrary: base)
  case 0
  then show ?case using assms(2) by (auto simp: walk_in.simps pt_leaf.simps split: option.splits)
next
  case (Suc i)
  let ?a = "pt_entry_addr w base (vs ! Suc i)"
  have P: "P ?a" using Suc.prems by (simp add: walk_in.simps[of w _ _ _ "Suc i"])
  show ?case
  proof (cases "pte_of w (e1 ?a)")
    case None
    then show ?thesis using P assms(2)[OF P] by (simp add: walk_in.simps[of w _ _ _ "Suc i"] pt_leaf.simps[of w _ _ "Suc i"])
  next
    case (Some q)
    then have "walk_in w P e1 vs i (pte_ppn q)" using Suc.prems by (simp add: walk_in.simps[of w _ _ _ "Suc i"])
    from Suc.IH[OF this] show ?thesis
      using P Some assms(2)[OF P] by (simp add: walk_in.simps[of w _ _ _ "Suc i"] pt_leaf.simps[of w _ _ "Suc i"])
  qed
qed

lemma span_entry:
  assumes "simx_span d a (VM_PTE_SIZE w)" "\<not> hit d a"
  shows "sx.entry_at w d a = ram_pte w (s_ram d) a"
proof -
  have "\<not> (\<forall>i < VM_PTE_SIZE w. hit d (a + of_nat i))"
    using assms(2) by (auto simp: VM_PTE_SIZE_def intro!: exI[of _ 0])
  then have "\<not> hit d (a + of_nat i)" if "i < VM_PTE_SIZE w" for i
    using assms(1) that unfolding simx_span_def by blast
  then have "map (\<lambda>i. simx_byte d (a + of_nat i)) [0..<VM_PTE_SIZE w] = map (\<lambda>i. ram_byte (s_ram d) (a + of_nat i)) [0..<VM_PTE_SIZE w]"
    by (intro map_cong) (simp_all add: simx_byte_def)
  then show ?thesis unfolding sx.entry_at_def ram_pte_def by (rule arg_cong)
qed

text \<open>
  C20.  The copy engine and the cores agree on addresses.  Take a page table in device memory whose walk for an
  address finds a leaf, the copy engine of the command processor and a memory unit over that memory, both with
  the same root register.  The copy engine resolves the address to the one the leaf gives, for pages of every
  size, without changing memory; the memory unit, where the leaf permits the access and no buffer entry
  matches, resolves it to the same address when the leaf maps a page of 4 KiB.
\<close>

theorem dma_and_cores_agree:
  assumes "vm_enable g" "satp_mode (satp_of (rv64 g) (cp_satp c)) \<noteq> 0" "vaddr_of (rv64 g) va = Some x"
    and "walk_in (rv64 g) (\<lambda>a. simx_span d a (VM_PTE_SIZE (rv64 g)) \<and> \<not> hit d a) (ram_pte (rv64 g) (s_ram d)) (va_vpn x)
      (VM_PT_LEVEL (rv64 g) - 1) (satp_ppn (satp_of (rv64 g) (cp_satp c)))"
    and "ref_leaf (rv64 g) (s_ram d) (satp_ppn (satp_of (rv64 g) (cp_satp c))) va = Some (p, l)"
    and "flat_mem (mdecoder m) (s_ram d)" "satp m = Some (satp_of (rv64 g) (cp_satp c))" "need_trans m"
      "list_all (\<lambda>e. \<not> tlb_match va e) (tlb m)" "\<not> walk_denied p type"
  shows "\<exists>d'. cp_translate g (make_cp_hooks v) c d va False = Some (leaf_addr (rv64 g) (pte_ppn p) l va, d')
    \<and> simx_byte d' = simx_byte d
    \<and> (l = 0 \<longrightarrow> fst (vAddr_to_pAddr (rv64 g) m va type) = Inr (leaf_addr (rv64 g) (pte_ppn p) l va))"
proof -
  let ?w = "rv64 g" and ?root = "satp_ppn (satp_of (rv64 g) (cp_satp c))"
  have nz: "cp_satp c \<noteq> 0"
  proof
    assume "cp_satp c = 0"
    moreover have "satp_mode (satp_of True 0) = 0" "satp_mode (satp_of False 0) = 0" by code_simp+
    then have "satp_mode (satp_of ?w 0) = 0" by (cases ?w) simp_all
    ultimately show False using assms(2) by simp
  qed
  have e: "ram_pte ?w (s_ram d) a = sx.entry_at ?w d a" if "simx_span d a (VM_PTE_SIZE ?w) \<and> \<not> hit d a" for a
    using span_entry that by metis
  have "pt_leaf ?w (ram_pte ?w (s_ram d)) (va_vpn x) (VM_PT_LEVEL ?w - 1) ?root = Some (p, l)"
    using assms(3,5) by (simp add: ref_leaf_def)
  with walk_in_cong[OF assms(4) e]
  have wi: "walk_in ?w (\<lambda>a. simx_span d a (VM_PTE_SIZE ?w) \<and> \<not> hit d a) (sx.entry_at ?w d) (va_vpn x) (VM_PT_LEVEL ?w - 1) ?root"
    and leaf: "pt_leaf ?w (sx.entry_at ?w d) (va_vpn x) (VM_PT_LEVEL ?w - 1) ?root = Some (p, l)" by simp_all
  have "walk_in ?w (\<lambda>a. simx_span d a (VM_PTE_SIZE ?w)) (sx.entry_at ?w d) (va_vpn x) (VM_PT_LEVEL ?w - 1) ?root"
    by (rule walk_in_mono[OF wi]) (erule conjunct1)
  from sx.cp_walk_leaf[OF _ this leaf, of "make_cp_hooks v"] obtain d'
    where d': "cp_walk ?w (make_cp_hooks v) (va_vpn x) d (VM_PT_LEVEL ?w - 1) ?root = Some (Some (pte_ppn p, l), d')"
      "simx_byte d' = simx_byte d" by auto
  then have "cp_translate g (make_cp_hooks v) c d va False = Some (leaf_addr ?w (pte_ppn p) l va, d')"
    using assms(1-3) nz by (simp add: cp_translate_def Let_def)
  moreover obtain m' where "vAddr_to_pAddr ?w m va type = (Inr (page_addr (pte_ppn p) 12 va), m')"
    by (rule vAddr_walk[OF assms(6-9,5,10)])
  ultimately show ?thesis using d'(2) page_leaf_addr[of 0 "pte_ppn p" va ?w] by auto
qed


theorem dma_and_cores_agree_witness:
  "\<exists>d. map_option fst (cp_translate \<lparr>vm_enable = True, rv64 = False, gpu = demo_gpu\<rparr> (make_cp_hooks sim_env0)
        (cp_new\<lparr>cp_satp := 0x80000001\<rparr>) d 0x123 False) = Some 0x5123
     \<and> fst (vAddr_to_pAddr False (demo_unit (s_ram d)) 0x123 LOAD) = Inr 0x5123"
proof -
  obtain r p where r: "ram_ok r" "capacity r = 0" "\<not> check_acl r" "ref_leaf False r 1 0x123 = Some (p, 0)" "pte_ppn p = 5"
    "pte_flags p = 0xF" "pte_r p" by (rule demo_ram)
  define d where "d = (sim_demo r [])\<lparr>s_regions := []\<rparr>"
  define x where "x = \<lparr>va_vpn = [0, 0], va_pgoff = 0x123, va_level = 2\<rparr>"
  let ?g = "\<lparr>vm_enable = True, rv64 = False, gpu = demo_gpu\<rparr>" and ?c = "cp_new\<lparr>cp_satp := 0x80000001\<rparr>"
  note u = demo_unit_ready[OF r(1-3)]
  have ram: "s_ram d = r" by (simp add: d_def sim_demo_def)
  have "\<not> hit d a" for a by (simp add: d_def hit_def host_region_ptr_def)
  moreover have "simx_ok d" using r(1-3) by (simp add: simx_ok_def ram)
  ultimately have sp: "simx_span d a (VM_PTE_SIZE False) \<and> \<not> hit d a" for a by (simp add: simx_span_def VM_PTE_SIZE_def)
  have walk: "walk_in False (\<lambda>a. simx_span d a (VM_PTE_SIZE False) \<and> \<not> hit d a) (ram_pte False (s_ram d)) vs i base" for vs i base
    by (induction i arbitrary: base) (simp_all add: walk_in.simps sp split: option.split)
  have "leaf_addr False 5 0 0x123 = 0x5123" by code_simp
  moreover have "\<exists>d'. cp_translate ?g (make_cp_hooks sim_env0) ?c d 0x123 False = Some (leaf_addr (rv64 ?g) (pte_ppn p) 0 0x123, d')
    \<and> simx_byte d' = simx_byte d
    \<and> ((0 :: nat) = 0 \<longrightarrow> fst (vAddr_to_pAddr (rv64 ?g) (demo_unit r) 0x123 LOAD) = Inr (leaf_addr (rv64 ?g) (pte_ppn p) 0 0x123))"
  proof (rule dma_and_cores_agree)
    show "satp_mode (satp_of (rv64 ?g) (cp_satp ?c)) \<noteq> 0" by simp code_simp
    show "vaddr_of (rv64 ?g) 0x123 = Some x" unfolding x_def by simp code_simp
  qed (use walk r demo_root u in \<open>simp_all add: ram walk_denied_def\<close>)
  ultimately show ?thesis using r(5) ram by (intro exI[of _ d]) auto
qed

end
